(* ===== verification/Prelude.thy ===== *)
theory Prelude
  imports Main "HOL-Library.Word"
begin

text \<open>
  Shared vocabulary of the development: the machine integers of the C sources, the
  error values a C execution can end in, the sequencing of fallible steps, the counted
  loop and the unbounded loop with their proof rules.

  A C function that touches memory or asserts is a function into \<open>'a result\<close>:
  \<open>Inl e\<close> when the execution fails an \<open>assert\<close> or has undefined behaviour
  (\<open>e\<close> says which), \<open>Inr x\<close> when it returns \<open>x\<close>.
\<close>

unbundle bit_operations_syntax

type_synonym u8 = "8 word"
type_synonym u16 = "16 word"
type_synonym u32 = "32 word"
type_synonym u64 = "64 word"

datatype rt_error =
    AssertFailed      \<comment> \<open>an \<open>assert\<close> does not hold (debug builds abort here)\<close>
  | NullPointer       \<comment> \<open>a null pointer is dereferenced\<close>
  | InvalidAccess     \<comment> \<open>a block that is not allocated is read, written or freed\<close>
  | OutOfBounds       \<comment> \<open>an access past the end of an allocated block\<close>
  | Aborted           \<comment> \<open>\<open>abort()\<close>\<close>
  | ExitFailure       \<comment> \<open>\<open>exit(1)\<close>\<close>

type_synonym 'a result = "rt_error + 'a"

section \<open>Sequencing of fallible steps\<close>

definition and_then :: "'a result \<Rightarrow> ('a \<Rightarrow> 'b result) \<Rightarrow> 'b result" where
  "and_then m f = (case m of Inl e \<Rightarrow> Inl e | Inr x \<Rightarrow> f x)"

definition check :: "bool \<Rightarrow> 'a result \<Rightarrow> 'a result" where
  "check b m = (if b then m else Inl AssertFailed)"

definition when_r :: "bool \<Rightarrow> ('s \<Rightarrow> 's result) \<Rightarrow> 's \<Rightarrow> 's result" where
  "when_r b f s = (if b then f s else Inr s)"

named_theorems result_simps "evaluation of sequenced steps"

lemma and_then_Inl [simp, result_simps]: "and_then (Inl e) f = Inl e"
  by (simp add: and_then_def)

lemma and_then_Inr [simp, result_simps]: "and_then (Inr x) f = f x"
  by (simp add: and_then_def)

lemma and_then_eq_Inr: "and_then m f = Inr y \<longleftrightarrow> (\<exists>x. m = Inr x \<and> f x = Inr y)"
  by (cases m) auto

lemma and_then_InrE:
  assumes "and_then m f = Inr y"
  obtains x where "m = Inr x" and "f x = Inr y"
  using assms by (auto simp: and_then_eq_Inr)

lemma and_then_assoc: "and_then (and_then m f) g = and_then m (\<lambda>x. and_then (f x) g)"
  by (cases m) auto

lemma and_then_cong [fundef_cong]:
  "m = m' \<Longrightarrow> (\<And>x. m' = Inr x \<Longrightarrow> f x = g x) \<Longrightarrow> and_then m f = and_then m' g"
  by (cases m') auto

lemma check_True [simp, result_simps]: "check True m = m"
  and check_False [simp, result_simps]: "check False m = Inl AssertFailed"
  by (simp_all add: check_def)

lemma check_eq_Inr: "check b m = Inr y \<longleftrightarrow> b \<and> m = Inr y"
  by (simp add: check_def)

lemma when_r_True [simp, result_simps]: "when_r True f s = f s"
  and when_r_False [simp, result_simps]: "when_r False f s = Inr s"
  by (simp_all add: when_r_def)

section \<open>The counted loop \<open>for (i = a; i < n; i++)\<close>\<close>

function for_range :: "nat \<Rightarrow> nat \<Rightarrow> (nat \<Rightarrow> 's \<Rightarrow> 's result) \<Rightarrow> 's \<Rightarrow> 's result" where
  "for_range i n body s =
     (if i < n then and_then (body i s) (for_range (Suc i) n body) else Inr s)"
  by pat_completeness auto
termination
  by (relation "measure (\<lambda>(i, n, body, s). n - i)") auto

declare for_range.simps [simp del]

lemma for_range_done [simp]: "n \<le> i \<Longrightarrow> for_range i n body s = Inr s"
  by (simp add: for_range.simps)

lemma for_range_step:
  "i < n \<Longrightarrow> for_range i n body s = and_then (body i s) (for_range (Suc i) n body)"
  by (simp add: for_range.simps)

text \<open>Total correctness: every iteration succeeds and advances the invariant.\<close>

lemma for_range_total:
  assumes "i \<le> n" and "P i s"
    and "\<And>k t. i \<le> k \<Longrightarrow> k < n \<Longrightarrow> P k t \<Longrightarrow> \<exists>t'. body k t = Inr t' \<and> P (Suc k) t'"
  shows "\<exists>s'. for_range i n body s = Inr s' \<and> P n s'"
  using assms
proof (induction "n - i" arbitrary: i s)
  case 0
  then show ?case by simp
next
  case (Suc d)
  then have lt: "i < n" by simp
  from Suc.prems(3)[OF order_refl lt Suc.prems(2)]
  obtain t where t: "body i s = Inr t" "P (Suc i) t" by blast
  have "\<exists>s'. for_range (Suc i) n body t = Inr s' \<and> P n s'"
  proof (rule Suc.hyps(1))
    show "d = n - Suc i" using Suc.hyps(2) by simp
    show "Suc i \<le> n" using lt by simp
  qed (use t(2) Suc.prems(3) in auto)
  with lt t show ?case by (simp add: for_range_step)
qed

text \<open>Partial correctness: if the loop returns, the invariant has been carried to the end.\<close>

lemma for_range_inv:
  assumes "for_range i n body s = Inr s'" and "P s"
    and "\<And>k t t'. i \<le> k \<Longrightarrow> k < n \<Longrightarrow> P t \<Longrightarrow> body k t = Inr t' \<Longrightarrow> P t'"
  shows "P s'"
  using assms
proof (induction "n - i" arbitrary: i s)
  case 0
  then show ?case by simp
next
  case (Suc d)
  then have lt: "i < n" by simp
  with Suc.prems(1) obtain t where t: "body i s = Inr t" "for_range (Suc i) n body t = Inr s'"
    by (auto simp: for_range_step and_then_eq_Inr)
  have "d = n - Suc i" using Suc.hyps(2) by simp
  from Suc.hyps(1)[OF this t(2)] show ?case
    using Suc.prems(2,3) lt t(1) by (meson Suc_leD order_refl)
qed

section \<open>The unbounded loop \<open>while (1)\<close>\<close>

text \<open>
  A loop body either leaves the function with \<open>return\<close> or goes round again.
  \<open>None\<close> is a loop that never returns.
\<close>

datatype 's loop_ctl = Return 's | Continue 's

partial_function (option) run_loop ::
  "('s \<Rightarrow> 's loop_ctl result) \<Rightarrow> 's \<Rightarrow> 's result option" where
  "run_loop body s =
     (case body s of
        Inl e \<Rightarrow> Some (Inl e)
      | Inr c \<Rightarrow> (case c of Return t \<Rightarrow> Some (Inr t) | Continue t \<Rightarrow> run_loop body t))"

lemma run_loop_Inl: "body s = Inl e \<Longrightarrow> run_loop body s = Some (Inl e)"
  by (subst run_loop.simps) simp

lemma run_loop_Return: "body s = Inr (Return t) \<Longrightarrow> run_loop body s = Some (Inr t)"
  by (subst run_loop.simps) simp

lemma run_loop_Continue: "body s = Inr (Continue t) \<Longrightarrow> run_loop body s = run_loop body t"
  by (subst run_loop.simps) simp

lemmas run_loop_unfold = run_loop_Inl run_loop_Return run_loop_Continue

text \<open>
  Total correctness of the loop: with an invariant no error can occur under, and a
  well-founded relation every further round decreases, the loop returns and
  its result satisfies the exit condition.
\<close>

lemma run_loop_total:
  assumes "wf r" and "P s"
    and "\<And>t. P t \<Longrightarrow> (\<exists>u. body t = Inr (Return u) \<and> Q u)
                      \<or> (\<exists>u. body t = Inr (Continue u) \<and> P u \<and> (u, t) \<in> r)"
  shows "\<exists>s'. run_loop body s = Some (Inr s') \<and> Q s'"
  using assms(1,2)
proof (induction s rule: wf_induct_rule)
  case (less s)
  from assms(3)[OF less.prems] show ?case
  proof (elim disjE exE conjE)
    fix u
    assume "body s = Inr (Return u)" and "Q u"
    then show ?thesis by (simp add: run_loop_Return)
  next
    fix u
    assume "body s = Inr (Continue u)" and "P u" and "(u, s) \<in> r"
    then show ?thesis using less.IH by (simp add: run_loop_Continue)
  qed
qed

text \<open>Termination alone: the loop returns or stops at an error, whatever the state.\<close>

lemma run_loop_terminates:
  assumes "wf r" and "P s"
    and "\<And>t u. P t \<Longrightarrow> body t = Inr (Continue u) \<Longrightarrow> P u \<and> (u, t) \<in> r"
  shows "\<exists>x. run_loop body s = Some x"
  using assms(1,2)
proof (induction s rule: wf_induct_rule)
  case (less s)
  show ?case
  proof (cases "body s")
    case (Inl e)
    then show ?thesis by (simp add: run_loop_Inl)
  next
    case (Inr c)
    show ?thesis
    proof (cases c)
      case (Return u)
      with Inr show ?thesis by (simp add: run_loop_Return)
    next
      case (Continue u)
      with Inr less assms(3) show ?thesis by (simp add: run_loop_Continue)
    qed
  qed
qed

text \<open>Partial correctness: what every round keeps holds of the result.\<close>

lemma run_loop_inv:
  assumes ret: "run_loop body s = Some (Inr s')" and "P s"
    and step: "\<And>t c. P t \<Longrightarrow> body t = Inr c \<Longrightarrow>
                 (case c of Return u \<Rightarrow> Q u | Continue u \<Rightarrow> P u)"
  shows "Q s'"
proof -
  have "b0 = body \<longrightarrow> P s0 \<longrightarrow> x = Inr s' \<longrightarrow> Q s'" if "run_loop b0 s0 = Some x" for b0 s0 x
  proof (rule run_loop.raw_induct [where P = "\<lambda>b t x. b = body \<longrightarrow> P t \<longrightarrow> x = Inr s' \<longrightarrow> Q s'",
        OF _ that], intro impI)
    fix f b t y
    assume IH: "\<And>b t y. f b t = Some y \<Longrightarrow> b = body \<longrightarrow> P t \<longrightarrow> y = Inr s' \<longrightarrow> Q s'"
      and eq: "(case b t of Inl e \<Rightarrow> Some (Inl e)
                 | Inr c \<Rightarrow> (case c of Return u \<Rightarrow> Some (Inr u) | Continue u \<Rightarrow> f b u)) = Some y"
      and b: "b = body" and P: "P t" and y: "y = Inr s'"
    show "Q s'"
    proof (cases "b t")
      case (Inl e)
      with eq y show ?thesis by simp
    next
      case (Inr c)
      with step[OF P, of c] b eq y IH show ?thesis by (cases c) auto
    qed
  qed
  from this[OF ret] assms(2) show ?thesis by simp
qed

section \<open>Lists\<close>

lemma butlast_append_last: "xs \<noteq> [] \<Longrightarrow> butlast xs @ [last xs] = xs"
  by simp

lemma count_list_pos_iff: "0 < count_list xs x \<longleftrightarrow> x \<in> set xs"
  by (simp add: count_list_0_iff zero_less_iff_neq_zero)

section \<open>Words\<close>

lemma unat_word_bound: "unat (w :: 'a :: len word) < 2 ^ LENGTH('a)"
  by (rule unsigned_less)

lemma and_push_mask:
  "w AND push_bit k (mask n) = push_bit k (take_bit n (drop_bit k (w :: 'a :: len word)))"
  by (rule bit_word_eqI) (auto simp: bit_simps)

lemma drop_and_push_mask:
  "drop_bit k (w AND push_bit k (mask n)) = take_bit n (drop_bit k (w :: 'a :: len word))"
  by (rule bit_word_eqI) (auto simp: bit_simps dest: bit_imp_le_length)

lemma unat_take_bit_less: "unat (take_bit n (w :: 'a :: len word)) < 2 ^ n"
  by (simp add: unsigned_take_bit_eq)

lemma unat_ucast_up:
  assumes "LENGTH('a) \<le> LENGTH('b)"
  shows "unat (ucast (w :: 'a :: len word) :: 'b :: len word) = unat w"
proof -
  have "unat w < 2 ^ LENGTH('b)"
    using unsigned_less [of w] assms by (meson less_le_trans one_le_numeral power_increasing)
  then show ?thesis by (simp add: unsigned_ucast_eq take_bit_nat_eq_self)
qed

lemma and_le_unat: "unat (a AND b) \<le> unat (b :: 'a :: len word)"
  by (simp only: word_le_nat_alt [symmetric] word_and_le1)

lemma unat_less_4_cases:
  assumes "unat (w :: 'a :: len word) < 4"
  shows "w \<in> {0, 1, 2, 3}"
proof -
  have w: "w = word_of_nat k" if "unat w = k" for k
    by (simp flip: that)
  have "unat w = 0 \<or> unat w = 1 \<or> unat w = 2 \<or> unat w = 3" using assms by auto
  with w [of 0] w [of 1] w [of 2] w [of 3] show ?thesis by auto
qed

lemma bit_bound:
  assumes "unat (w :: 'a :: len word) < 2 ^ k" and "bit w n"
  shows "n < k"
proof (rule ccontr)
  assume "\<not> n < k"
  then have "unat w < 2 ^ n"
    using assms(1) by (meson less_le_trans not_less one_le_numeral power_increasing)
  then have "\<not> bit (unat w) n" by (simp add: bit_iff_odd)
  then show False using assms(2) by (simp add: bit_unsigned_iff bit_imp_le_length)
qed

end
