(* ===== verification/ChunkVector.thy ===== *)
theory ChunkVector
  imports Prelude
begin

text \<open>
  The chunked vector of \<open>runtime/include/syli/chunk_vector.h\<close>: an array of
  pointers to chunks of \<open>CHUNK_VECTOR_CHUNK_SIZE\<close> elements that grows by doubling. The
  macros are parametric in the element type, so the model is polymorphic. The chunk
  size is the parameter \<open>cs\<close> (the header lets the build override it; 512 by default).

  What \<open>malloc\<close> and \<open>realloc\<close> return is an argument of the operations that call
  them: \<open>fresh\<close> is the chunk \<open>malloc\<close> returned (\<open>None\<close> for \<open>NULL\<close>, otherwise
  \<open>cs\<close> elements of arbitrary content), \<open>realloc_ok\<close> says whether \<open>realloc\<close> succeeded.

  \<open>cv_wf\<close> is the representation invariant and \<open>cv_list\<close> the list a vector
  stands for; every operation is proved to be the list operation the collector relies on.
  The locale \<open>vector_impl\<close> is that contract.
\<close>

section \<open>State\<close>

record 'a chunk_vector =
  chunks :: "'a list option list option" \<comment> \<open>the pointer array; \<open>None\<close> is \<open>NULL\<close>\<close>
  chunk_count :: u32
  chunk_array_capacity :: u32
  active_chunk :: u32
  active_offset :: u64
  total_elements :: u64

definition CHUNK_VECTOR_CHUNK_SIZE :: nat where
  "CHUNK_VECTOR_CHUNK_SIZE = 512"

definition CHUNK_VECTOR_INITIAL_CHUNK_ARRAY_CAPACITY :: nat where
  "CHUNK_VECTOR_INITIAL_CHUNK_ARRAY_CAPACITY = 64"

text \<open>\<open>cv->chunks[i]\<close> and the cell \<open>cv->chunks[i][o]\<close>.\<close>

definition chunk_at :: "'a chunk_vector \<Rightarrow> nat \<Rightarrow> 'a list result" where
  "chunk_at cv i =
     (case chunks cv of None \<Rightarrow> Inl NullPointer
      | Some arr \<Rightarrow>
          if i < length arr
          then (case arr ! i of None \<Rightarrow> Inl NullPointer | Some c \<Rightarrow> Inr c)
          else Inl OutOfBounds)"

definition vector_load :: "'a chunk_vector \<Rightarrow> u32 \<times> u64 \<Rightarrow> 'a result" where
  "vector_load cv slot =
     and_then (chunk_at cv (unat (fst slot))) (\<lambda>c.
       if unat (snd slot) < length c then Inr (c ! unat (snd slot)) else Inl OutOfBounds)"

definition vector_store :: "u32 \<times> u64 \<Rightarrow> 'a \<Rightarrow> 'a chunk_vector \<Rightarrow> 'a chunk_vector result" where
  "vector_store slot x cv =
     and_then (chunk_at cv (unat (fst slot))) (\<lambda>c.
       if unat (snd slot) < length c
       then Inr (cv\<lparr>chunks := Some ((the (chunks cv))
              [unat (fst slot) := Some (c[unat (snd slot) := x])])\<rparr>)
       else Inl OutOfBounds)"

definition store_chunk :: "nat \<Rightarrow> 'a list option \<Rightarrow> 'a chunk_vector \<Rightarrow> 'a chunk_vector result" where
  "store_chunk i c cv =
     (case chunks cv of None \<Rightarrow> Inl NullPointer
      | Some arr \<Rightarrow> if i < length arr then Inr (cv\<lparr>chunks := Some (arr[i := c])\<rparr>)
                    else Inl OutOfBounds)"

definition realloc_array :: "nat \<Rightarrow> 'a list option list \<Rightarrow> 'a list option list" where
  "realloc_array n arr = take n arr @ replicate (n - length arr) None"

section \<open>Operations\<close>

definition vector_init :: "nat \<Rightarrow> bool \<Rightarrow> 'a list option \<Rightarrow> 'a chunk_vector result" where
  "vector_init cs array_ok first =
     (if array_ok
      then Inr \<lparr>chunks = Some (first # replicate (CHUNK_VECTOR_INITIAL_CHUNK_ARRAY_CAPACITY - 1) None),
                chunk_count = 1,
                chunk_array_capacity = of_nat CHUNK_VECTOR_INITIAL_CHUNK_ARRAY_CAPACITY,
                active_chunk = 0, active_offset = 0, total_elements = 0\<rparr>
      else Inl NullPointer)"

definition vector_destroy :: "'a chunk_vector \<Rightarrow> 'a chunk_vector" where
  "vector_destroy cv =
     (case chunks cv of None \<Rightarrow> cv
      | Some _ \<Rightarrow> cv\<lparr>chunks := None, chunk_count := 0, total_elements := 0\<rparr>)"

definition vector_chunk_capacity :: "nat \<Rightarrow> u32 \<Rightarrow> u64" where
  "vector_chunk_capacity cs chunk_idx = of_nat cs"

definition vector_index_to_chunk :: "nat \<Rightarrow> u64 \<Rightarrow> u32 \<times> u64" where
  "vector_index_to_chunk cs index = (ucast (index div of_nat cs), index mod of_nat cs)"

text \<open>The doubling of the pointer array; the flag is false when \<open>realloc\<close> fails, after the
  capacity field has already been doubled.\<close>

definition grow_chunk_array :: "bool \<Rightarrow> 'a chunk_vector \<Rightarrow> bool \<times> 'a chunk_vector" where
  "grow_chunk_array realloc_ok cv =
     (if chunk_array_capacity cv \<le> active_chunk cv then
        let cap = chunk_array_capacity cv * 2; cv1 = cv\<lparr>chunk_array_capacity := cap\<rparr> in
        if realloc_ok
        then (True, cv1\<lparr>chunks := map_option (realloc_array (unat cap)) (chunks cv1)\<rparr>)
        else (False, cv1)
      else (True, cv))"

definition take_slot :: "'a chunk_vector \<Rightarrow> ((u32 \<times> u64) option \<times> 'a chunk_vector) result" where
  "take_slot cv =
     and_then (chunk_at cv (unat (active_chunk cv))) (\<lambda>_.
       Inr (Some (active_chunk cv, active_offset cv),
            cv\<lparr>active_offset := active_offset cv + 1, total_elements := total_elements cv + 1\<rparr>))"

definition vector_alloc_slot ::
    "nat \<Rightarrow> bool \<Rightarrow> 'a list option \<Rightarrow> 'a chunk_vector
     \<Rightarrow> ((u32 \<times> u64) option \<times> 'a chunk_vector) result" where
  "vector_alloc_slot cs realloc_ok fresh cv =
     (if of_nat cs \<le> active_offset cv then
        let (ok, cv1) = grow_chunk_array realloc_ok
               (cv\<lparr>active_chunk := active_chunk cv + 1, active_offset := 0\<rparr>) in
        if \<not> ok then Inr (None, cv1)
        else if chunk_count cv1 \<le> active_chunk cv1 then
          and_then (store_chunk (unat (active_chunk cv1)) fresh cv1) (\<lambda>cv2.
            if fresh = None
            then Inr (None, cv2\<lparr>active_chunk := active_chunk cv2 - 1, active_offset := of_nat cs\<rparr>)
            else take_slot (cv2\<lparr>chunk_count := chunk_count cv2 + 1\<rparr>))
        else take_slot cv1
      else take_slot cv)"

definition vector_push_back ::
    "nat \<Rightarrow> bool \<Rightarrow> 'a list option \<Rightarrow> 'a \<Rightarrow> 'a chunk_vector \<Rightarrow> 'a chunk_vector result" where
  "vector_push_back cs realloc_ok fresh x cv =
     (let append = (\<lambda>cv. and_then (vector_store (active_chunk cv, active_offset cv) x cv) (\<lambda>cv.
             Inr (cv\<lparr>active_offset := active_offset cv + 1,
                     total_elements := total_elements cv + 1\<rparr>))) in
      if of_nat cs \<le> active_offset cv then
        let (ok, cv1) = grow_chunk_array realloc_ok
               (cv\<lparr>active_chunk := active_chunk cv + 1, active_offset := 0\<rparr>) in
        if \<not> ok then Inr cv1
        else if chunk_count cv1 \<le> active_chunk cv1 then
          and_then (store_chunk (unat (active_chunk cv1)) fresh cv1) (\<lambda>cv2.
            append (cv2\<lparr>chunk_count := chunk_count cv2 + 1\<rparr>))
        else append cv1
      else append cv)"

definition vector_pop_back :: "nat \<Rightarrow> 'a chunk_vector \<Rightarrow> 'a chunk_vector" where
  "vector_pop_back cs cv =
     (if total_elements cv = 0 then cv
      else
        let cv1 = cv\<lparr>total_elements := total_elements cv - 1\<rparr> in
        if 0 < active_offset cv1 then cv1\<lparr>active_offset := active_offset cv1 - 1\<rparr>
        else cv1\<lparr>active_chunk := active_chunk cv1 - 1, active_offset := of_nat cs - 1\<rparr>)"

definition vector_at :: "nat \<Rightarrow> 'a chunk_vector \<Rightarrow> u64 \<Rightarrow> (u32 \<times> u64) option result" where
  "vector_at cs cv index =
     (if total_elements cv \<le> index then Inr None
      else let slot = vector_index_to_chunk cs index in
        and_then (chunk_at cv (unat (fst slot))) (\<lambda>_. Inr (Some slot)))"

text \<open>The variant on a constant vector has the same body.\<close>

definition vector_at_const :: "nat \<Rightarrow> 'a chunk_vector \<Rightarrow> u64 \<Rightarrow> (u32 \<times> u64) option result" where
  "vector_at_const cs cv index =
     (if total_elements cv \<le> index then Inr None
      else let slot = vector_index_to_chunk cs index in
        and_then (chunk_at cv (unat (fst slot))) (\<lambda>_. Inr (Some slot)))"

definition vector_back :: "nat \<Rightarrow> 'a chunk_vector \<Rightarrow> (u32 \<times> u64) option result" where
  "vector_back cs cv =
     (if total_elements cv = 0 then Inr None
      else if 0 < active_offset cv then
        and_then (chunk_at cv (unat (active_chunk cv))) (\<lambda>_.
          Inr (Some (active_chunk cv, active_offset cv - 1)))
      else let chunk_idx = active_chunk cv - 1 in
        and_then (chunk_at cv (unat chunk_idx)) (\<lambda>_. Inr (Some (chunk_idx, of_nat cs - 1))))"

definition vector_size :: "'a chunk_vector \<Rightarrow> u64" where
  "vector_size cv = total_elements cv"

definition vector_empty :: "'a chunk_vector \<Rightarrow> bool" where
  "vector_empty cv \<longleftrightarrow> total_elements cv = 0"

definition vector_clear :: "'a chunk_vector \<Rightarrow> 'a chunk_vector" where
  "vector_clear cv = cv\<lparr>active_chunk := 0, active_offset := 0, total_elements := 0\<rparr>"

section \<open>Representation invariant and abstraction\<close>

definition cv_wf :: "nat \<Rightarrow> 'a chunk_vector \<Rightarrow> bool" where
  "cv_wf cs cv \<longleftrightarrow> 0 < cs \<and> cs < 2 ^ 31 \<and>
     (\<exists>arr. chunks cv = Some arr \<and> length arr = unat (chunk_array_capacity cv)
       \<and> unat (chunk_count cv) \<le> length arr
       \<and> (\<forall>i < unat (chunk_count cv). \<exists>c. arr ! i = Some c \<and> length c = cs))
     \<and> unat (active_chunk cv) < unat (chunk_count cv)
     \<and> unat (active_offset cv) \<le> cs
     \<and> unat (total_elements cv) = unat (active_chunk cv) * cs + unat (active_offset cv)"

definition cv_cell :: "nat \<Rightarrow> 'a chunk_vector \<Rightarrow> nat \<Rightarrow> 'a" where
  "cv_cell cs cv i = the (the (chunks cv) ! (i div cs)) ! (i mod cs)"

definition cv_list :: "nat \<Rightarrow> 'a chunk_vector \<Rightarrow> 'a list" where
  "cv_list cs cv = map (cv_cell cs cv) [0..<unat (total_elements cv)]"

section \<open>Basic facts of the representation\<close>

lemma cv_wfE:
  assumes "cv_wf cs cv"
  obtains arr where "chunks cv = Some arr" and "length arr = unat (chunk_array_capacity cv)"
    and "unat (chunk_count cv) \<le> length arr"
    and "\<And>i. i < unat (chunk_count cv) \<Longrightarrow> \<exists>c. arr ! i = Some c \<and> length c = cs"
  using assms by (auto simp: cv_wf_def)

lemma cv_wfD:
  assumes "cv_wf cs cv"
  shows "0 < cs" and "cs < 2 ^ 31"
    and "unat (active_chunk cv) < unat (chunk_count cv)"
    and "unat (active_offset cv) \<le> cs"
    and "unat (total_elements cv) = unat (active_chunk cv) * cs + unat (active_offset cv)"
  using assms by (auto simp: cv_wf_def)

lemma length_cv_list [simp]: "length (cv_list cs cv) = unat (total_elements cv)"
  by (simp add: cv_list_def)

lemma nth_cv_list [simp]: "i < unat (total_elements cv) \<Longrightarrow> cv_list cs cv ! i = cv_cell cs cv i"
  by (simp add: cv_list_def)

lemma cv_list_eqI:
  "length xs = unat (total_elements cv) \<Longrightarrow>
   (\<And>i. i < unat (total_elements cv) \<Longrightarrow> cv_cell cs cv i = xs ! i) \<Longrightarrow> cv_list cs cv = xs"
  by (rule nth_equalityI) simp_all

lemma unat_of_nat_cs: "cs < 2 ^ 31 \<Longrightarrow> unat (of_nat cs :: u64) = cs"
  by (simp add: unsigned_of_nat take_bit_nat_eq_self)

lemma offset_full_iff:
  assumes "cv_wf cs cv"
  shows "of_nat cs \<le> active_offset cv \<longleftrightarrow> unat (active_offset cv) = cs"
  using cv_wfD [OF assms] by (auto simp: word_le_nat_alt unat_of_nat_cs)

lemma index_div_le_active:
  assumes "cv_wf cs cv" and "i < unat (total_elements cv)"
  shows "i div cs < unat (chunk_count cv)"
proof -
  note d = cv_wfD [OF assms(1)]
  have "i < (unat (active_chunk cv) + 1) * cs" using assms(2) d(4,5) by simp
  then have "i div cs < unat (active_chunk cv) + 1" by (rule less_mult_imp_div_less)
  with d(3) show ?thesis by simp
qed

lemma chunk_at_wf:
  assumes "cv_wf cs cv" and "i < unat (chunk_count cv)"
  shows "\<exists>c. chunk_at cv i = Inr c \<and> length c = cs \<and> the (chunks cv) ! i = Some c"
proof -
  obtain arr where a: "chunks cv = Some arr" "unat (chunk_count cv) \<le> length arr"
    and "\<And>i. i < unat (chunk_count cv) \<Longrightarrow> \<exists>c. arr ! i = Some c \<and> length c = cs"
    using cv_wfE [OF assms(1)] by metis
  then obtain c where "arr ! i = Some c" "length c = cs" using assms(2) by blast
  with a assms(2) show ?thesis by (simp add: chunk_at_def)
qed

text \<open>The slot of the \<open>i\<close>-th element.\<close>

definition slot_of :: "nat \<Rightarrow> nat \<Rightarrow> u32 \<times> u64 \<Rightarrow> bool" where
  "slot_of cs i slot \<longleftrightarrow> unat (fst slot) = i div cs \<and> unat (snd slot) = i mod cs"

lemma vector_load_slot:
  assumes "cv_wf cs cv" and "i < unat (total_elements cv)" and "slot_of cs i slot"
  shows "vector_load cv slot = Inr (cv_list cs cv ! i)"
proof -
  from chunk_at_wf [OF assms(1) index_div_le_active [OF assms(1,2)]] obtain c where
    c: "chunk_at cv (i div cs) = Inr c" "length c = cs" "the (chunks cv) ! (i div cs) = Some c"
    by blast
  with assms cv_wfD(1) [OF assms(1)] show ?thesis
    by (simp add: vector_load_def slot_of_def cv_cell_def)
qed

lemma vector_store_slot:
  assumes "cv_wf cs cv" and "i < unat (total_elements cv)" and "slot_of cs i slot"
  shows "\<exists>cv'. vector_store slot x cv = Inr cv' \<and> cv_wf cs cv'
           \<and> cv_list cs cv' = (cv_list cs cv)[i := x]
           \<and> total_elements cv' = total_elements cv \<and> active_chunk cv' = active_chunk cv
           \<and> active_offset cv' = active_offset cv"
proof -
  note d = cv_wfD [OF assms(1)]
  obtain arr where a: "chunks cv = Some arr" "length arr = unat (chunk_array_capacity cv)"
    "unat (chunk_count cv) \<le> length arr"
    "\<And>i. i < unat (chunk_count cv) \<Longrightarrow> \<exists>c. arr ! i = Some c \<and> length c = cs"
    using cv_wfE [OF assms(1)] by metis
  have k: "i div cs < unat (chunk_count cv)" by (rule index_div_le_active [OF assms(1,2)])
  then obtain c where c: "arr ! (i div cs) = Some c" "length c = cs" using a(4) by blast
  let ?cv = "cv\<lparr>chunks := Some (arr[i div cs := Some (c[i mod cs := x])])\<rparr>"
  have "vector_store slot x cv = Inr ?cv"
    using assms(3) a c k d(1) by (simp add: vector_store_def chunk_at_def slot_of_def)
  moreover have "cv_wf cs ?cv"
    using assms(1) a c k unfolding cv_wf_def by (auto simp: nth_list_update)
  moreover have "cv_list cs ?cv = (cv_list cs cv)[i := x]"
  proof (rule cv_list_eqI)
    fix j
    assume "j < unat (total_elements ?cv)"
    moreover have "j div cs = i div cs \<Longrightarrow> j mod cs = i mod cs \<Longrightarrow> j = i"
      by (metis div_mult_mod_eq)
    ultimately show "cv_cell cs ?cv j = (cv_list cs cv)[i := x] ! j"
      using a c k d(1) assms(2)
      by (cases "j = i") (auto simp: cv_cell_def nth_list_update)
  qed simp
  ultimately show ?thesis by auto
qed

section \<open>Growth\<close>

text \<open>What an allocation needs from \<open>malloc\<close> and \<open>realloc\<close> when the active chunk is full:
  a chunk of the right size if there is no spare one, and a doubled pointer array if
  the array is full too (whose capacity then still fits in 32 bits).\<close>

definition grow_ready :: "nat \<Rightarrow> bool \<Rightarrow> 'a list option \<Rightarrow> 'a chunk_vector \<Rightarrow> bool" where
  "grow_ready cs realloc_ok fresh cv \<longleftrightarrow>
     (unat (active_offset cv) = cs \<longrightarrow>
        (unat (active_chunk cv) + 1 = unat (chunk_count cv)
           \<longrightarrow> (case fresh of None \<Rightarrow> False | Some c \<Rightarrow> length c = cs))
      \<and> (unat (active_chunk cv) + 1 = unat (chunk_array_capacity cv)
           \<longrightarrow> realloc_ok \<and> unat (chunk_array_capacity cv) < 2 ^ 31))"

lemma unat_active_Suc:
  assumes "cv_wf cs cv"
  shows "unat (active_chunk cv + 1) = unat (active_chunk cv) + 1"
proof -
  have "unat (active_chunk cv) + 1 < 2 ^ 32"
    using cv_wfD(3) [OF assms] unat_word_bound [of "chunk_count cv"] by simp
  then show ?thesis by (simp add: unat_word_ariths)
qed

text \<open>The vector has moved to its next chunk, for which the array \<open>arr\<close> has room.\<close>

definition advanced :: "'a chunk_vector \<Rightarrow> 'a list option list \<Rightarrow> 'a chunk_vector \<Rightarrow> bool" where
  "advanced cv arr cv1 \<longleftrightarrow> chunks cv1 = Some arr \<and> length arr = unat (chunk_array_capacity cv1)
     \<and> unat (active_chunk cv) + 1 < length arr
     \<and> (\<forall>i < unat (chunk_count cv). arr ! i = the (chunks cv) ! i)
     \<and> unat (chunk_count cv) \<le> length arr
     \<and> chunk_count cv1 = chunk_count cv \<and> active_chunk cv1 = active_chunk cv + 1
     \<and> active_offset cv1 = 0 \<and> total_elements cv1 = total_elements cv"

lemma grow_chunk_array_ready:
  assumes "cv_wf cs cv" and "unat (active_offset cv) = cs" and "grow_ready cs realloc_ok fresh cv"
  obtains arr cv1 where
    "grow_chunk_array realloc_ok (cv\<lparr>active_chunk := active_chunk cv + 1, active_offset := 0\<rparr>)
       = (True, cv1)"
    and "advanced cv arr cv1"
proof -
  obtain arr where a: "chunks cv = Some arr" "length arr = unat (chunk_array_capacity cv)"
    "unat (chunk_count cv) \<le> length arr"
    using cv_wfE [OF assms(1)] by metis
  note d = cv_wfD [OF assms(1)] and s = unat_active_Suc [OF assms(1)]
  show thesis
  proof (cases "unat (active_chunk cv) + 1 = unat (chunk_array_capacity cv)")
    case False
    then have "\<not> chunk_array_capacity cv \<le> active_chunk cv + 1"
      using a d(3) s by (simp add: word_le_nat_alt)
    then show thesis
      using that [of _ arr] a d(3) s False by (simp add: grow_chunk_array_def advanced_def)
  next
    case True
    with assms(2,3) have ok: "realloc_ok" "unat (chunk_array_capacity cv) < 2 ^ 31"
      by (simp_all add: grow_ready_def)
    have cap: "unat (chunk_array_capacity cv * 2) = 2 * unat (chunk_array_capacity cv)"
      using ok(2) by (simp add: unat_word_ariths)
    have "chunk_array_capacity cv \<le> active_chunk cv + 1"
      using True s by (simp add: word_le_nat_alt)
    then have "grow_chunk_array realloc_ok
        (cv\<lparr>active_chunk := active_chunk cv + 1, active_offset := 0\<rparr>)
      = (True, cv\<lparr>active_chunk := active_chunk cv + 1, active_offset := 0,
                  chunk_array_capacity := chunk_array_capacity cv * 2,
                  chunks := Some (realloc_array (unat (chunk_array_capacity cv * 2)) arr)\<rparr>)"
      using ok(1) a(1) by (simp add: grow_chunk_array_def Let_def)
    from this show thesis
      by (rule that) (use a cap d(3) True in \<open>auto simp: realloc_array_def nth_append advanced_def\<close>)
  qed
qed

section \<open>Allocation of a slot\<close>

text \<open>Handing out the next slot of a chunk that has room keeps the invariant.\<close>

lemma take_slot_wf:
  assumes "chunks cv = Some arr" and "length arr = unat (chunk_array_capacity cv)"
    and "unat (chunk_count cv) \<le> length arr" and "0 < cs" and "cs < 2 ^ 31"
    and "\<forall>i < unat (chunk_count cv). \<exists>c. arr ! i = Some c \<and> length c = cs"
    and "unat (active_chunk cv) < unat (chunk_count cv)" and "unat (active_offset cv) < cs"
    and tot: "unat (total_elements cv) = unat (active_chunk cv) * cs + unat (active_offset cv)"
  shows "\<exists>slot cv'. take_slot cv = Inr (Some slot, cv') \<and> cv_wf cs cv'
           \<and> slot_of cs (unat (total_elements cv)) slot
           \<and> slot = (active_chunk cv, active_offset cv)
           \<and> cv' = cv\<lparr>active_offset := active_offset cv + 1,
                       total_elements := total_elements cv + 1\<rparr>
           \<and> unat (total_elements cv') = unat (total_elements cv) + 1"
proof -
  obtain c where c: "arr ! unat (active_chunk cv) = Some c" using assms(6,7) by blast
  have "unat (active_chunk cv) < 2 ^ 32" using unat_word_bound [of "active_chunk cv"] by simp
  then have "unat (active_chunk cv) * cs \<le> 2 ^ 32 * 2 ^ 31"
    using assms(5) by (intro mult_mono) simp_all
  then have "unat (total_elements cv) + 1 < 2 ^ 64" and o: "unat (active_offset cv) + 1 < 2 ^ 64"
    using tot assms(5,8) by simp_all
  then have t: "unat (total_elements cv + 1) = unat (total_elements cv) + 1"
    and o: "unat (active_offset cv + 1) = unat (active_offset cv) + 1"
    by (simp_all add: unat_word_ariths)
  let ?cv = "cv\<lparr>active_offset := active_offset cv + 1, total_elements := total_elements cv + 1\<rparr>"
  have "take_slot cv = Inr (Some (active_chunk cv, active_offset cv), ?cv)"
    using assms(1,3,7) c by (simp add: take_slot_def chunk_at_def)
  moreover have "cv_wf cs ?cv"
    unfolding cv_wf_def using assms t o by auto
  moreover have "slot_of cs (unat (total_elements cv)) (active_chunk cv, active_offset cv)"
    using tot assms(4,8) by (simp add: slot_of_def)
  ultimately show ?thesis using t by auto
qed

text \<open>\<open>cv'\<close> is \<open>cv\<close> with the slot behind its last element handed out.\<close>

definition slot_ready :: "nat \<Rightarrow> 'a chunk_vector \<Rightarrow> u32 \<times> u64 \<Rightarrow> 'a chunk_vector \<Rightarrow> bool" where
  "slot_ready cs cv slot cv' \<longleftrightarrow> cv_wf cs cv' \<and> slot_of cs (unat (total_elements cv)) slot
     \<and> unat (total_elements cv') = unat (total_elements cv) + 1
     \<and> (\<forall>i < unat (total_elements cv). cv_cell cs cv' i = cv_cell cs cv i)"

lemma advanced_total:
  assumes "cv_wf cs cv" and "unat (active_offset cv) = cs"
  shows "unat (total_elements cv) = unat (active_chunk cv + 1) * cs"
  using cv_wfD(5) [OF assms(1)] assms(2) unat_active_Suc [OF assms(1)] by simp

text \<open>The next chunk is there already.\<close>

lemma take_slot_next:
  assumes wf: "cv_wf cs cv" and full: "unat (active_offset cv) = cs"
    and adv: "advanced cv arr cv1" and more: "unat (active_chunk cv) + 1 < unat (chunk_count cv)"
  shows "\<exists>slot cv'. take_slot cv1 = Inr (Some slot, cv') \<and> slot_ready cs cv slot cv'"
proof -
  note d = cv_wfD [OF wf] and g = adv [unfolded advanced_def]
  have chunks: "\<forall>i < unat (chunk_count cv1). \<exists>c. arr ! i = Some c \<and> length c = cs"
    using cv_wfE [OF wf] g by (metis option.sel)
  obtain slot cv' where r: "take_slot cv1 = Inr (Some slot, cv')" "cv_wf cs cv'"
    "slot_of cs (unat (total_elements cv1)) slot" "unat (total_elements cv') = unat (total_elements cv1) + 1"
    "cv' = cv1\<lparr>active_offset := active_offset cv1 + 1, total_elements := total_elements cv1 + 1\<rparr>"
    using take_slot_wf [OF _ _ _ d(1,2) chunks] g more advanced_total [OF wf full] unat_active_Suc [OF wf] d(1) by auto
  then have "\<forall>i < unat (total_elements cv). cv_cell cs cv' i = cv_cell cs cv i"
    using g index_div_le_active [OF wf] by (simp add: cv_cell_def)
  with r g show ?thesis by (auto simp: slot_ready_def)
qed

text \<open>The next chunk is allocated.\<close>

lemma take_slot_fresh:
  assumes wf: "cv_wf cs cv" and full: "unat (active_offset cv) = cs"
    and adv: "advanced cv arr cv1" and last: "unat (active_chunk cv) + 1 = unat (chunk_count cv)" and c: "length c = cs"
  shows "\<exists>slot cv'. take_slot (cv1\<lparr>chunks := Some (arr[unat (chunk_count cv) := Some c]),
     chunk_count := chunk_count cv + 1\<rparr>) = Inr (Some slot, cv') \<and> slot_ready cs cv slot cv'"
proof -
  note d = cv_wfD [OF wf] and g = adv [unfolded advanced_def] and s = unat_active_Suc [OF wf]
  let ?arr = "arr[unat (chunk_count cv) := Some c]"
  let ?cv = "cv1\<lparr>chunks := Some ?arr, chunk_count := chunk_count cv + 1\<rparr>"
  have lt: "unat (chunk_count cv) < length arr" using last g by simp
  then have cc: "unat (chunk_count cv + 1) = unat (chunk_count cv) + 1"
    using g unat_word_bound [of "chunk_array_capacity cv1"] by (simp add: unat_word_ariths)
  have old: "\<exists>c. arr ! i = Some c \<and> length c = cs" if "i < unat (chunk_count cv)" for i
    using cv_wfE [OF wf] g that by (metis option.sel)
  have ch: "\<forall>i < unat (chunk_count ?cv). \<exists>c. ?arr ! i = Some c \<and> length c = cs"
    using cc old c lt by (auto simp: nth_list_update less_Suc_eq)
  have "\<exists>slot cv'. take_slot ?cv = Inr (Some slot, cv') \<and> cv_wf cs cv'
       \<and> slot_of cs (unat (total_elements ?cv)) slot
       \<and> slot = (active_chunk ?cv, active_offset ?cv)
       \<and> cv' = ?cv\<lparr>active_offset := active_offset ?cv + 1, total_elements := total_elements ?cv + 1\<rparr>
       \<and> unat (total_elements cv') = unat (total_elements ?cv) + 1"
    by (rule take_slot_wf [OF _ _ _ d(1,2) ch]) (use g lt cc last s advanced_total [OF wf full] d(1) in simp_all)
  then obtain slot cv' where r: "take_slot ?cv = Inr (Some slot, cv')" "cv_wf cs cv'"
    "slot_of cs (unat (total_elements cv)) slot" "unat (total_elements cv') = unat (total_elements cv) + 1"
    "chunks cv' = Some ?arr"
    using g by auto
  have "cv_cell cs cv' i = cv_cell cs cv i" if "i < unat (total_elements cv)" for i
    using index_div_le_active [OF wf that] r(5) g by (simp add: cv_cell_def)
  with r show ?thesis by (auto simp: slot_ready_def)
qed

lemma vector_alloc_slot_ready:
  assumes wf: "cv_wf cs cv" and ready: "grow_ready cs realloc_ok fresh cv"
  shows "\<exists>slot cv'. vector_alloc_slot cs realloc_ok fresh cv = Inr (Some slot, cv') \<and> slot_ready cs cv slot cv'"
proof (cases "unat (active_offset cv) = cs")
  case False
  obtain arr where a: "chunks cv = Some arr" "length arr = unat (chunk_array_capacity cv)"
    "unat (chunk_count cv) \<le> length arr" "\<forall>i < unat (chunk_count cv). \<exists>c. arr ! i = Some c \<and> length c = cs"
    using cv_wfE [OF wf] by metis
  note d = cv_wfD [OF wf]
  have "unat (active_offset cv) < cs" using False d(4) by simp
  from take_slot_wf [OF a(1-3) d(1,2) a(4) d(3) this d(5)]
  obtain slot cv' where "take_slot cv = Inr (Some slot, cv')" "slot_ready cs cv slot cv'"
    by (auto simp: slot_ready_def cv_cell_def)
  moreover have "vector_alloc_slot cs realloc_ok fresh cv = take_slot cv"
    using False offset_full_iff [OF wf] by (simp add: vector_alloc_slot_def)
  ultimately show ?thesis by auto
next
  case full: True
  obtain arr cv1 where
    g: "grow_chunk_array realloc_ok (cv\<lparr>active_chunk := active_chunk cv + 1, active_offset := 0\<rparr>) = (True, cv1)"
    and adv: "advanced cv arr cv1"
    using grow_chunk_array_ready [OF wf full ready] by blast
  note A = adv [unfolded advanced_def] and s = unat_active_Suc [OF wf] and off = offset_full_iff [OF wf]
  show ?thesis
  proof (cases "unat (active_chunk cv) + 1 = unat (chunk_count cv)")
    case False
    then have lt: "unat (active_chunk cv) + 1 < unat (chunk_count cv)" using cv_wfD(3) [OF wf] by simp
    then have "\<not> chunk_count cv \<le> active_chunk cv + 1" using s by (simp add: word_le_nat_alt)
    with take_slot_next [OF wf full adv lt] g A full off show ?thesis by (auto simp: vector_alloc_slot_def)
  next
    case True
    with ready full obtain c where c: "fresh = Some c" "length c = cs"
      by (auto simp: grow_ready_def split: option.splits)
    have "chunk_count cv1 \<le> active_chunk cv1" using True s A by (simp add: word_le_nat_alt)
    moreover have "store_chunk (unat (active_chunk cv1)) fresh cv1
        = Inr (cv1\<lparr>chunks := Some (arr[unat (chunk_count cv) := Some c])\<rparr>)"
      using A s True c(1) by (simp add: store_chunk_def)
    ultimately show ?thesis
      using take_slot_fresh [OF wf full adv True c(2)] g A c(1) full off by (auto simp: vector_alloc_slot_def)
  qed
qed

section \<open>The operations as list operations\<close>

lemma vector_init_wf:
  assumes "0 < cs" and "cs < 2 ^ 31" and "length first = cs"
  shows "\<exists>cv. vector_init cs True (Some first) = Inr cv \<and> cv_wf cs cv \<and> cv_list cs cv = []"
proof -
  have "cv_wf cs \<lparr>chunks = Some (Some first # replicate (CHUNK_VECTOR_INITIAL_CHUNK_ARRAY_CAPACITY - 1) None),
        chunk_count = 1, chunk_array_capacity = of_nat CHUNK_VECTOR_INITIAL_CHUNK_ARRAY_CAPACITY,
        active_chunk = 0, active_offset = 0, total_elements = 0\<rparr>"
    using assms by (simp add: cv_wf_def CHUNK_VECTOR_INITIAL_CHUNK_ARRAY_CAPACITY_def)
  then show ?thesis by (simp add: vector_init_def cv_list_def)
qed

lemma vector_clear_wf:
  assumes "cv_wf cs cv"
  shows "cv_wf cs (vector_clear cv)" and "cv_list cs (vector_clear cv) = []"
proof -
  have "0 < unat (chunk_count cv)" using cv_wfD(3) [OF assms] by simp
  then show "cv_wf cs (vector_clear cv)"
    using assms unfolding cv_wf_def vector_clear_def by auto
  show "cv_list cs (vector_clear cv) = []" by (simp add: vector_clear_def cv_list_def)
qed

lemma vector_pop_back_wf:
  assumes "cv_wf cs cv"
  shows "cv_wf cs (vector_pop_back cs cv)"
    and "cv_list cs (vector_pop_back cs cv) = butlast (cv_list cs cv)"
proof -
  note d = cv_wfD [OF assms]
  have minus1: "unat (w - 1) = unat w - 1" if "w \<noteq> 0" for w :: "'b :: len word"
    using that by (simp add: unat_minus_one)
  have size: "unat (total_elements (vector_pop_back cs cv)) = unat (total_elements cv) - 1"
    and same: "chunks (vector_pop_back cs cv) = chunks cv"
    by (auto simp: vector_pop_back_def Let_def minus1)
  show "cv_list cs (vector_pop_back cs cv) = butlast (cv_list cs cv)"
    by (rule cv_list_eqI) (simp_all add: size same cv_cell_def nth_butlast)
  show "cv_wf cs (vector_pop_back cs cv)"
  proof (cases "total_elements cv = 0")
    case True
    then show ?thesis using assms by (simp add: vector_pop_back_def)
  next
    case nonempty: False
    then have pos: "0 < unat (total_elements cv)" by (simp add: unat_gt_0)
    show ?thesis
    proof (cases "active_offset cv = 0")
      case False
      then have "unat (active_offset cv - 1) = unat (active_offset cv) - 1"
        and "0 < unat (active_offset cv)" by (simp_all add: minus1 unat_gt_0)
      then show ?thesis
        using assms nonempty False d minus1 [OF nonempty] unfolding cv_wf_def vector_pop_back_def
        by (auto simp: Let_def word_gt_0)
    next
      case True
      then have "unat (active_chunk cv) * cs \<noteq> 0" using d(5) pos by simp
      then have ac: "active_chunk cv \<noteq> 0" by auto
      have cs1: "unat (of_nat cs - 1 :: u64) = cs - 1"
        using d(1) unat_of_nat_cs [OF d(2)] by (subst minus1) auto
      have "(unat (active_chunk cv) - 1) * cs + (cs - 1) = unat (active_chunk cv) * cs - 1"
        using d(1) \<open>unat (active_chunk cv) * cs \<noteq> 0\<close>
        by (cases "unat (active_chunk cv)") auto
      then show ?thesis
        using assms nonempty True d minus1 [OF nonempty] minus1 [OF ac] cs1
        unfolding cv_wf_def vector_pop_back_def by (auto simp: Let_def)
    qed
  qed
qed

lemma index_slot:
  assumes "cv_wf cs cv" and "index < total_elements cv"
  shows "slot_of cs (unat index) (vector_index_to_chunk cs index)"
proof -
  note d = cv_wfD [OF assms(1)]
  have "unat index < unat (total_elements cv)" using assms(2) by (simp add: word_less_nat_alt)
  from index_div_le_active [OF assms(1) this]
  have "unat index div cs < 2 ^ 32" using unat_word_bound [of "chunk_count cv"] by simp
  moreover have "unat (index div of_nat cs) = unat index div cs"
    and "unat (index mod of_nat cs) = unat index mod cs"
    using unat_of_nat_cs [OF d(2)] by (simp_all add: unat_div_distrib unat_mod_distrib)
  ultimately show ?thesis
    by (simp add: slot_of_def vector_index_to_chunk_def unsigned_ucast_eq take_bit_nat_eq_self)
qed

lemma slot_chunk_at:
  assumes "cv_wf cs cv" and "i < unat (total_elements cv)" and "slot_of cs i slot"
  shows "\<exists>c. chunk_at cv (unat (fst slot)) = Inr c"
  using chunk_at_wf [OF assms(1) index_div_le_active [OF assms(1,2)]] assms(3)
  by (auto simp: slot_of_def)

lemma vector_at_slot:
  assumes "cv_wf cs cv" and "index < total_elements cv"
  shows "\<exists>slot. vector_at cs cv index = Inr (Some slot) \<and> slot_of cs (unat index) slot"
proof -
  obtain c where "chunk_at cv (unat (fst (vector_index_to_chunk cs index))) = Inr c"
    using slot_chunk_at [OF assms(1) _ index_slot [OF assms]] assms(2)
    by (auto simp: word_less_nat_alt)
  then have "vector_at cs cv index = Inr (Some (vector_index_to_chunk cs index))"
    using assms(2) by (simp add: vector_at_def Let_def not_le)
  with index_slot [OF assms] show ?thesis by blast
qed

lemma vector_back_slot:
  assumes "cv_wf cs cv" and "total_elements cv \<noteq> 0"
  shows "\<exists>slot. vector_back cs cv = Inr (Some slot) \<and> slot_of cs (unat (total_elements cv) - 1) slot"
proof -
  note d = cv_wfD [OF assms(1)]
  have pos: "0 < unat (total_elements cv)" using assms(2) by (simp add: unat_gt_0)
  have minus1: "unat (w - 1) = unat w - 1" if "w \<noteq> 0" for w :: "'b :: len word"
    using that by (simp add: unat_minus_one)
  define slot where "slot = (if 0 < active_offset cv then (active_chunk cv, active_offset cv - 1)
                             else (active_chunk cv - 1, of_nat cs - 1))"
  have s: "slot_of cs (unat (total_elements cv) - 1) slot"
  proof (cases "active_offset cv = 0")
    case False
    then have "0 < unat (active_offset cv)" by (simp add: unat_gt_0)
    then obtain k where k: "unat (active_offset cv) = Suc k" by (cases "unat (active_offset cv)") auto
    with d(1,4,5) False show ?thesis by (simp add: slot_def slot_of_def minus1 word_gt_0)
  next
    case True
    then have "unat (active_chunk cv) * cs \<noteq> 0" using d(5) pos by simp
    then have ac: "active_chunk cv \<noteq> 0" and "unat (active_chunk cv) \<noteq> 0" by auto
    then obtain k where k: "unat (active_chunk cv) = Suc k" using not0_implies_Suc by blast
    obtain c where c: "cs = Suc c" using d(1) by (cases cs) auto
    then have "unat (total_elements cv) - 1 = c + k * Suc c"
      using d(5) True k by simp
    then have "(unat (total_elements cv) - 1) div cs = k" "(unat (total_elements cv) - 1) mod cs = cs - 1"
      unfolding c by (simp_all del: mult_Suc_right)
    moreover have "unat (of_nat cs - 1 :: u64) = cs - 1"
      using d(1) unat_of_nat_cs [OF d(2)] by (subst minus1) auto
    ultimately show ?thesis
      using True k by (simp add: slot_def slot_of_def minus1 [OF ac])
  qed
  from slot_chunk_at [OF assms(1) _ s] pos obtain c where
    "chunk_at cv (unat (fst slot)) = Inr c" by auto
  then have "vector_back cs cv = Inr (Some slot)"
    using assms(2) by (auto simp: vector_back_def slot_def Let_def split: if_splits)
  with s show ?thesis by blast
qed

text \<open>\<open>vector_push_back\<close> is \<open>vector_alloc_slot\<close> followed by the write through the slot it
  returns, as long as \<open>malloc\<close> and \<open>realloc\<close> deliver.\<close>

lemma store_then_take:
  "and_then (vector_store (active_chunk cv, active_offset cv) x cv) (\<lambda>cv.
       Inr (cv\<lparr>active_offset := active_offset cv + 1, total_elements := total_elements cv + 1\<rparr>))
   = and_then (take_slot cv) (\<lambda>(slot, cv'). vector_store (the slot) x cv')"
  by (cases "chunk_at cv (unat (active_chunk cv))")
    (auto simp: vector_store_def take_slot_def chunk_at_def split: option.splits if_splits)

lemma push_back_alloc_slot:
  assumes "cv_wf cs cv" and "grow_ready cs realloc_ok fresh cv"
  shows "vector_push_back cs realloc_ok fresh x cv
       = and_then (vector_alloc_slot cs realloc_ok fresh cv) (\<lambda>(slot, cv'). vector_store (the slot) x cv')"
proof (cases "unat (active_offset cv) = cs")
  case False
  then show ?thesis
    using offset_full_iff [OF assms(1)]
    by (simp add: vector_push_back_def vector_alloc_slot_def Let_def store_then_take)
next
  case True
  obtain cv1 where g: "grow_chunk_array realloc_ok
      (cv\<lparr>active_chunk := active_chunk cv + 1, active_offset := 0\<rparr>) = (True, cv1)"
    and cv1: "chunk_count cv1 = chunk_count cv" "active_chunk cv1 = active_chunk cv + 1"
    by (rule grow_chunk_array_ready [OF assms(1) True assms(2)]) (simp add: advanced_def)
  have "fresh \<noteq> None" if "chunk_count cv \<le> active_chunk cv + 1"
    using that assms True unat_active_Suc [OF assms(1)] cv_wfD(3) [OF assms(1)]
    by (auto simp: grow_ready_def word_le_nat_alt split: option.splits)
  then show ?thesis
    using True offset_full_iff [OF assms(1)] g cv1
    by (auto simp: vector_push_back_def vector_alloc_slot_def Let_def store_then_take and_then_assoc
        simp del: not_None_eq)
qed

lemma alloc_slot_store:
  assumes "cv_wf cs cv" and "grow_ready cs realloc_ok fresh cv"
  shows "\<exists>slot cv1 cv2. vector_alloc_slot cs realloc_ok fresh cv = Inr (Some slot, cv1)
       \<and> vector_store slot x cv1 = Inr cv2 \<and> cv_wf cs cv2 \<and> cv_list cs cv2 = cv_list cs cv @ [x]"
proof -
  obtain slot cv1 where a: "vector_alloc_slot cs realloc_ok fresh cv = Inr (Some slot, cv1)"
    "cv_wf cs cv1" "slot_of cs (unat (total_elements cv)) slot"
    "unat (total_elements cv1) = unat (total_elements cv) + 1"
    "\<forall>i < unat (total_elements cv). cv_cell cs cv1 i = cv_cell cs cv i"
    using vector_alloc_slot_ready [OF assms] unfolding slot_ready_def by metis
  then obtain cv2 where s: "vector_store slot x cv1 = Inr cv2" "cv_wf cs cv2"
    "cv_list cs cv2 = (cv_list cs cv1)[unat (total_elements cv) := x]"
    "total_elements cv2 = total_elements cv1"
    using vector_store_slot [OF a(2) _ a(3)] by (metis less_add_one)
  have "cv_list cs cv2 = cv_list cs cv @ [x]"
    by (rule nth_equalityI) (use a s in \<open>auto simp: nth_append less_Suc_eq\<close>)
  with a s show ?thesis by blast
qed

section \<open>The contract of a vector\<close>

text \<open>
  What the collector relies on, whatever the representation: a list with a push and a
  pop at the end and indexed access. \<open>'e\<close> is what the environment supplies to a push
  (here the results of \<open>malloc\<close> and \<open>realloc\<close>).
\<close>

locale vector_impl =
  fixes list_of :: "'v \<Rightarrow> 'a list"
    and invar :: "'v \<Rightarrow> bool"
    and ready :: "'e \<Rightarrow> 'v \<Rightarrow> bool"
    and push :: "'e \<Rightarrow> 'a \<Rightarrow> 'v \<Rightarrow> 'v result"
    and pop :: "'v \<Rightarrow> 'v"
    and get :: "nat \<Rightarrow> 'v \<Rightarrow> 'a result"
    and put :: "nat \<Rightarrow> 'a \<Rightarrow> 'v \<Rightarrow> 'v result"
    and size :: "'v \<Rightarrow> nat"
  assumes push_law: "invar v \<Longrightarrow> ready e v \<Longrightarrow>
      \<exists>v'. push e x v = Inr v' \<and> invar v' \<and> list_of v' = list_of v @ [x]"
    and pop_law: "invar v \<Longrightarrow> invar (pop v) \<and> list_of (pop v) = butlast (list_of v)"
    and get_law: "invar v \<Longrightarrow> i < length (list_of v) \<Longrightarrow> get i v = Inr (list_of v ! i)"
    and put_law: "invar v \<Longrightarrow> i < length (list_of v) \<Longrightarrow>
      \<exists>v'. put i x v = Inr v' \<and> invar v' \<and> list_of v' = (list_of v)[i := x]"
    and size_law: "invar v \<Longrightarrow> size v = length (list_of v)"
begin

lemma top_after_push:
  assumes "invar v" and "ready e v"
  shows "\<exists>v'. push e x v = Inr v' \<and> get (size v' - 1) v' = Inr x \<and> list_of (pop v') = list_of v"
proof -
  obtain v' where v': "push e x v = Inr v'" "invar v'" "list_of v' = list_of v @ [x]"
    using push_law [OF assms] by blast
  then show ?thesis using get_law [of v' "length (list_of v)"] pop_law [of v'] size_law [of v']
    by simp
qed

text \<open>Removal by overwriting with the last element, as the candidate registry does it.\<close>

lemma swap_remove_law:
  assumes "invar v" and "i < size v"
  shows "\<exists>l v1. get (size v - 1) v = Inr l \<and> put i l v = Inr v1 \<and> invar (pop v1)
           \<and> list_of (pop v1) = butlast ((list_of v)[i := last (list_of v)])"
proof -
  have ne: "list_of v \<noteq> []" using assms size_law [OF assms(1)] by auto
  then have "get (size v - 1) v = Inr (last (list_of v))"
    using get_law [OF assms(1), of "size v - 1"] size_law [OF assms(1)] assms(2)
    by (simp add: last_conv_nth)
  moreover obtain v1 where v1: "put i (last (list_of v)) v = Inr v1" "invar v1"
    "list_of v1 = (list_of v)[i := last (list_of v)]"
    using put_law [OF assms(1)] assms(2) size_law [OF assms(1)] by metis
  moreover have "invar (pop v1) \<and> list_of (pop v1) = butlast (list_of v1)"
    by (rule pop_law [OF v1(2)])
  ultimately show ?thesis by auto
qed

end

text \<open>Indexed read and write through the pointer \<open>vector_at\<close> returns.\<close>

definition vector_get :: "nat \<Rightarrow> nat \<Rightarrow> 'a chunk_vector \<Rightarrow> 'a result" where
  "vector_get cs i cv =
     and_then (vector_at cs cv (of_nat i)) (\<lambda>slot.
       case slot of None \<Rightarrow> Inl NullPointer | Some p \<Rightarrow> vector_load cv p)"

definition vector_put :: "nat \<Rightarrow> nat \<Rightarrow> 'a \<Rightarrow> 'a chunk_vector \<Rightarrow> 'a chunk_vector result" where
  "vector_put cs i x cv =
     and_then (vector_at cs cv (of_nat i)) (\<lambda>slot.
       case slot of None \<Rightarrow> Inl NullPointer | Some p \<Rightarrow> vector_store p x cv)"

lemma of_nat_index:
  assumes "i < unat (n :: u64)"
  shows "unat (of_nat i :: u64) = i" and "(of_nat i :: u64) < n"
proof -
  have "i < 2 ^ 64" using assms unat_word_bound [of n] by simp
  then show "unat (of_nat i :: u64) = i" by (simp add: unsigned_of_nat take_bit_nat_eq_self)
  with assms show "(of_nat i :: u64) < n" by (simp add: word_less_nat_alt)
qed

lemma vector_get_nth:
  assumes "cv_wf cs cv" and "i < length (cv_list cs cv)"
  shows "vector_get cs i cv = Inr (cv_list cs cv ! i)"
proof -
  have i: "i < unat (total_elements cv)" using assms(2) by simp
  note n = of_nat_index [OF i]
  from vector_at_slot [OF assms(1) n(2)] n(1) obtain slot where
    "vector_at cs cv (of_nat i) = Inr (Some slot)" "slot_of cs i slot" by auto
  with vector_load_slot [OF assms(1) i] show ?thesis by (simp add: vector_get_def)
qed

lemma vector_put_update:
  assumes "cv_wf cs cv" and "i < length (cv_list cs cv)"
  shows "\<exists>cv'. vector_put cs i x cv = Inr cv' \<and> cv_wf cs cv' \<and> cv_list cs cv' = (cv_list cs cv)[i := x]"
proof -
  have i: "i < unat (total_elements cv)" using assms(2) by simp
  note n = of_nat_index [OF i]
  from vector_at_slot [OF assms(1) n(2)] n(1) obtain slot where
    "vector_at cs cv (of_nat i) = Inr (Some slot)" "slot_of cs i slot" by auto
  with vector_store_slot [OF assms(1) i, of slot x] show ?thesis by (auto simp: vector_put_def)
qed

lemma vector_push_back_wf:
  assumes "cv_wf cs cv" and "grow_ready cs realloc_ok fresh cv"
  shows "\<exists>cv'. vector_push_back cs realloc_ok fresh x cv = Inr cv' \<and> cv_wf cs cv'
       \<and> cv_list cs cv' = cv_list cs cv @ [x]"
proof -
  obtain slot cv1 cv2 where "vector_alloc_slot cs realloc_ok fresh cv = Inr (Some slot, cv1)"
    "vector_store slot x cv1 = Inr cv2" "cv_wf cs cv2" "cv_list cs cv2 = cv_list cs cv @ [x]"
    using alloc_slot_store [OF assms] by blast
  then show ?thesis using push_back_alloc_slot [OF assms] by simp
qed

interpretation cv: vector_impl
  "cv_list cs" "cv_wf cs" "\<lambda>(r, f). grow_ready cs r f" "\<lambda>(r, f). vector_push_back cs r f"
  "vector_pop_back cs" "vector_get cs" "vector_put cs" "\<lambda>v. unat (vector_size v)"
  for cs
  by unfold_locales
    (auto simp: vector_push_back_wf vector_pop_back_wf vector_get_nth vector_put_update
      vector_size_def)

section \<open>Properties\<close>

text \<open>A vector of chunk size 2 whose only chunk is full.\<close>

definition full_vector :: "nat chunk_vector" where
  "full_vector = \<lparr>chunks = Some [Some [5, 6], None], chunk_count = 1, chunk_array_capacity = 2,
     active_chunk = 0, active_offset = 2, total_elements = 2\<rparr>"

lemma full_vector_wf: "cv_wf 2 full_vector" and full_vector_list: "cv_list 2 full_vector = [5, 6]"
  by (simp_all add: cv_wf_def full_vector_def cv_list_def cv_cell_def upt_rec)

text \<open>The pointer \<open>vector_back\<close> gives reads the last element.\<close>

lemma vector_back_last:
  assumes "cv_wf cs cv"
  shows "if cv_list cs cv = [] then vector_back cs cv = Inr None \<and> vector_pop_back cs cv = cv
     else (\<exists>p. vector_back cs cv = Inr (Some p) \<and> vector_load cv p = Inr (last (cv_list cs cv)))"
proof (cases "total_elements cv = 0")
  case True
  then show ?thesis by (simp add: cv_list_def vector_back_def vector_pop_back_def)
next
  case False
  then have pos: "0 < unat (total_elements cv)" by (simp add: unat_gt_0)
  then have ne: "cv_list cs cv \<noteq> []" by (simp flip: length_greater_0_conv)
  obtain p where p: "vector_back cs cv = Inr (Some p)" "slot_of cs (unat (total_elements cv) - 1) p"
    using vector_back_slot [OF assms False] by blast
  have "vector_load cv p = Inr (last (cv_list cs cv))"
    using vector_load_slot [OF assms _ p(2)] pos ne by (simp add: last_conv_nth)
  with p ne show ?thesis by auto
qed

text \<open>C27: the reading operations are those of the list. \<open>vector_back\<close> is the last element and
  \<open>vector_pop_back\<close> its removal, also when the active chunk has just become empty; on an empty
  vector \<open>vector_back\<close> is \<open>NULL\<close> and \<open>vector_pop_back\<close> does nothing. \<open>vector_at\<close> is indexing:
  below the size the pointer reads the element of that index, and a write through it replaces
  exactly that element; from the size on it is \<open>NULL\<close>; \<open>vector_at_const\<close> is the same.\<close>

theorem vector_reads:
  assumes "cv_wf cs cv"
  shows "(if cv_list cs cv = [] then vector_back cs cv = Inr None \<and> vector_pop_back cs cv = cv
     else (\<exists>p. vector_back cs cv = Inr (Some p) \<and> vector_load cv p = Inr (last (cv_list cs cv))))
     \<and> cv_wf cs (vector_pop_back cs cv)
     \<and> cv_list cs (vector_pop_back cs cv) = butlast (cv_list cs cv)
     \<and> vector_at_const cs cv index = vector_at cs cv index
     \<and> (total_elements cv \<le> index \<longrightarrow> vector_at cs cv index = Inr None)
     \<and> (index < total_elements cv \<longrightarrow>
          (\<exists>p. vector_at cs cv index = Inr (Some p)
             \<and> vector_load cv p = Inr (cv_list cs cv ! unat index)
             \<and> (\<exists>cv'. vector_store p x cv = Inr cv' \<and> cv_wf cs cv'
                  \<and> cv_list cs cv' = (cv_list cs cv)[unat index := x])))"
proof (intro conjI impI)
  show "if cv_list cs cv = [] then vector_back cs cv = Inr None \<and> vector_pop_back cs cv = cv
     else (\<exists>p. vector_back cs cv = Inr (Some p) \<and> vector_load cv p = Inr (last (cv_list cs cv)))"
    by (rule vector_back_last [OF assms])
  show "cv_wf cs (vector_pop_back cs cv)" and "cv_list cs (vector_pop_back cs cv) = butlast (cv_list cs cv)"
    using vector_pop_back_wf [OF assms] by auto
next
  assume "index < total_elements cv"
  moreover from this have i: "unat index < unat (total_elements cv)" by (simp add: word_less_nat_alt)
  ultimately obtain p where p: "vector_at cs cv index = Inr (Some p)" "slot_of cs (unat index) p"
    using vector_at_slot [OF assms] by blast
  with vector_load_slot [OF assms i p(2)] vector_store_slot [OF assms i p(2)]
  show "\<exists>p. vector_at cs cv index = Inr (Some p)
      \<and> vector_load cv p = Inr (cv_list cs cv ! unat index)
      \<and> (\<exists>cv'. vector_store p x cv = Inr cv' \<and> cv_wf cs cv'
           \<and> cv_list cs cv' = (cv_list cs cv)[unat index := x])" by blast
qed (simp_all add: vector_at_def vector_at_const_def)

theorem vector_reads_witness:
  "cv_list 2 (vector_pop_back 2 full_vector) = [5]
   \<and> (\<exists>p. vector_back 2 full_vector = Inr (Some p) \<and> vector_load full_vector p = Inr 6)
   \<and> vector_at 2 full_vector 2 = Inr None"
proof -
  have "(2 :: u64) \<ge> total_elements full_vector" by (simp add: full_vector_def)
  then show ?thesis using vector_reads [OF full_vector_wf, of 2 0] full_vector_list by simp
qed

text \<open>The two ways to run out of memory when the active chunk is full and is the last one.\<close>

lemma alloc_slot_no_chunk:
  assumes "cv_wf cs cv" and "unat (active_offset cv) = cs"
    and "unat (active_chunk cv) + 1 = unat (chunk_count cv)"
    and "unat (chunk_count cv) < unat (chunk_array_capacity cv)"
  shows "\<exists>cv'. vector_alloc_slot cs r None cv = Inr (None, cv') \<and> cv_wf cs cv' \<and> cv_list cs cv' = cv_list cs cv"
proof -
  obtain arr where a: "chunks cv = Some arr" "length arr = unat (chunk_array_capacity cv)"
    "unat (chunk_count cv) \<le> length arr"
    "\<And>i. i < unat (chunk_count cv) \<Longrightarrow> \<exists>c. arr ! i = Some c \<and> length c = cs"
    using cv_wfE [OF assms(1)] by metis
  note d = cv_wfD [OF assms(1)] and s = unat_active_Suc [OF assms(1)]
  have le: "of_nat cs \<le> active_offset cv" using assms(2) offset_full_iff [OF assms(1)] by simp
  have cc: "chunk_count cv \<le> active_chunk cv + 1" "\<not> chunk_array_capacity cv \<le> active_chunk cv + 1"
    using assms(3,4) s by (simp_all add: word_le_nat_alt)
  let ?cv = "cv\<lparr>active_chunk := active_chunk cv, active_offset := of_nat cs,
                chunks := Some (arr[unat (chunk_count cv) := None])\<rparr>"
  have "vector_alloc_slot cs r None cv = Inr (None, ?cv)"
    using le cc a s assms(3,4) by (simp add: vector_alloc_slot_def grow_chunk_array_def store_chunk_def)
  moreover have "cv_wf cs ?cv"
    using assms(1-3) a d unat_of_nat_cs [OF d(2)] unfolding cv_wf_def by auto
  moreover have "cv_list cs ?cv = cv_list cs cv"
  proof (rule cv_list_eqI)
    fix i
    assume "i < unat (total_elements ?cv)"
    then have "i div cs < unat (chunk_count cv)" using index_div_le_active [OF assms(1)] by simp
    then show "cv_cell cs ?cv i = cv_list cs cv ! i"
      using \<open>i < unat (total_elements ?cv)\<close> a(1) by (simp add: cv_cell_def)
  qed simp
  ultimately show ?thesis by blast
qed

lemma alloc_slot_no_array:
  assumes "cv_wf cs cv" and "unat (active_offset cv) = cs"
    and "unat (active_chunk cv) + 1 = unat (chunk_count cv)"
    and "unat (chunk_count cv) = unat (chunk_array_capacity cv)"
  shows "\<exists>cv' arr. vector_alloc_slot cs False fresh cv = Inr (None, cv')
     \<and> chunks cv' = Some arr \<and> length arr = unat (active_chunk cv')
              \<and> chunks cv = Some arr \<and> chunk_array_capacity cv' = 2 * chunk_array_capacity cv
              \<and> vector_alloc_slot cs r fresh2 cv' = Inl OutOfBounds"
proof -
  obtain arr where a: "chunks cv = Some arr" "length arr = unat (chunk_array_capacity cv)"
    using cv_wfE [OF assms(1)] by metis
  note d = cv_wfD [OF assms(1)] and s = unat_active_Suc [OF assms(1)]
  have le: "of_nat cs \<le> active_offset cv" using assms(2) offset_full_iff [OF assms(1)] by simp
  have cap: "chunk_array_capacity cv \<le> active_chunk cv + 1" using assms(3,4) s by (simp add: word_le_nat_alt)
  let ?cv = "cv\<lparr>active_chunk := active_chunk cv + 1, active_offset := 0,
                chunk_array_capacity := chunk_array_capacity cv * 2\<rparr>"
  have "vector_alloc_slot cs False fresh cv = Inr (None, ?cv)"
    using le cap by (simp add: vector_alloc_slot_def grow_chunk_array_def Let_def)
  moreover have "\<not> of_nat cs \<le> (0 :: u64)"
    using d(1) unat_of_nat_cs [OF d(2)] by (auto simp: word_le_nat_alt)
  moreover have "chunk_at ?cv (unat (active_chunk cv + 1)) = Inl OutOfBounds"
    using a assms(3,4) s by (simp add: chunk_at_def)
  ultimately show ?thesis
    using a assms(3,4) s by (intro exI [of _ ?cv] exI [of _ arr]) (simp add: vector_alloc_slot_def take_slot_def)
qed

text \<open>C28: running out of memory in \<open>vector_alloc_slot\<close>. When \<open>malloc\<close> returns
  \<open>NULL\<close> for a new chunk, the call returns \<open>NULL\<close> and the vector still holds the
  same elements. When \<open>realloc\<close> fails, it also returns \<open>NULL\<close>, but the vector is left with its
  old pointer array, twice the capacity that the array has, and an active chunk just past
  its end, which the next call accesses out of bounds.\<close>

theorem vector_alloc_slot_out_of_memory:
  assumes "cv_wf cs cv" and "unat (active_offset cv) = cs"
    and "unat (active_chunk cv) + 1 = unat (chunk_count cv)"
  shows "(unat (chunk_count cv) < unat (chunk_array_capacity cv) \<longrightarrow>
           (\<exists>cv'. vector_alloc_slot cs r None cv = Inr (None, cv') \<and> cv_wf cs cv'
              \<and> cv_list cs cv' = cv_list cs cv))
     \<and> (unat (chunk_count cv) = unat (chunk_array_capacity cv) \<longrightarrow>
           (\<exists>cv' arr. vector_alloc_slot cs False fresh cv = Inr (None, cv')
              \<and> chunks cv' = Some arr \<and> length arr = unat (active_chunk cv')
              \<and> chunks cv = Some arr \<and> chunk_array_capacity cv' = 2 * chunk_array_capacity cv
              \<and> vector_alloc_slot cs r2 fresh2 cv' = Inl OutOfBounds))"
  using alloc_slot_no_chunk [OF assms] alloc_slot_no_array [OF assms] by blast

text \<open>The same chunk in an array that has no room for another one.\<close>

definition full_array :: "nat chunk_vector" where
  "full_array = full_vector\<lparr>chunks := Some [Some [5, 6]], chunk_array_capacity := 1\<rparr>"

theorem vector_alloc_slot_out_of_memory_witness:
  "(\<exists>cv'. vector_alloc_slot 2 True None full_vector = Inr (None, cv') \<and> cv_list 2 cv' = [5, 6])
   \<and> (\<exists>cv'. vector_alloc_slot 2 False None full_array = Inr (None, cv') \<and> unat (active_chunk cv') = 1
        \<and> vector_alloc_slot 2 True (Some [0, 0]) cv' = Inl OutOfBounds)"
proof
  have "unat (active_offset full_vector) = 2"
    "unat (active_chunk full_vector) + 1 = unat (chunk_count full_vector)"
    "unat (chunk_count full_vector) < unat (chunk_array_capacity full_vector)"
    by (simp_all add: full_vector_def)
  with vector_alloc_slot_out_of_memory [OF full_vector_wf this(1,2), of True None] full_vector_list
  show "\<exists>cv'. vector_alloc_slot 2 True None full_vector = Inr (None, cv') \<and> cv_list 2 cv' = [5, 6]" by auto
  have "cv_wf 2 full_array" by (simp add: cv_wf_def full_array_def full_vector_def)
  moreover have "unat (active_offset full_array) = 2"
    "unat (active_chunk full_array) + 1 = unat (chunk_count full_array)"
    "unat (chunk_count full_array) = unat (chunk_array_capacity full_array)" "chunks full_array = Some [Some [5, 6]]"
    by (simp_all add: full_array_def full_vector_def)
  ultimately show "\<exists>cv'. vector_alloc_slot 2 False None full_array = Inr (None, cv') \<and> unat (active_chunk cv') = 1
        \<and> vector_alloc_slot 2 True (Some [0, 0]) cv' = Inl OutOfBounds"
    using vector_alloc_slot_out_of_memory [of 2 full_array True None True "Some [0, 0]"] by fastforce
qed

end
