(* ===== verification/HeaderObject.thy ===== *)
theory HeaderObject
  imports Prelude
begin

text \<open>
  The level-0 object header of \<open>runtime/include/syli/header_object.h\<close>: one 64-bit
  word that packs the zone, the cyclic flag, the type, the immutable flags, the
  traceable flag, the variant tag, the mutable-cyclic flag, the unit shift and a 32-bit
  payload. The C accessors take an \<open>Object*\<close> and read its \<open>header_word\<close> only, so
  here they are functions of that word. The lemmas are the round trips between
  the constructors of headers and payloads and every accessor.
\<close>

section \<open>Masks, shifts and enumerations\<close>

definition GC_ZONE_MASK :: u64 where "GC_ZONE_MASK = push_bit 62 0x3"
definition GC_CYCLIC_MASK :: u64 where "GC_CYCLIC_MASK = push_bit 61 0x1"
definition GC_TYPE_MASK :: u64 where "GC_TYPE_MASK = push_bit 59 0x3"
definition GC_HAS_FINALIZER_MASK :: u64 where "GC_HAS_FINALIZER_MASK = push_bit 58 0x1"
definition GC_HAS_POINTERS_MASK :: u64 where "GC_HAS_POINTERS_MASK = push_bit 57 0x1"
definition GC_TRACEABLE_MASK :: u64 where "GC_TRACEABLE_MASK = push_bit 56 0x1"
definition GC_CYCLIC_MUTABLE_MASK :: u64 where "GC_CYCLIC_MUTABLE_MASK = push_bit 47 0x1"
definition GC_UNIT_SHIFT_BITS :: nat where "GC_UNIT_SHIFT_BITS = 43"
definition GC_UNIT_MASK :: u64 where "GC_UNIT_MASK = push_bit GC_UNIT_SHIFT_BITS 0xF"
definition GC_UNIT_SHIFT_I64 :: u32 where "GC_UNIT_SHIFT_I64 = 3"
definition GC_VARIANT_SHIFT :: nat where "GC_VARIANT_SHIFT = 48"
definition GC_VARIANT_FLAGS_MASK :: u64 where
  "GC_VARIANT_FLAGS_MASK = push_bit GC_VARIANT_SHIFT 0xFF"
definition GC_IMMUTABLE_FLAGS_MASK :: u64 where "GC_IMMUTABLE_FLAGS_MASK = push_bit 57 0x3"
definition GC_PAYLOAD_MASK :: u64 where "GC_PAYLOAD_MASK = 0xFFFFFFFF"
definition GC_BITMAP_LENGTH_MASK :: u32 where "GC_BITMAP_LENGTH_MASK = 0x1F"
definition GC_BITMAP_BITS_SHIFT :: nat where "GC_BITMAP_BITS_SHIFT = 5"
definition GC_ORDER_PTR_COUNT_MASK :: u64 where "GC_ORDER_PTR_COUNT_MASK = 0xFFFF"
definition GC_ORDER_IMM_COUNT_MASK :: u64 where "GC_ORDER_IMM_COUNT_MASK = push_bit 16 0xFFFF"
definition GC_ORDER_PTR_COUNT_SHIFT :: nat where "GC_ORDER_PTR_COUNT_SHIFT = 0"
definition GC_ORDER_IMM_COUNT_SHIFT :: nat where "GC_ORDER_IMM_COUNT_SHIFT = 16"

lemmas header_mask_defs =
  GC_ZONE_MASK_def GC_CYCLIC_MASK_def GC_TYPE_MASK_def GC_HAS_FINALIZER_MASK_def
  GC_HAS_POINTERS_MASK_def GC_TRACEABLE_MASK_def GC_CYCLIC_MUTABLE_MASK_def
  GC_UNIT_SHIFT_BITS_def GC_UNIT_MASK_def GC_UNIT_SHIFT_I64_def GC_VARIANT_SHIFT_def
  GC_VARIANT_FLAGS_MASK_def GC_IMMUTABLE_FLAGS_MASK_def GC_PAYLOAD_MASK_def
  GC_BITMAP_LENGTH_MASK_def GC_BITMAP_BITS_SHIFT_def GC_ORDER_PTR_COUNT_MASK_def
  GC_ORDER_IMM_COUNT_MASK_def GC_ORDER_PTR_COUNT_SHIFT_def GC_ORDER_IMM_COUNT_SHIFT_def

text \<open>The enumerations carry their bit patterns; a cast to the enumeration reads them back.\<close>

datatype ObjectZone = Zone_GcLocal | Zone_GcShared | Zone_Static | Zone_Reserved2

fun zone_bits :: "ObjectZone \<Rightarrow> u64" where
  "zone_bits Zone_GcLocal = push_bit 62 0"
| "zone_bits Zone_GcShared = push_bit 62 1"
| "zone_bits Zone_Static = push_bit 62 2"
| "zone_bits Zone_Reserved2 = push_bit 62 3"

definition zone_of_bits :: "u64 \<Rightarrow> ObjectZone" where
  "zone_of_bits w =
     (if w = zone_bits Zone_GcLocal then Zone_GcLocal
      else if w = zone_bits Zone_GcShared then Zone_GcShared
      else if w = zone_bits Zone_Static then Zone_Static
      else Zone_Reserved2)"

datatype ObjectType = Type_MonoImm | Type_MonoRef | Type_MixedOrder | Type_MixedBitmap

fun type_bits :: "ObjectType \<Rightarrow> u64" where
  "type_bits Type_MonoImm = push_bit 59 0"
| "type_bits Type_MonoRef = push_bit 59 1"
| "type_bits Type_MixedOrder = push_bit 59 2"
| "type_bits Type_MixedBitmap = push_bit 59 3"

definition type_of_bits :: "u64 \<Rightarrow> ObjectType" where
  "type_of_bits w =
     (if w = type_bits Type_MonoImm then Type_MonoImm
      else if w = type_bits Type_MonoRef then Type_MonoRef
      else if w = type_bits Type_MixedOrder then Type_MixedOrder
      else Type_MixedBitmap)"

datatype CyclicFlag = Acyclic | Cyclic

fun cyclic_bits :: "CyclicFlag \<Rightarrow> u64" where
  "cyclic_bits Acyclic = push_bit 61 0"
| "cyclic_bits Cyclic = push_bit 61 1"

text \<open>The immutable flags are or-ed together by callers, so they stay words.\<close>

definition Flag_None :: u64 where "Flag_None = 0"
definition Flag_Traceable :: u64 where "Flag_Traceable = push_bit 56 1"
definition Flag_HasPointers :: u64 where "Flag_HasPointers = push_bit 57 1"
definition Flag_HasFinalizer :: u64 where "Flag_HasFinalizer = push_bit 58 1"

definition imm_flags_mask :: u64 where
  "imm_flags_mask = Flag_Traceable OR Flag_HasPointers OR Flag_HasFinalizer"

lemmas imm_flag_defs = Flag_None_def Flag_Traceable_def Flag_HasPointers_def
  Flag_HasFinalizer_def imm_flags_mask_def

section \<open>Header and payload construction\<close>

definition syli_object_make_header ::
    "ObjectZone \<Rightarrow> CyclicFlag \<Rightarrow> ObjectType \<Rightarrow> u64 \<Rightarrow> u32 \<Rightarrow> u32 \<Rightarrow> u64 result" where
  "syli_object_make_header zone cyclic typ imm_flags unit_shift payload =
     check (zone = Zone_GcLocal \<or> zone = Zone_GcShared \<or> zone = Zone_Static)
     (check (unit_shift \<le> GC_UNIT_SHIFT_I64)
     (Inr (zone_bits zone OR cyclic_bits cyclic OR type_bits typ OR imm_flags
           OR push_bit GC_UNIT_SHIFT_BITS (ucast (unit_shift AND 0xF) :: u64)
           OR (ucast payload AND GC_PAYLOAD_MASK))))"

definition syli_object_make_mono_payload :: "u64 \<Rightarrow> u32 result" where
  "syli_object_make_mono_payload n = check (n < push_bit 32 1) (Inr (ucast n))"

definition syli_object_make_order_payload :: "u64 \<Rightarrow> u64 \<Rightarrow> u32 result" where
  "syli_object_make_order_payload ptr_count imm_count =
     check (ptr_count < push_bit 16 1) (check (imm_count < push_bit 16 1)
     (Inr (ucast (push_bit GC_ORDER_PTR_COUNT_SHIFT ptr_count
                  OR push_bit GC_ORDER_IMM_COUNT_SHIFT imm_count))))"

definition syli_object_make_bitmap_payload :: "u8 \<Rightarrow> u32 \<Rightarrow> u32 result" where
  "syli_object_make_bitmap_payload n bitmap =
     check (n < push_bit 5 1) (check (bitmap < push_bit 27 1)
     (Inr (ucast n OR push_bit GC_BITMAP_BITS_SHIFT bitmap)))"

section \<open>Accessors\<close>

definition syli_object_get_zone :: "u64 \<Rightarrow> ObjectZone" where
  "syli_object_get_zone h = zone_of_bits (h AND GC_ZONE_MASK)"

definition syli_object_is_local :: "u64 \<Rightarrow> bool" where
  "syli_object_is_local h \<longleftrightarrow> h AND GC_ZONE_MASK = zone_bits Zone_GcLocal"

definition syli_object_is_shared :: "u64 \<Rightarrow> bool" where
  "syli_object_is_shared h \<longleftrightarrow> h AND GC_ZONE_MASK = zone_bits Zone_GcShared"

definition syli_object_is_cyclic :: "u64 \<Rightarrow> bool" where
  "syli_object_is_cyclic h \<longleftrightarrow> h AND GC_CYCLIC_MASK \<noteq> 0"

definition syli_object_is_acyclic :: "u64 \<Rightarrow> bool" where
  "syli_object_is_acyclic h \<longleftrightarrow> h AND GC_CYCLIC_MASK = 0"

definition syli_object_is_cyclic_mutable :: "u64 \<Rightarrow> bool" where
  "syli_object_is_cyclic_mutable h \<longleftrightarrow> h AND GC_CYCLIC_MUTABLE_MASK \<noteq> 0"

definition syli_object_has_finalizer :: "u64 \<Rightarrow> bool" where
  "syli_object_has_finalizer h \<longleftrightarrow> h AND GC_HAS_FINALIZER_MASK \<noteq> 0"

definition syli_object_has_pointers :: "u64 \<Rightarrow> bool" where
  "syli_object_has_pointers h \<longleftrightarrow> h AND GC_HAS_POINTERS_MASK \<noteq> 0"

definition syli_object_get_immutable_flags :: "u64 \<Rightarrow> u64" where
  "syli_object_get_immutable_flags h = h AND GC_IMMUTABLE_FLAGS_MASK"

definition syli_object_is_traceable :: "u64 \<Rightarrow> bool" where
  "syli_object_is_traceable h \<longleftrightarrow> h AND GC_TRACEABLE_MASK \<noteq> 0"

definition syli_object_type :: "u64 \<Rightarrow> ObjectType" where
  "syli_object_type h = type_of_bits (h AND GC_TYPE_MASK)"

definition syli_object_is_mono_imm :: "u64 \<Rightarrow> bool" where
  "syli_object_is_mono_imm h \<longleftrightarrow> h AND GC_TYPE_MASK = type_bits Type_MonoImm"

definition syli_object_is_mono_ref :: "u64 \<Rightarrow> bool" where
  "syli_object_is_mono_ref h \<longleftrightarrow> h AND GC_TYPE_MASK = type_bits Type_MonoRef"

definition syli_object_is_mono :: "u64 \<Rightarrow> bool" where
  "syli_object_is_mono h \<longleftrightarrow> syli_object_is_mono_imm h \<or> syli_object_is_mono_ref h"

definition syli_object_is_mixed_order :: "u64 \<Rightarrow> bool" where
  "syli_object_is_mixed_order h \<longleftrightarrow> h AND GC_TYPE_MASK = type_bits Type_MixedOrder"

definition syli_object_is_mixed_bitmap :: "u64 \<Rightarrow> bool" where
  "syli_object_is_mixed_bitmap h \<longleftrightarrow> h AND GC_TYPE_MASK = type_bits Type_MixedBitmap"

definition syli_object_payload :: "u64 \<Rightarrow> u32" where
  "syli_object_payload h = ucast (h AND GC_PAYLOAD_MASK)"

definition syli_object_mono_length :: "u64 \<Rightarrow> u64 result" where
  "syli_object_mono_length h =
     check (syli_object_is_mono h) (Inr (ucast (syli_object_payload h)))"

definition syli_object_order_ptr_count :: "u64 \<Rightarrow> u64 result" where
  "syli_object_order_ptr_count h =
     check (syli_object_is_mixed_order h)
       (Inr (ucast (syli_object_payload h) AND GC_ORDER_PTR_COUNT_MASK))"

definition syli_object_order_imm_count :: "u64 \<Rightarrow> u64 result" where
  "syli_object_order_imm_count h =
     check (syli_object_is_mixed_order h)
       (Inr (drop_bit GC_ORDER_IMM_COUNT_SHIFT
              (ucast (syli_object_payload h) AND GC_ORDER_IMM_COUNT_MASK)))"

definition syli_object_order_length :: "u64 \<Rightarrow> u64 result" where
  "syli_object_order_length h =
     check (syli_object_is_mixed_order h)
       (let payload = ucast (syli_object_payload h);
            ptr_count = payload AND GC_ORDER_PTR_COUNT_MASK;
            imm_count = drop_bit GC_ORDER_IMM_COUNT_SHIFT (payload AND GC_ORDER_IMM_COUNT_MASK)
        in Inr (ptr_count + imm_count))"

definition syli_object_bitmap_length :: "u64 \<Rightarrow> u64 result" where
  "syli_object_bitmap_length h =
     check (syli_object_is_mixed_bitmap h)
       (Inr (ucast (syli_object_payload h AND GC_BITMAP_LENGTH_MASK)))"

definition syli_object_bitmap_bits :: "u64 \<Rightarrow> u32 result" where
  "syli_object_bitmap_bits h =
     check (syli_object_is_mixed_bitmap h)
       (Inr (drop_bit GC_BITMAP_BITS_SHIFT (syli_object_payload h)))"

definition syli_bitmap_is_ref :: "u32 \<Rightarrow> nat \<Rightarrow> bool" where
  "syli_bitmap_is_ref bitmap index \<longleftrightarrow> bitmap AND push_bit index 1 \<noteq> 0"

definition syli_object_length :: "u64 \<Rightarrow> u64 result" where
  "syli_object_length h =
     (case type_of_bits (h AND GC_TYPE_MASK) of
        Type_MonoImm \<Rightarrow> syli_object_mono_length h
      | Type_MonoRef \<Rightarrow> syli_object_mono_length h
      | Type_MixedOrder \<Rightarrow> syli_object_order_length h
      | Type_MixedBitmap \<Rightarrow> syli_object_bitmap_length h)"

definition syli_object_unit_shift :: "u64 \<Rightarrow> nat" where
  "syli_object_unit_shift h = unat (drop_bit GC_UNIT_SHIFT_BITS (h AND GC_UNIT_MASK))"

definition syli_object_unit_bytes :: "u64 \<Rightarrow> u64" where
  "syli_object_unit_bytes h = push_bit (syli_object_unit_shift h) 1"

definition syli_object_size_bytes :: "u64 \<Rightarrow> u64 result" where
  "syli_object_size_bytes h =
     and_then (syli_object_length h) (\<lambda>n. Inr (push_bit (syli_object_unit_shift h) n))"

definition syli_object_get_variant_tag :: "u64 \<Rightarrow> u64" where
  "syli_object_get_variant_tag h = drop_bit GC_VARIANT_SHIFT (h AND GC_VARIANT_FLAGS_MASK)"

definition syli_object_total_bytes :: "u64 \<Rightarrow> u64 result" where
  "syli_object_total_bytes h =
     and_then (syli_object_size_bytes h) (\<lambda>n.
       let total = 2 * 8 + n in
       Inr (if syli_object_is_cyclic_mutable h then total + 8 else total))"

lemmas header_accessor_defs =
  syli_object_get_zone_def syli_object_is_local_def syli_object_is_shared_def
  syli_object_is_cyclic_def syli_object_is_acyclic_def syli_object_is_cyclic_mutable_def
  syli_object_has_finalizer_def syli_object_has_pointers_def
  syli_object_get_immutable_flags_def syli_object_is_traceable_def syli_object_type_def
  syli_object_is_mono_imm_def syli_object_is_mono_ref_def syli_object_is_mono_def
  syli_object_is_mixed_order_def syli_object_is_mixed_bitmap_def syli_object_payload_def
  syli_object_mono_length_def syli_object_order_ptr_count_def syli_object_order_imm_count_def
  syli_object_order_length_def syli_object_bitmap_length_def syli_object_bitmap_bits_def
  syli_bitmap_is_ref_def syli_object_length_def syli_object_unit_shift_def
  syli_object_unit_bytes_def syli_object_size_bytes_def syli_object_get_variant_tag_def
  syli_object_total_bytes_def

section \<open>Reading a constructed header back\<close>

lemma unit_shift_cases:
  assumes "(sh :: u32) \<le> 3"
  shows "sh = 0 \<or> sh = 1 \<or> sh = 2 \<or> sh = 3"
proof -
  have "unat sh \<le> 3" using assms by (simp add: word_le_nat_alt)
  then have "unat sh = 0 \<or> unat sh = 1 \<or> unat sh = 2 \<or> unat sh = 3" by arith
  then show ?thesis by (simp add: word_unat_eq_iff)
qed

lemma unit_piece:
  assumes "(sh :: u32) \<le> 3"
  shows "(push_bit 43 (ucast (sh AND 0xF)) :: u64) = push_bit 43 (ucast sh) AND 0x780000000000"
    and "drop_bit 43 ((push_bit 43 (ucast sh) :: u64) AND 0x780000000000) = ucast sh"
  using unit_shift_cases[OF assms] by auto

lemma ucast_payload: "(ucast (ucast (p :: u32) AND (0xFFFFFFFF :: u64)) :: u32) = p"
proof -
  have "(0xFFFFFFFF :: u64) = mask 32" by (simp add: mask_eq_exp_minus_1)
  moreover have "(ucast (ucast p AND (mask 32 :: u64)) :: u32) = p"
    by (rule bit_word_eqI) (auto simp: bit_simps)
  ultimately show ?thesis by (simp only:)
qed

text \<open>
  The packed word as a disjunction of fields, each confined to its own mask. Every
  accessor mask meets exactly one of them.
\<close>

definition header_word_of :: "ObjectZone \<Rightarrow> CyclicFlag \<Rightarrow> ObjectType \<Rightarrow> u64 \<Rightarrow> u64 \<Rightarrow> u64 \<Rightarrow> u64" where
  "header_word_of z c t f x y =
     zone_bits z OR cyclic_bits c OR type_bits t OR (f AND imm_flags_mask)
     OR (x AND 0x780000000000) OR (y AND GC_PAYLOAD_MASK)"

named_theorems header_reads "a field mask applied to a packed header word"

lemma header_word_zone [header_reads]:
  "header_word_of z c t f x y AND GC_ZONE_MASK = zone_bits z"
  unfolding header_word_of_def
  by (cases z; cases c; cases t)
    (simp_all add: header_mask_defs imm_flag_defs bit.conj_disj_distrib2 and.assoc)

lemma header_word_cyclic [header_reads]:
  "header_word_of z c t f x y AND GC_CYCLIC_MASK = cyclic_bits c"
  unfolding header_word_of_def
  by (cases z; cases c; cases t)
    (simp_all add: header_mask_defs imm_flag_defs bit.conj_disj_distrib2 and.assoc)

lemma header_word_type [header_reads]:
  "header_word_of z c t f x y AND GC_TYPE_MASK = type_bits t"
  unfolding header_word_of_def
  by (cases z; cases c; cases t)
    (simp_all add: header_mask_defs imm_flag_defs bit.conj_disj_distrib2 and.assoc)

lemma header_word_flags [header_reads]:
  "header_word_of z c t f x y AND GC_HAS_FINALIZER_MASK = f AND Flag_HasFinalizer"
  "header_word_of z c t f x y AND GC_HAS_POINTERS_MASK = f AND Flag_HasPointers"
  "header_word_of z c t f x y AND GC_TRACEABLE_MASK = f AND Flag_Traceable"
  "header_word_of z c t f x y AND GC_IMMUTABLE_FLAGS_MASK
     = f AND (Flag_HasPointers OR Flag_HasFinalizer)"
  unfolding header_word_of_def
  by (cases z; cases c; cases t;
      simp add: header_mask_defs imm_flag_defs bit.conj_disj_distrib2 and.assoc)+

lemma header_word_unit [header_reads]:
  "header_word_of z c t f x y AND GC_UNIT_MASK = x AND 0x780000000000"
  unfolding header_word_of_def
  by (cases z; cases c; cases t)
    (simp_all add: header_mask_defs imm_flag_defs bit.conj_disj_distrib2 and.assoc)

lemma header_word_payload [header_reads]:
  "header_word_of z c t f x y AND GC_PAYLOAD_MASK = y AND GC_PAYLOAD_MASK"
  unfolding header_word_of_def
  by (cases z; cases c; cases t)
    (simp_all add: header_mask_defs imm_flag_defs bit.conj_disj_distrib2 and.assoc)

lemma header_word_unset [header_reads]:
  "header_word_of z c t f x y AND GC_CYCLIC_MUTABLE_MASK = 0"
  "header_word_of z c t f x y AND GC_VARIANT_FLAGS_MASK = 0"
  unfolding header_word_of_def
  by (cases z; cases c; cases t;
      simp add: header_mask_defs imm_flag_defs bit.conj_disj_distrib2 and.assoc)+

lemma zone_of_bits_zone_bits [simp]: "zone_of_bits (zone_bits z) = z"
  by (cases z) (simp_all add: zone_of_bits_def)

lemma type_of_bits_type_bits [simp]: "type_of_bits (type_bits t) = t"
  by (cases t) (simp_all add: type_of_bits_def)

lemma zone_bits_inject [simp]: "zone_bits a = zone_bits b \<longleftrightarrow> a = b"
  by (metis zone_of_bits_zone_bits)

lemma type_bits_inject [simp]: "type_bits a = type_bits b \<longleftrightarrow> a = b"
  by (metis type_of_bits_type_bits)

lemma cyclic_bits_zero [simp]: "cyclic_bits c = 0 \<longleftrightarrow> c \<noteq> Cyclic"
  by (cases c) simp_all

lemma make_header_word:
  assumes "syli_object_make_header z c t f sh p = Inr h" and "f AND imm_flags_mask = f"
  shows "h = header_word_of z c t f (push_bit 43 (ucast sh)) (ucast p)"
    and "sh \<le> 3" and "z \<noteq> Zone_Reserved2"
proof -
  from assms(1) have sh: "sh \<le> 3" and z: "z \<noteq> Zone_Reserved2"
    and h: "h = zone_bits z OR cyclic_bits c OR type_bits t OR f
             OR push_bit 43 (ucast (sh AND 0xF)) OR (ucast p AND GC_PAYLOAD_MASK)"
    by (auto simp: syli_object_make_header_def check_eq_Inr GC_UNIT_SHIFT_I64_def
        GC_UNIT_SHIFT_BITS_def)
  show "sh \<le> 3" "z \<noteq> Zone_Reserved2" by fact+
  show "h = header_word_of z c t f (push_bit 43 (ucast sh)) (ucast p)"
    using h assms(2) by (simp only: header_word_of_def unit_piece(1)[OF sh])
qed

lemma make_header_defined:
  "(\<exists>h. syli_object_make_header z c t f sh p = Inr h) \<longleftrightarrow> z \<noteq> Zone_Reserved2 \<and> sh \<le> 3"
  by (cases z) (auto simp: syli_object_make_header_def check_def GC_UNIT_SHIFT_I64_def)

lemma make_header_fields:
  assumes "syli_object_make_header z c t f sh p = Inr h" and "f AND imm_flags_mask = f"
  shows "syli_object_get_zone h = z" and "syli_object_type h = t"
    and "syli_object_unit_shift h = unat sh" and "syli_object_payload h = p"
proof -
  note h = make_header_word[OF assms]
  show "syli_object_get_zone h = z" "syli_object_type h = t"
    by (simp_all add: h(1) header_reads syli_object_get_zone_def syli_object_type_def)
  have "drop_bit GC_UNIT_SHIFT_BITS (h AND GC_UNIT_MASK) = ucast sh"
    unfolding h(1) header_reads GC_UNIT_SHIFT_BITS_def by (rule unit_piece(2)[OF h(2)])
  then show "syli_object_unit_shift h = unat sh"
    by (simp add: syli_object_unit_shift_def unat_ucast_up)
  show "syli_object_payload h = p"
    unfolding syli_object_payload_def h(1) header_reads
    by (simp add: GC_PAYLOAD_MASK_def ucast_payload)
qed

text \<open>C24: every field packed by \<open>syli_object_make_header\<close> is read back by its accessor:
  zone, cyclic flag, type, the three immutable flags one by one, unit shift and payload; the
  variant tag and the mutable-cyclic bit, which the constructor never sets, read as zero.
  \<open>syli_object_get_immutable_flags\<close> alone does not give back what was packed: its mask has
  two bits, so it drops \<open>Flag_Traceable\<close>.\<close>

theorem make_header_roundtrip:
  assumes "syli_object_make_header z c t f sh p = Inr h" and "f AND imm_flags_mask = f"
  shows "syli_object_get_zone h = z
    \<and> syli_object_is_cyclic h = (c = Cyclic)
    \<and> syli_object_type h = t
    \<and> syli_object_has_finalizer h = (f AND Flag_HasFinalizer \<noteq> 0)
    \<and> syli_object_has_pointers h = (f AND Flag_HasPointers \<noteq> 0)
    \<and> syli_object_is_traceable h = (f AND Flag_Traceable \<noteq> 0)
    \<and> syli_object_unit_shift h = unat sh
    \<and> syli_object_payload h = p
    \<and> syli_object_get_variant_tag h = 0
    \<and> \<not> syli_object_is_cyclic_mutable h
    \<and> syli_object_get_immutable_flags h = f AND NOT Flag_Traceable"
proof -
  have "f AND NOT Flag_Traceable = f AND (imm_flags_mask AND NOT Flag_Traceable)"
    using assms(2) by (metis and.assoc)
  also have "imm_flags_mask AND NOT Flag_Traceable = Flag_HasPointers OR Flag_HasFinalizer"
    by (simp add: imm_flag_defs)
  finally show ?thesis
    using make_header_fields [OF assms]
    by (simp add: make_header_word(1) [OF assms] header_reads syli_object_is_cyclic_def
        syli_object_has_finalizer_def syli_object_has_pointers_def
        syli_object_is_traceable_def syli_object_get_variant_tag_def
        syli_object_is_cyclic_mutable_def syli_object_get_immutable_flags_def)
qed

theorem make_header_roundtrip_witness:
  "\<exists>h. syli_object_make_header Zone_GcLocal Cyclic Type_MixedBitmap Flag_HasPointers 3 0x22 = Inr h
     \<and> syli_object_get_zone h = Zone_GcLocal \<and> syli_object_payload h = 0x22
     \<and> syli_object_unit_shift h = 3 \<and> syli_object_has_pointers h"
proof -
  obtain h where h: "syli_object_make_header Zone_GcLocal Cyclic Type_MixedBitmap
      Flag_HasPointers 3 0x22 = Inr h"
    using make_header_defined by force
  have "Flag_HasPointers AND imm_flags_mask = Flag_HasPointers" by (simp add: imm_flag_defs)
  from make_header_roundtrip[OF h this] h show ?thesis by (simp add: imm_flag_defs)
qed

section \<open>Payloads and lengths\<close>

text \<open>Any two type bits are one of the four types, so the type predicates and the type
  field say the same.\<close>

lemma type_field_cases: "type_bits (type_of_bits (h AND GC_TYPE_MASK)) = h AND GC_TYPE_MASK"
proof -
  have "h AND GC_TYPE_MASK = push_bit 59 (take_bit 2 (drop_bit 59 h))"
    by (simp add: GC_TYPE_MASK_def mask_eq_exp_minus_1 flip: and_push_mask)
  moreover have "take_bit 2 (drop_bit 59 h) \<in> {0, 1, 2, 3}"
    using unat_take_bit_less [of 2 "drop_bit 59 h"] by (intro unat_less_4_cases) simp_all
  ultimately show ?thesis by (auto simp: type_of_bits_def)
qed

lemma type_predicates:
  "syli_object_is_mono_imm h \<longleftrightarrow> syli_object_type h = Type_MonoImm"
  "syli_object_is_mono_ref h \<longleftrightarrow> syli_object_type h = Type_MonoRef"
  "syli_object_is_mixed_order h \<longleftrightarrow> syli_object_type h = Type_MixedOrder"
  "syli_object_is_mixed_bitmap h \<longleftrightarrow> syli_object_type h = Type_MixedBitmap"
  unfolding syli_object_is_mono_imm_def syli_object_is_mono_ref_def syli_object_type_def
    syli_object_is_mixed_order_def syli_object_is_mixed_bitmap_def
  by (metis type_field_cases type_bits_inject)+

lemma zone_field_cases: "zone_bits (zone_of_bits (h AND GC_ZONE_MASK)) = h AND GC_ZONE_MASK"
proof -
  have "h AND GC_ZONE_MASK = push_bit 62 (take_bit 2 (drop_bit 62 h))"
    by (simp add: GC_ZONE_MASK_def mask_eq_exp_minus_1 flip: and_push_mask)
  moreover have "take_bit 2 (drop_bit 62 h) \<in> {0, 1, 2, 3}"
    using unat_take_bit_less [of 2 "drop_bit 62 h"] by (intro unat_less_4_cases) simp_all
  ultimately show ?thesis by (auto simp: zone_of_bits_def)
qed

lemma zone_predicates:
  "syli_object_is_local h \<longleftrightarrow> syli_object_get_zone h = Zone_GcLocal"
  "syli_object_is_shared h \<longleftrightarrow> syli_object_get_zone h = Zone_GcShared"
  unfolding syli_object_is_local_def syli_object_is_shared_def syli_object_get_zone_def
  by (metis zone_field_cases zone_bits_inject)+

text \<open>The generic length never fails an assertion: the switch dispatches on the type
  the callee asserts. Its value is below \<open>2 ^ 32\<close>.\<close>

lemma payload_lt: "unat (ucast (syli_object_payload h) :: u64) < 2 ^ 32"
  using unat_word_bound [of "syli_object_payload h"] by (simp add: unat_ucast_up)

lemma order_counts:
  fixes w :: u64
  shows "unat (w AND 0xFFFF) < 2 ^ 16"
    and "unat (drop_bit 16 (w AND push_bit 16 0xFFFF)) < 2 ^ 16"
proof -
  show "unat (w AND 0xFFFF) < 2 ^ 16" using and_le_unat [of w "0xFFFF"] by simp
  have "push_bit 16 (0xFFFF :: u64) = push_bit 16 (mask 16)" by (simp add: mask_eq_exp_minus_1)
  then show "unat (drop_bit 16 (w AND push_bit 16 0xFFFF)) < 2 ^ 16"
    by (simp only: drop_and_push_mask unat_take_bit_less)
qed

lemma order_length_bound:
  fixes w :: u64
  shows "unat ((w AND 0xFFFF) + drop_bit 16 (w AND push_bit 16 0xFFFF)) < 2 ^ 32"
proof -
  have "unat (w AND 0xFFFF) + unat (drop_bit 16 (w AND push_bit 16 0xFFFF)) < 2 ^ 17"
    using order_counts [of w] by simp
  also have "(2 :: nat) ^ 17 < 2 ^ 32" by simp
  finally show ?thesis by (simp add: unat_word_ariths)
qed

lemma syli_object_length_total:
  obtains n where "syli_object_length h = Inr n" and "unat n < 2 ^ 32"
proof -
  have "\<exists>n. syli_object_length h = Inr n \<and> unat n < 2 ^ 32"
  proof (cases "syli_object_type h")
    case Type_MixedOrder
    then show ?thesis
      using order_length_bound [of "ucast (syli_object_payload h)"]
      by (simp add: syli_object_length_def syli_object_order_length_def type_predicates Let_def
          GC_ORDER_PTR_COUNT_MASK_def GC_ORDER_IMM_COUNT_MASK_def GC_ORDER_IMM_COUNT_SHIFT_def
          flip: syli_object_type_def)
  next
    case Type_MixedBitmap
    have "unat (syli_object_payload h AND 0x1F) \<le> 31"
      using and_le_unat [of "syli_object_payload h" "0x1F"] by simp
    with Type_MixedBitmap show ?thesis
      by (simp add: syli_object_length_def syli_object_bitmap_length_def type_predicates
          GC_BITMAP_LENGTH_MASK_def unat_ucast_up flip: syli_object_type_def)
  qed (use payload_lt [of h] in \<open>simp_all add: syli_object_length_def syli_object_mono_length_def
        syli_object_is_mono_def type_predicates flip: syli_object_type_def\<close>)
  then show ?thesis using that by blast
qed

text \<open>The three payload layouts decode to what they were built from.\<close>

lemma order_payload_fields:
  assumes "syli_object_make_order_payload pc ic = Inr p"
  shows "ucast p AND (0xFFFF :: u64) = pc"
    and "drop_bit 16 (ucast p AND (push_bit 16 0xFFFF :: u64)) = ic"
proof -
  from assms have pc: "unat pc < 2 ^ 16" and ic: "unat ic < 2 ^ 16"
    and p: "p = ucast (pc OR push_bit 16 ic)"
    by (auto simp: syli_object_make_order_payload_def check_eq_Inr word_less_nat_alt
        GC_ORDER_PTR_COUNT_SHIFT_def GC_ORDER_IMM_COUNT_SHIFT_def)
  note b = bit_bound [OF pc] bit_bound [OF ic]
  have m: "(0xFFFF :: u64) = mask 16" by (simp add: mask_eq_exp_minus_1)
  have "ucast p AND (mask 16 :: u64) = pc"
    unfolding p by (rule bit_word_eqI) (auto simp: bit_simps dest: b)
  with m show "ucast p AND (0xFFFF :: u64) = pc" by simp
  have "drop_bit 16 (ucast p AND (push_bit 16 (mask 16) :: u64)) = ic"
    unfolding p by (rule bit_word_eqI) (auto simp: bit_simps dest: b)
  with m show "drop_bit 16 (ucast p AND (push_bit 16 0xFFFF :: u64)) = ic" by (simp only:)
qed

lemma bitmap_payload_fields:
  assumes "syli_object_make_bitmap_payload n bm = Inr p"
  shows "p AND 0x1F = ucast n" and "drop_bit 5 p = bm"
proof -
  from assms have n: "unat n < 2 ^ 5" and bm: "unat bm < 2 ^ 27"
    and p: "p = ucast n OR push_bit 5 bm"
    by (auto simp: syli_object_make_bitmap_payload_def check_eq_Inr word_less_nat_alt
        GC_BITMAP_BITS_SHIFT_def)
  note b = bit_bound [OF n] bit_bound [OF bm]
  have m: "(0x1F :: u32) = mask 5" by (simp add: mask_eq_exp_minus_1)
  have "p AND mask 5 = ucast n"
    unfolding p by (rule bit_word_eqI) (auto simp: bit_simps dest: b)
  with m show "p AND 0x1F = ucast n" by simp
  show "drop_bit 5 p = bm"
    unfolding p by (rule bit_word_eqI) (auto simp: bit_simps dest: b)
qed

text \<open>C25: payload round trips: a mixed-order header built from a pointer count and an
  immediate count returns both counts and their sum as length; a mixed-bitmap header
  returns its length and its bitmap; a mono header returns its length.\<close>

theorem payload_roundtrip:
  assumes "f AND imm_flags_mask = f"
    and "syli_object_make_order_payload pc ic = Inr po"
    and "syli_object_make_header z c Type_MixedOrder f sh po = Inr ho"
    and "syli_object_make_bitmap_payload n bm = Inr pb"
    and "syli_object_make_header z c Type_MixedBitmap f sh pb = Inr hb"
    and "syli_object_make_mono_payload len = Inr pm"
    and "syli_object_make_header z c Type_MonoRef f sh pm = Inr hm"
  shows "syli_object_order_ptr_count ho = Inr pc \<and> syli_object_order_imm_count ho = Inr ic
       \<and> syli_object_length ho = Inr (pc + ic)
       \<and> syli_object_bitmap_length hb = Inr (ucast n) \<and> syli_object_bitmap_bits hb = Inr bm
       \<and> syli_object_length hb = Inr (ucast n)
       \<and> syli_object_mono_length hm = Inr len \<and> syli_object_length hm = Inr len"
proof -
  have o: "syli_object_type ho = Type_MixedOrder" "syli_object_payload ho = po"
    using make_header_fields [OF assms(3,1)] by simp_all
  have b: "syli_object_type hb = Type_MixedBitmap" "syli_object_payload hb = pb"
    using make_header_fields [OF assms(5,1)] by simp_all
  have m: "syli_object_type hm = Type_MonoRef" "syli_object_payload hm = pm"
    using make_header_fields [OF assms(7,1)] by simp_all
  have len: "(ucast pm :: u64) = len"
  proof -
    from assms(6) have "unat len < 2 ^ 32" and pm: "pm = ucast len"
      by (auto simp: syli_object_make_mono_payload_def check_eq_Inr word_less_nat_alt)
    from bit_bound [OF this(1)] show ?thesis
      unfolding pm by (intro bit_word_eqI) (auto simp: bit_simps)
  qed
  have n: "(ucast (ucast n :: u32) :: u64) = ucast n"
    by (rule bit_word_eqI) (auto simp: bit_simps dest: bit_imp_le_length)
  show ?thesis
    using o b m order_payload_fields [OF assms(2)] bitmap_payload_fields [OF assms(4)]
    by (simp add: syli_object_order_ptr_count_def syli_object_order_imm_count_def
        syli_object_order_length_def syli_object_bitmap_length_def syli_object_bitmap_bits_def
        syli_object_mono_length_def syli_object_is_mono_def type_predicates
        syli_object_length_def GC_ORDER_PTR_COUNT_MASK_def GC_ORDER_IMM_COUNT_MASK_def
        GC_ORDER_IMM_COUNT_SHIFT_def GC_BITMAP_LENGTH_MASK_def GC_BITMAP_BITS_SHIFT_def
        len n Let_def del: push_bit_numeral flip: syli_object_type_def)
qed

theorem payload_roundtrip_witness:
  "\<exists>po ho pb hb pm hm.
     syli_object_make_order_payload 3 2 = Inr po
   \<and> syli_object_make_header Zone_GcLocal Acyclic Type_MixedOrder Flag_HasPointers 3 po = Inr ho
   \<and> syli_object_make_bitmap_payload 10 0x1FF = Inr pb
   \<and> syli_object_make_header Zone_GcLocal Acyclic Type_MixedBitmap Flag_HasPointers 3 pb = Inr hb
   \<and> syli_object_make_mono_payload 7 = Inr pm
   \<and> syli_object_make_header Zone_GcLocal Acyclic Type_MonoRef Flag_HasPointers 3 pm = Inr hm
   \<and> syli_object_length ho = Inr 5 \<and> syli_object_bitmap_bits hb = Inr 0x1FF
   \<and> syli_object_length hm = Inr 7"
proof -
  have f: "Flag_HasPointers AND imm_flags_mask = Flag_HasPointers" by (simp add: imm_flag_defs)
  have o: "syli_object_make_order_payload 3 2 = Inr 0x20003"
    by (simp add: syli_object_make_order_payload_def GC_ORDER_PTR_COUNT_SHIFT_def
        GC_ORDER_IMM_COUNT_SHIFT_def)
  have b: "syli_object_make_bitmap_payload 10 0x1FF = Inr 0x3FEA"
    by (simp add: syli_object_make_bitmap_payload_def GC_BITMAP_BITS_SHIFT_def)
  have m: "syli_object_make_mono_payload 7 = Inr 7"
    by (simp add: syli_object_make_mono_payload_def)
  obtain ho hb hm where
    ho: "syli_object_make_header Zone_GcLocal Acyclic Type_MixedOrder Flag_HasPointers 3 0x20003 = Inr ho"
    and hb: "syli_object_make_header Zone_GcLocal Acyclic Type_MixedBitmap Flag_HasPointers 3 0x3FEA = Inr hb"
    and hm: "syli_object_make_header Zone_GcLocal Acyclic Type_MonoRef Flag_HasPointers 3 7 = Inr hm"
    using make_header_defined by (metis ObjectZone.distinct(5) order_refl)
  from payload_roundtrip [OF f o ho b hb m hm] o b m ho hb hm show ?thesis by simp
qed

end
