(* ===== verification/Object.thy ===== *)
theory Object
  imports HeaderObject
begin

text \<open>
  Objects in memory, from \<open>runtime/include/syli/object.h\<close>: the ownership tags in the two
  low bits of an object pointer, the meta word (mark bit, seven flags, 56-bit reference
  count), reference counting, allocation and the candidate-index cell.

  Memory is a map from addresses to blocks: an object is allocated at an address when
  the map is defined there. The variable part \<open>value[]\<close> is the list of the 64-bit cells that
  fit in the block, so an access past it is \<open>OutOfBounds\<close>, one to an address with no block is
  \<open>InvalidAccess\<close> (use after free, double free) and one to address 0 is \<open>NullPointer\<close>.
  The atomic operations on shared objects are modelled by their sequential effect: the
  runtime is single-threaded so far (\<open>PLAN.md\<close>), where the compare-exchange loops
  succeed at the value they loaded.
\<close>

section \<open>Tagged pointers\<close>

type_synonym obj_ptr = u64

definition OWN_REF_TAG :: u64 where "OWN_REF_TAG = 1"
definition ALWAYS_BORROW_TAG :: u64 where "ALWAYS_BORROW_TAG = push_bit 1 1"
definition IMMEDIATE_TAG :: u64 where "IMMEDIATE_TAG = 3"
definition OWN_TAG_MASK :: u64 where "OWN_TAG_MASK = OWN_REF_TAG OR ALWAYS_BORROW_TAG"

lemmas tag_defs = OWN_REF_TAG_def ALWAYS_BORROW_TAG_def IMMEDIATE_TAG_def OWN_TAG_MASK_def

definition syli_ownership_untag :: "obj_ptr \<Rightarrow> obj_ptr" where
  "syli_ownership_untag ptr = ptr AND NOT OWN_TAG_MASK"

definition syli_object_of_obj_ptr :: "obj_ptr \<Rightarrow> u64" where
  "syli_object_of_obj_ptr ptr = syli_ownership_untag ptr"

definition syli_ownership_is_own_ref :: "obj_ptr \<Rightarrow> bool" where
  "syli_ownership_is_own_ref ptr \<longleftrightarrow> ptr AND OWN_TAG_MASK = OWN_REF_TAG"

definition syli_ownership_is_always_borrow :: "obj_ptr \<Rightarrow> bool" where
  "syli_ownership_is_always_borrow ptr \<longleftrightarrow> ptr AND OWN_TAG_MASK = ALWAYS_BORROW_TAG"

definition syli_ownership_is_immediate :: "obj_ptr \<Rightarrow> bool" where
  "syli_ownership_is_immediate ptr \<longleftrightarrow> ptr AND OWN_TAG_MASK = IMMEDIATE_TAG"

definition syli_ownership_set_own :: "obj_ptr \<Rightarrow> obj_ptr" where
  "syli_ownership_set_own ptr = ptr OR OWN_REF_TAG"

text \<open>An object address: 8-byte aligned, so that both tag bits are free. Only the two
  low bits matter here.\<close>

definition untagged :: "u64 \<Rightarrow> bool" where
  "untagged p \<longleftrightarrow> p AND OWN_TAG_MASK = 0"

section \<open>Objects, the heap and the meta word\<close>

record gc_object =
  header_word :: u64
  meta_ref_count :: u64
  obj_value :: "u64 list"

type_synonym heap = "u64 \<rightharpoonup> gc_object"

definition INITIAL_REFCOUNT :: u64 where "INITIAL_REFCOUNT = 1"
definition REFCOUNT_MASK :: u64 where "REFCOUNT_MASK = 0x00FFFFFFFFFFFFFF"
definition MASK_MARKING_BIT :: u64 where "MASK_MARKING_BIT = push_bit 63 1"
definition META_FLAGS_MASK :: u64 where "META_FLAGS_MASK = 0x7F00000000000000"

definition Meta_Flags_None :: u64 where "Meta_Flags_None = 0"
definition Meta_Flags_Cyclic_Candidate :: u64 where "Meta_Flags_Cyclic_Candidate = push_bit 56 1"
definition Meta_Flags_Tracing :: u64 where "Meta_Flags_Tracing = push_bit (56 + 2) 1"
definition Meta_Flags_Waiting_Remove :: u64 where "Meta_Flags_Waiting_Remove = push_bit (56 + 3) 1"
definition Meta_Flags_Children_Released :: u64 where
  "Meta_Flags_Children_Released = push_bit (56 + 4) 1"

definition deref :: "u64 \<Rightarrow> heap \<Rightarrow> gc_object result" where
  "deref p h = (if p = 0 then Inl NullPointer
     else case h p of None \<Rightarrow> Inl InvalidAccess | Some x \<Rightarrow> Inr x)"

definition write_meta :: "u64 \<Rightarrow> u64 \<Rightarrow> heap \<Rightarrow> heap result" where
  "write_meta p m h = and_then (deref p h) (\<lambda>x. Inr (h(p \<mapsto> x\<lparr>meta_ref_count := m\<rparr>)))"

definition read_field :: "u64 \<Rightarrow> nat \<Rightarrow> heap \<Rightarrow> u64 result" where
  "read_field p i h = and_then (deref p h) (\<lambda>x.
     if i < length (obj_value x) then Inr (obj_value x ! i) else Inl OutOfBounds)"

definition write_field :: "u64 \<Rightarrow> nat \<Rightarrow> u64 \<Rightarrow> heap \<Rightarrow> heap result" where
  "write_field p i v h = and_then (deref p h) (\<lambda>x.
     if i < length (obj_value x) then Inr (h(p \<mapsto> x\<lparr>obj_value := (obj_value x)[i := v]\<rparr>))
     else Inl OutOfBounds)"

definition free_block :: "u64 \<Rightarrow> heap \<Rightarrow> heap result" where
  "free_block p h = (if p = 0 then Inr h
     else if h p = None then Inl InvalidAccess else Inr (h(p := None)))"

definition syli_free_ptr :: "obj_ptr \<Rightarrow> heap \<Rightarrow> heap result" where
  "syli_free_ptr ptr h = free_block (syli_ownership_untag ptr) h"

definition make_meta_refcount :: "u64 \<Rightarrow> u64 \<Rightarrow> u64 result" where
  "make_meta_refcount current_state_bit_mark flags =
     check (flags AND NOT META_FLAGS_MASK = 0)
       (Inr (current_state_bit_mark OR flags OR INITIAL_REFCOUNT))"

section \<open>Mark bit and flags\<close>

definition syli_object_mark_tag_shift :: "u64 \<Rightarrow> heap \<Rightarrow> u64 result" where
  "syli_object_mark_tag_shift p h =
     check (p \<noteq> 0) (and_then (deref p h) (\<lambda>x.
       case syli_object_get_zone (header_word x) of
         Zone_GcLocal \<Rightarrow> Inr (meta_ref_count x AND MASK_MARKING_BIT)
       | Zone_GcShared \<Rightarrow> Inr (meta_ref_count x AND MASK_MARKING_BIT)
       | _ \<Rightarrow> Inr 0))"

definition syli_object_set_flags :: "u64 \<Rightarrow> u64 \<Rightarrow> heap \<Rightarrow> heap result" where
  "syli_object_set_flags p flags h =
     check (p \<noteq> 0) (and_then (deref p h) (\<lambda>x.
       case syli_object_get_zone (header_word x) of
         Zone_GcLocal \<Rightarrow> write_meta p (meta_ref_count x OR flags) h
       | Zone_GcShared \<Rightarrow> write_meta p (meta_ref_count x OR flags) h
       | _ \<Rightarrow> Inr h))"

definition syli_object_has_flags :: "u64 \<Rightarrow> u64 \<Rightarrow> heap \<Rightarrow> bool result" where
  "syli_object_has_flags p flags h =
     check (p \<noteq> 0) (and_then (deref p h) (\<lambda>x.
       case syli_object_get_zone (header_word x) of
         Zone_GcLocal \<Rightarrow> Inr (meta_ref_count x AND flags = flags)
       | Zone_GcShared \<Rightarrow> Inr (meta_ref_count x AND flags = flags)
       | _ \<Rightarrow> Inr False))"

definition syli_object_clear_flags :: "u64 \<Rightarrow> u64 \<Rightarrow> heap \<Rightarrow> heap result" where
  "syli_object_clear_flags p flags h =
     check (p \<noteq> 0) (and_then (deref p h) (\<lambda>x.
       case syli_object_get_zone (header_word x) of
         Zone_GcLocal \<Rightarrow> write_meta p (meta_ref_count x AND NOT flags) h
       | Zone_GcShared \<Rightarrow> write_meta p (meta_ref_count x AND NOT flags) h
       | _ \<Rightarrow> Inr h))"

section \<open>Reference counting\<close>

definition syli_object_refcount :: "u64 \<Rightarrow> heap \<Rightarrow> u64 result" where
  "syli_object_refcount p h =
     check (p \<noteq> 0) (and_then (deref p h) (\<lambda>x.
       case syli_object_get_zone (header_word x) of
         Zone_GcLocal \<Rightarrow> Inr (meta_ref_count x AND REFCOUNT_MASK)
       | Zone_GcShared \<Rightarrow> Inr (meta_ref_count x AND REFCOUNT_MASK)
       | _ \<Rightarrow> Inr 0))"

definition syli_object_incr_local :: "u64 \<Rightarrow> heap \<Rightarrow> heap result" where
  "syli_object_incr_local p h =
     check (p \<noteq> 0) (and_then (deref p h) (\<lambda>x. write_meta p (meta_ref_count x + 1) h))"

definition syli_object_decr_local_n :: "u64 \<Rightarrow> u64 \<Rightarrow> heap \<Rightarrow> heap result" where
  "syli_object_decr_local_n p n h =
     check (p \<noteq> 0) (and_then (deref p h) (\<lambda>x.
       check (n \<le> meta_ref_count x AND REFCOUNT_MASK)
         (write_meta p (meta_ref_count x - n) h)))"

definition syli_object_decr_local :: "u64 \<Rightarrow> heap \<Rightarrow> heap result" where
  "syli_object_decr_local p h =
     check (p \<noteq> 0) (and_then (deref p h) (\<lambda>x.
       check (0 < meta_ref_count x AND REFCOUNT_MASK)
         (write_meta p (meta_ref_count x - 1) h)))"

definition syli_object_incr_shared :: "u64 \<Rightarrow> heap \<Rightarrow> heap result" where
  "syli_object_incr_shared p h =
     check (p \<noteq> 0) (and_then (deref p h) (\<lambda>x. write_meta p (meta_ref_count x + 1) h))"

definition syli_object_decr_shared :: "u64 \<Rightarrow> heap \<Rightarrow> heap result" where
  "syli_object_decr_shared p h =
     check (p \<noteq> 0) (and_then (deref p h) (\<lambda>x.
       check (0 < meta_ref_count x AND REFCOUNT_MASK)
         (write_meta p (meta_ref_count x - 1) h)))"

definition syli_object_decr_shared_n :: "u64 \<Rightarrow> u64 \<Rightarrow> heap \<Rightarrow> heap result" where
  "syli_object_decr_shared_n p n h =
     check (p \<noteq> 0) (and_then (deref p h) (\<lambda>x.
       check (n \<le> meta_ref_count x AND REFCOUNT_MASK)
         (write_meta p (meta_ref_count x - n) h)))"

definition syli_object_incr :: "u64 \<Rightarrow> heap \<Rightarrow> heap result" where
  "syli_object_incr p h =
     check (p \<noteq> 0) (and_then (deref p h) (\<lambda>x.
       case syli_object_get_zone (header_word x) of
         Zone_GcLocal \<Rightarrow> syli_object_incr_local p h
       | Zone_GcShared \<Rightarrow> syli_object_incr_shared p h
       | _ \<Rightarrow> Inr h))"

definition syli_object_decr :: "u64 \<Rightarrow> heap \<Rightarrow> heap result" where
  "syli_object_decr p h =
     check (p \<noteq> 0) (and_then (deref p h) (\<lambda>x.
       case syli_object_get_zone (header_word x) of
         Zone_GcLocal \<Rightarrow> syli_object_decr_local p h
       | Zone_GcShared \<Rightarrow> syli_object_decr_shared p h
       | _ \<Rightarrow> Inr h))"

definition syli_object_decr_n :: "u64 \<Rightarrow> u64 \<Rightarrow> heap \<Rightarrow> heap result" where
  "syli_object_decr_n p n h =
     check (p \<noteq> 0) (and_then (deref p h) (\<lambda>x.
       case syli_object_get_zone (header_word x) of
         Zone_GcLocal \<Rightarrow> syli_object_decr_local_n p n h
       | Zone_GcShared \<Rightarrow> syli_object_decr_shared_n p n h
       | _ \<Rightarrow> Inr h))"

section \<open>Object creation and the candidate index\<close>

text \<open>
  \<open>malloc_ptr\<close> is the address \<open>malloc\<close> returns and \<open>junk\<close> the contents of the new
  block. The code does not test the address, so a null one is dereferenced.
\<close>

definition object_block_bytes :: "u64 \<Rightarrow> u64 \<Rightarrow> u64" where
  "object_block_bytes header len =
     (let extra_words = (if header AND GC_CYCLIC_MUTABLE_MASK \<noteq> 0 then 1 else 0);
          unit_shift = unat (drop_bit GC_UNIT_SHIFT_BITS (header AND GC_UNIT_MASK));
          data_bytes = push_bit unit_shift len
      in 16 + data_bytes + extra_words * 8)"

definition syli_object_alloc ::
    "u64 \<Rightarrow> (nat \<Rightarrow> u64) \<Rightarrow> u64 \<Rightarrow> u64 \<Rightarrow> u64 \<Rightarrow> heap \<Rightarrow> (u64 \<times> heap) result" where
  "syli_object_alloc malloc_ptr junk header meta len h =
     (let bytes = unat (object_block_bytes header len) in
      if malloc_ptr = 0 then Inl NullPointer
      else if bytes < 16 then Inl OutOfBounds
      else Inr (malloc_ptr,
        h(malloc_ptr \<mapsto> \<lparr>header_word = header, meta_ref_count = meta,
                        obj_value = map junk [0..<(bytes - 16) div 8]\<rparr>)))"

definition syli_object_data :: "u64 \<Rightarrow> heap \<Rightarrow> u64 list option result" where
  "syli_object_data p h =
     check (p \<noteq> 0) (and_then (deref p h) (\<lambda>x.
       case syli_object_get_zone (header_word x) of
         Zone_Static \<Rightarrow> Inr (Some (obj_value x))
       | Zone_GcLocal \<Rightarrow> Inr (Some (obj_value x))
       | Zone_GcShared \<Rightarrow> Inr (Some (obj_value x))
       | _ \<Rightarrow> Inr None))"

definition syli_object_set_candidate_index :: "u64 \<Rightarrow> u64 \<Rightarrow> heap \<Rightarrow> heap result" where
  "syli_object_set_candidate_index p index h =
     check (p \<noteq> 0) (and_then (deref p h) (\<lambda>x.
     check (syli_object_is_cyclic_mutable (header_word x))
       (case syli_object_get_zone (header_word x) of
          Zone_GcLocal \<Rightarrow> and_then (syli_object_length (header_word x)) (\<lambda>len.
             write_field p (unat len) index h)
        | Zone_GcShared \<Rightarrow> and_then (syli_object_length (header_word x)) (\<lambda>len.
             write_field p (unat len) index h)
        | _ \<Rightarrow> Inr h)))"

definition syli_object_get_candidate_index :: "u64 \<Rightarrow> heap \<Rightarrow> u64 result" where
  "syli_object_get_candidate_index p h =
     check (p \<noteq> 0) (and_then (deref p h) (\<lambda>x.
     check (syli_object_is_cyclic_mutable (header_word x))
       (case syli_object_get_zone (header_word x) of
          Zone_GcLocal \<Rightarrow> and_then (syli_object_length (header_word x)) (\<lambda>len.
             read_field p (unat len) h)
        | Zone_GcShared \<Rightarrow> and_then (syli_object_length (header_word x)) (\<lambda>len.
             read_field p (unat len) h)
        | _ \<Rightarrow> Inr 0)))"

section \<open>Pointer tags\<close>

lemma own_tag_mask: "OWN_TAG_MASK = 3"
  by (simp add: tag_defs)

lemma untag_untagged [simp]: "untagged (syli_ownership_untag p)"
  by (simp add: untagged_def syli_ownership_untag_def and.assoc)

lemma untag_id: "untagged p \<Longrightarrow> syli_ownership_untag p = p"
proof -
  assume "untagged p"
  moreover have "p = (p AND OWN_TAG_MASK) OR (p AND NOT OWN_TAG_MASK)"
    by (rule bit_word_eqI) (auto simp: bit_simps)
  ultimately show ?thesis by (simp add: untagged_def syli_ownership_untag_def)
qed

lemma untag_set_own: "untagged p \<Longrightarrow> syli_ownership_untag (syli_ownership_set_own p) = p"
  using untag_id [of p]
  by (simp add: syli_ownership_untag_def syli_ownership_set_own_def tag_defs
      bit.conj_disj_distrib2)

lemma is_own_set_own: "untagged p \<Longrightarrow> syli_ownership_is_own_ref (syli_ownership_set_own p)"
  by (simp add: untagged_def syli_ownership_is_own_ref_def syli_ownership_set_own_def tag_defs
      bit.conj_disj_distrib2)

lemma set_own_own: "syli_ownership_is_own_ref p \<Longrightarrow> syli_ownership_set_own p = p"
proof -
  assume own: "syli_ownership_is_own_ref p"
  have "p = (p AND 3) OR (p AND NOT 3)"
    by (rule bit_word_eqI) (auto simp: bit_simps)
  with own have p: "p = 1 OR (p AND NOT 3)"
    by (simp add: syli_ownership_is_own_ref_def tag_defs)
  then have "p OR 1 = p" by (metis or.commute or.left_idem)
  then show ?thesis by (simp add: syli_ownership_set_own_def tag_defs)
qed

lemma set_own_untag: "syli_ownership_is_own_ref p \<Longrightarrow>
  syli_ownership_set_own (syli_ownership_untag p) = p"
proof -
  assume own: "syli_ownership_is_own_ref p"
  have "p = (p AND 3) OR (p AND NOT 3)"
    by (rule bit_word_eqI) (auto simp: bit_simps)
  with own show ?thesis
    by (simp add: syli_ownership_is_own_ref_def syli_ownership_set_own_def
        syli_ownership_untag_def tag_defs or.commute)
qed

section \<open>The fields of the meta word\<close>

lemma refcount_mask: "REFCOUNT_MASK = mask 56"
  by (simp add: REFCOUNT_MASK_def mask_eq_exp_minus_1)

lemma and_refcount: "m AND REFCOUNT_MASK = take_bit 56 m"
  by (simp add: refcount_mask take_bit_eq_mask)

lemma unat_refcount: "unat (m AND REFCOUNT_MASK) = unat m mod 2 ^ 56"
  by (simp only: and_refcount unsigned_take_bit_eq take_bit_nat_def)

lemma bit_high: "56 \<le> k \<Longrightarrow> bit (m :: u64) k \<longleftrightarrow> odd (unat m div 2 ^ 56 div 2 ^ (k - 56))"
proof -
  assume k: "56 \<le> k"
  have "bit m k = bit (unat m) k" by (auto simp: bit_unsigned_iff dest: bit_imp_le_length)
  also have "(2 :: nat) ^ k = 2 ^ 56 * 2 ^ (k - 56)"
    using k by (simp only: flip: power_add) simp
  then have "bit (unat m) k = odd (unat m div (2 ^ 56 * 2 ^ (k - 56)))"
    by (simp only: bit_iff_odd)
  finally show ?thesis by (simp add: div_mult2_eq)
qed

lemma mod_div_minus:
  fixes n b k :: nat
  assumes "k \<le> n mod b" and "0 < b"
  shows "(n - k) mod b = n mod b - k" and "(n - k) div b = n div b"
proof -
  have n: "n - k = (n mod b - k) + (n div b) * b"
    using assms(1) mod_div_mult_eq [of n b] by linarith
  moreover have lt: "n mod b - k < b" using assms(2) by (meson less_imp_diff_less mod_less_divisor)
  ultimately show "(n - k) mod b = n mod b - k" by simp
  show "(n - k) div b = n div b" unfolding n using lt assms(2) by simp
qed

lemma mod_div_plus:
  fixes n b k :: nat
  assumes "n mod b + k < b"
  shows "(n + k) mod b = n mod b + k" and "(n + k) div b = n div b"
proof -
  have n: "n + k = (n mod b + k) + (n div b) * b"
    using mod_div_mult_eq [of n b] by linarith
  show "(n + k) mod b = n mod b + k" unfolding n by (simp only: mod_mult_self1 mod_less [OF assms])
  have b: "b \<noteq> 0" using assms by auto
  have "(n mod b + k + n div b * b) div b = n div b + (n mod b + k) div b"
    by (rule div_mult_self1 [OF b])
  then show "(n + k) div b = n div b" unfolding n using div_less [OF assms] by linarith
qed

lemma unat_minus_le: "(k :: 'a :: len word) \<le> m \<Longrightarrow> unat (m - k) = unat m - unat k"
  by (simp add: unat_sub)

text \<open>Subtracting no more than the count, or adding without passing its 56 bits, is
  arithmetic on the count and leaves every bit above it.\<close>

lemma meta_minus:
  fixes m n :: u64
  assumes "unat n \<le> unat (m AND REFCOUNT_MASK)"
  shows "unat ((m - n) AND REFCOUNT_MASK) = unat (m AND REFCOUNT_MASK) - unat n"
    and "56 \<le> k \<Longrightarrow> bit (m - n) k = bit m k"
proof -
  have le: "unat n \<le> unat m mod 2 ^ 56" using assms by (simp only: unat_refcount)
  then have "unat n \<le> unat m" by (meson le_trans mod_less_eq_dividend)
  then have m: "unat (m - n) = unat m - unat n"
    by (simp add: unat_minus_le word_le_nat_alt)
  show "unat ((m - n) AND REFCOUNT_MASK) = unat (m AND REFCOUNT_MASK) - unat n"
    unfolding unat_refcount m by (rule mod_div_minus(1) [OF le]) simp
  show "bit (m - n) k = bit m k" if "56 \<le> k"
    unfolding bit_high [OF that] m by (subst mod_div_minus(2) [OF le]) simp_all
qed

lemma meta_plus:
  fixes m n :: u64
  assumes "unat (m AND REFCOUNT_MASK) + unat n < 2 ^ 56"
  shows "unat ((m + n) AND REFCOUNT_MASK) = unat (m AND REFCOUNT_MASK) + unat n"
    and "56 \<le> k \<Longrightarrow> bit (m + n) k = bit m k"
proof -
  have lt: "unat m mod 2 ^ 56 + unat n < 2 ^ 56" using assms by (simp only: unat_refcount)
  have "unat m + unat n < 2 ^ 64"
  proof -
    have b: "(2 :: nat) ^ 56 = 72057594037927936" "(2 :: nat) ^ 64 = 18446744073709551616" by simp_all
    have "unat m < 18446744073709551616" using unat_word_bound [of m] by simp
    then have "unat m div 72057594037927936 \<le> 255" by simp
    moreover have "unat m = unat m div 72057594037927936 * 72057594037927936
        + unat m mod 72057594037927936" by simp
    ultimately show ?thesis using lt unfolding b by linarith
  qed
  then have m: "unat (m + n) = unat m + unat n" by (simp add: unat_word_ariths)
  show "unat ((m + n) AND REFCOUNT_MASK) = unat (m AND REFCOUNT_MASK) + unat n"
    unfolding unat_refcount m by (rule mod_div_plus(1) [OF lt])
  show "bit (m + n) k = bit m k" if "56 \<le> k"
    unfolding bit_high [OF that] m by (subst mod_div_plus(2) [OF lt]) simp
qed

text \<open>A one-bit field above the count: one flag, or the mark.\<close>

locale meta_bit =
  fixes k :: nat
  assumes above_count: "56 \<le> k" and in_word: "k < 64"
begin

lemma has_iff: "(m :: u64) AND push_bit k 1 = push_bit k 1 \<longleftrightarrow> bit m k"
proof
  assume "m AND push_bit k 1 = push_bit k 1"
  then have "bit (m AND push_bit k 1) k = bit (push_bit k 1 :: u64) k" by simp
  then show "bit m k" using in_word by (simp add: bit_simps)
next
  assume "bit m k"
  then show "m AND push_bit k 1 = push_bit k 1"
    by (intro bit_word_eqI) (auto simp: bit_simps bit_1_iff)
qed

lemma set_count: "((m :: u64) OR push_bit k 1) AND REFCOUNT_MASK = m AND REFCOUNT_MASK"
  using above_count by (intro bit_word_eqI) (auto simp: refcount_mask bit_simps bit_1_iff)

lemma clear_count: "((m :: u64) AND NOT (push_bit k 1)) AND REFCOUNT_MASK = m AND REFCOUNT_MASK"
  using above_count by (intro bit_word_eqI) (auto simp: refcount_mask bit_simps bit_1_iff)

lemma set_bit_iff: "bit ((m :: u64) OR push_bit k 1) j \<longleftrightarrow> j = k \<or> bit m j"
  using in_word by (auto simp: bit_simps bit_1_iff)

lemma clear_bit_iff: "bit ((m :: u64) AND NOT (push_bit k 1)) j \<longleftrightarrow> j \<noteq> k \<and> bit m j"
  by (auto simp: bit_simps bit_1_iff dest: bit_imp_le_length)

lemma plus_bit: "unat (m AND REFCOUNT_MASK) + unat n < 2 ^ 56 \<Longrightarrow> bit (m + n) k = bit m k"
  by (rule meta_plus(2) [OF _ above_count])

lemma minus_bit: "unat n \<le> unat (m AND REFCOUNT_MASK) \<Longrightarrow> bit (m - n) k = bit m k"
  by (rule meta_minus(2) [OF _ above_count])

end

interpretation candidate_bit: meta_bit 56 by unfold_locales simp_all
interpretation tracing_bit: meta_bit 58 by unfold_locales simp_all
interpretation waiting_bit: meta_bit 59 by unfold_locales simp_all
interpretation released_bit: meta_bit 60 by unfold_locales simp_all
interpretation mark_bit: meta_bit 63 by unfold_locales simp_all

section \<open>Objects as the collector sees them\<close>

text \<open>The reference count, the flags and the mark of an object, and its zone.\<close>

definition obj_rc :: "gc_object \<Rightarrow> nat" where
  "obj_rc x = unat (meta_ref_count x AND REFCOUNT_MASK)"

definition obj_flag :: "u64 \<Rightarrow> gc_object \<Rightarrow> bool" where
  "obj_flag f x \<longleftrightarrow> meta_ref_count x AND f = f"

definition obj_local :: "gc_object \<Rightarrow> bool" where
  "obj_local x \<longleftrightarrow> syli_object_get_zone (header_word x) = Zone_GcLocal"

definition is_meta_flag :: "u64 \<Rightarrow> bool" where
  "is_meta_flag f \<longleftrightarrow> f \<in> {Meta_Flags_Cyclic_Candidate, Meta_Flags_Tracing,
     Meta_Flags_Waiting_Remove, Meta_Flags_Children_Released}"

definition obj_marked :: "u64 \<Rightarrow> gc_object \<Rightarrow> bool" where
  "obj_marked bit_mark x \<longleftrightarrow> meta_ref_count x AND MASK_MARKING_BIT = bit_mark"

text \<open>Positions of the one-bit fields.\<close>

definition meta_bits :: "(u64 \<times> nat) set" where
  "meta_bits = {(Meta_Flags_Cyclic_Candidate, 56), (Meta_Flags_Tracing, 58),
     (Meta_Flags_Waiting_Remove, 59), (Meta_Flags_Children_Released, 60), (MASK_MARKING_BIT, 63)}"

lemma meta_bits_cases:
  assumes "(f, k) \<in> meta_bits"
  shows "f = push_bit k 1" and "56 \<le> k" and "k < 64"
  using assms by (auto simp: meta_bits_def Meta_Flags_Cyclic_Candidate_def Meta_Flags_Tracing_def
      Meta_Flags_Waiting_Remove_def Meta_Flags_Children_Released_def MASK_MARKING_BIT_def)

lemma meta_bits_meta_bit: "(f, k) \<in> meta_bits \<Longrightarrow> meta_bit k"
  using meta_bits_cases by unfold_locales simp_all

lemma meta_flag_bit: "is_meta_flag f \<Longrightarrow> \<exists>k. (f, k) \<in> meta_bits"
  by (auto simp: is_meta_flag_def meta_bits_def)

lemma mark_in_meta_bits: "(MASK_MARKING_BIT, 63) \<in> meta_bits"
  by (simp add: meta_bits_def)

lemma meta_bits_inj: "(f, j) \<in> meta_bits \<Longrightarrow> (g, k) \<in> meta_bits \<Longrightarrow> f = g \<longleftrightarrow> j = k"
  by (auto simp: meta_bits_def Meta_Flags_Cyclic_Candidate_def Meta_Flags_Tracing_def
      Meta_Flags_Waiting_Remove_def Meta_Flags_Children_Released_def MASK_MARKING_BIT_def)

lemma obj_flag_bit: "(f, k) \<in> meta_bits \<Longrightarrow> obj_flag f x \<longleftrightarrow> bit (meta_ref_count x) k"
  unfolding obj_flag_def
  using meta_bit.has_iff [OF meta_bits_meta_bit] meta_bits_cases(1) by metis

definition set_meta :: "u64 \<Rightarrow> gc_object \<Rightarrow> gc_object" where
  "set_meta m x = x\<lparr>meta_ref_count := m\<rparr>"

named_theorems obj_simps "reference count, flags and frame of an object after an update"

lemma set_meta_frame [simp, obj_simps]:
  "header_word (set_meta m x) = header_word x"
  "obj_value (set_meta m x) = obj_value x"
  "meta_ref_count (set_meta m x) = m"
  "obj_local (set_meta m x) = obj_local x"
  "set_meta m (set_meta m' x) = set_meta m x"
  by (simp_all add: set_meta_def obj_local_def)

lemma obj_rc_set_flag [obj_simps]:
  assumes "(f, k) \<in> meta_bits"
  shows "obj_rc (set_meta (meta_ref_count x OR f) x) = obj_rc x"
    and "obj_rc (set_meta (meta_ref_count x AND NOT f) x) = obj_rc x"
  using meta_bit.set_count [OF meta_bits_meta_bit [OF assms]]
    meta_bit.clear_count [OF meta_bits_meta_bit [OF assms]] meta_bits_cases(1) [OF assms]
  by (simp_all add: obj_rc_def)

lemma obj_flag_set_flag [obj_simps]:
  assumes "(f, j) \<in> meta_bits" and "(g, k) \<in> meta_bits"
  shows "obj_flag g (set_meta (meta_ref_count x OR f) x) \<longleftrightarrow> f = g \<or> obj_flag g x"
    and "obj_flag g (set_meta (meta_ref_count x AND NOT f) x) \<longleftrightarrow> f \<noteq> g \<and> obj_flag g x"
  using meta_bit.set_bit_iff [OF meta_bits_meta_bit [OF assms(1)]]
    meta_bit.clear_bit_iff [OF meta_bits_meta_bit [OF assms(1)]]
    meta_bits_cases(1) [OF assms(1)] meta_bits_inj [OF assms]
  by (auto simp: obj_flag_bit [OF assms(2)])

lemma obj_rc_minus [obj_simps]:
  "unat n \<le> obj_rc x \<Longrightarrow> obj_rc (set_meta (meta_ref_count x - n) x) = obj_rc x - unat n"
  by (simp add: obj_rc_def meta_minus(1))

lemma obj_rc_plus [obj_simps]:
  "obj_rc x + unat n < 2 ^ 56 \<Longrightarrow> obj_rc (set_meta (meta_ref_count x + n) x) = obj_rc x + unat n"
  by (simp add: obj_rc_def meta_plus(1))

lemma obj_flag_minus [obj_simps]:
  assumes "(f, k) \<in> meta_bits" and "unat n \<le> obj_rc x"
  shows "obj_flag f (set_meta (meta_ref_count x - n) x) \<longleftrightarrow> obj_flag f x"
  using meta_minus(2) [of n "meta_ref_count x" k] assms meta_bits_cases(2)
  by (simp add: obj_flag_bit obj_rc_def)

lemma obj_flag_plus [obj_simps]:
  assumes "(f, k) \<in> meta_bits" and "obj_rc x + unat n < 2 ^ 56"
  shows "obj_flag f (set_meta (meta_ref_count x + n) x) \<longleftrightarrow> obj_flag f x"
  using meta_plus(2) [of "meta_ref_count x" n k] assms meta_bits_cases(2)
  by (simp add: obj_flag_bit obj_rc_def)

text \<open>Pointer-level operations on an allocated local object.\<close>

lemma deref_live: "p \<noteq> 0 \<Longrightarrow> h p = Some x \<Longrightarrow> deref p h = Inr x"
  by (simp add: deref_def)

lemma deref_Inr: "deref p h = Inr x \<longleftrightarrow> p \<noteq> 0 \<and> h p = Some x"
  by (auto simp: deref_def split: option.splits)

lemma write_meta_live:
  "p \<noteq> 0 \<Longrightarrow> h p = Some x \<Longrightarrow> write_meta p m h = Inr (h(p \<mapsto> set_meta m x))"
  by (simp add: write_meta_def deref_def set_meta_def)

lemma object_ops_local:
  assumes "p \<noteq> 0" and "h p = Some x" and "obj_local x"
  shows "syli_object_set_flags p f h = Inr (h(p \<mapsto> set_meta (meta_ref_count x OR f) x))"
    and "syli_object_clear_flags p f h = Inr (h(p \<mapsto> set_meta (meta_ref_count x AND NOT f) x))"
    and "syli_object_has_flags p f h = Inr (obj_flag f x)"
    and "syli_object_refcount p h = Inr (meta_ref_count x AND REFCOUNT_MASK)"
    and "syli_object_incr_local p h = Inr (h(p \<mapsto> set_meta (meta_ref_count x + 1) x))"
    and "syli_object_decr_local p h =
           check (0 < obj_rc x) (Inr (h(p \<mapsto> set_meta (meta_ref_count x - 1) x)))"
    and "syli_object_decr_local_n p n h =
           check (unat n \<le> obj_rc x) (Inr (h(p \<mapsto> set_meta (meta_ref_count x - n) x)))"
    and "syli_object_incr p h = syli_object_incr_local p h"
    and "syli_object_decr p h = syli_object_decr_local p h"
    and "syli_object_decr_n p n h = syli_object_decr_local_n p n h"
  using assms
  by (simp_all add: syli_object_set_flags_def syli_object_clear_flags_def syli_object_has_flags_def
      syli_object_refcount_def syli_object_incr_local_def syli_object_decr_local_def
      syli_object_decr_local_n_def syli_object_incr_def syli_object_decr_def syli_object_decr_n_def
      obj_local_def deref_live write_meta_live obj_flag_def obj_rc_def unat_gt_0 word_gt_0
      word_le_nat_alt)

section \<open>Properties\<close>

text \<open>The four ownership states are exclusive and exhaustive, and the tag operations
  move between them as documented: on an untagged address, untag after set-own is the
  identity, set-own gives an owning reference, untag gives one that is neither owning,
  immortal nor immediate, and set-own of an owning reference changes nothing.\<close>

lemma ownership_tags:
  "(syli_ownership_is_own_ref q \<or> syli_ownership_is_always_borrow q
      \<or> syli_ownership_is_immediate q \<or> untagged q)
   \<and> \<not> (syli_ownership_is_own_ref q \<and> (syli_ownership_is_always_borrow q
      \<or> syli_ownership_is_immediate q \<or> untagged q))
   \<and> \<not> (syli_ownership_is_always_borrow q \<and> (syli_ownership_is_immediate q \<or> untagged q))
   \<and> \<not> (syli_ownership_is_immediate q \<and> untagged q)
   \<and> untagged (syli_ownership_untag q)
   \<and> syli_ownership_is_own_ref (syli_ownership_set_own (syli_ownership_untag q))
   \<and> syli_ownership_untag (syli_ownership_set_own (syli_ownership_untag q)) = syli_ownership_untag q
   \<and> (syli_ownership_is_own_ref q = (syli_ownership_set_own (syli_ownership_untag q) = q))"
proof -
  have "q AND OWN_TAG_MASK \<in> {0, 1, 2, 3}"
    using and_le_unat [of q OWN_TAG_MASK] by (intro unat_less_4_cases) (simp add: own_tag_mask)
  then have "syli_ownership_is_own_ref q \<or> syli_ownership_is_always_borrow q
      \<or> syli_ownership_is_immediate q \<or> untagged q"
    and "\<not> (syli_ownership_is_own_ref q \<and> (syli_ownership_is_always_borrow q
      \<or> syli_ownership_is_immediate q \<or> untagged q))"
    and "\<not> (syli_ownership_is_always_borrow q \<and> (syli_ownership_is_immediate q \<or> untagged q))"
    and "\<not> (syli_ownership_is_immediate q \<and> untagged q)"
    by (auto simp: syli_ownership_is_own_ref_def syli_ownership_is_always_borrow_def
        syli_ownership_is_immediate_def untagged_def tag_defs)
  moreover have own: "syli_ownership_is_own_ref (syli_ownership_set_own (syli_ownership_untag q))"
    by (rule is_own_set_own) simp
  moreover have "syli_ownership_untag (syli_ownership_set_own (syli_ownership_untag q))
      = syli_ownership_untag q" by (rule untag_set_own) simp
  moreover have "syli_ownership_is_own_ref q = (syli_ownership_set_own (syli_ownership_untag q) = q)"
    using set_own_untag [of q] own by auto
  ultimately show ?thesis by simp
qed

text \<open>C29: reference counting on an allocated local object is arithmetic on its 56-bit
  count: \<open>incr\<close> adds one while the count fits, \<open>decr\<close> and \<open>decr_n\<close> subtract when the
  count is large enough and fail their assertion otherwise; none of them disturbs the mark
  or a flag, and every other object is untouched.\<close>

theorem refcount_arithmetic:
  assumes "p \<noteq> 0" and "h p = Some x" and "obj_local x"
  shows "(obj_rc x + 1 < 2 ^ 56 \<longrightarrow> (\<exists>y. syli_object_incr p h = Inr (h(p \<mapsto> y))
            \<and> obj_rc y = obj_rc x + 1 \<and> (\<forall>(f, k) \<in> meta_bits. obj_flag f y = obj_flag f x)))
     \<and> (0 < obj_rc x \<longrightarrow> (\<exists>y. syli_object_decr p h = Inr (h(p \<mapsto> y))
            \<and> obj_rc y = obj_rc x - 1 \<and> (\<forall>(f, k) \<in> meta_bits. obj_flag f y = obj_flag f x)))
     \<and> (obj_rc x = 0 \<longrightarrow> syli_object_decr p h = Inl AssertFailed)
     \<and> (unat n \<le> obj_rc x \<longrightarrow> (\<exists>y. syli_object_decr_n p n h = Inr (h(p \<mapsto> y))
            \<and> obj_rc y = obj_rc x - unat n \<and> (\<forall>(f, k) \<in> meta_bits. obj_flag f y = obj_flag f x)))
     \<and> (obj_rc x < unat n \<longrightarrow> syli_object_decr_n p n h = Inl AssertFailed)"
proof -
  have one: "unat (1 :: u64) = 1" by simp
  have plus: "obj_rc (set_meta (meta_ref_count x + 1) x) = obj_rc x + 1"
    "(f, k) \<in> meta_bits \<Longrightarrow> obj_flag f (set_meta (meta_ref_count x + 1) x) = obj_flag f x"
    if "obj_rc x + 1 < 2 ^ 56" for f k
    using obj_rc_plus [of x 1] obj_flag_plus [of f k x 1] that one by simp_all
  have minus: "obj_rc (set_meta (meta_ref_count x - 1) x) = obj_rc x - 1"
    "(f, k) \<in> meta_bits \<Longrightarrow> obj_flag f (set_meta (meta_ref_count x - 1) x) = obj_flag f x"
    if "0 < obj_rc x" for f k
    using obj_rc_minus [of 1 x] obj_flag_minus [of f k 1 x] that one by simp_all
  show ?thesis
    using object_ops_local [of p h x] assms plus minus obj_rc_minus [of n x] obj_flag_minus [of _ _ n x]
    by (auto simp: check_def)
qed

text \<open>A live object at address 8 with reference count 2.\<close>

definition sample_object :: gc_object where
  "sample_object = \<lparr>header_word = push_bit 43 3 OR 1, meta_ref_count = 2, obj_value = [0]\<rparr>"

lemma sample_object_local: "obj_local sample_object" "obj_rc sample_object = 2"
  by (simp_all add: sample_object_def obj_local_def obj_rc_def syli_object_get_zone_def
      zone_of_bits_def GC_ZONE_MASK_def REFCOUNT_MASK_def)

theorem refcount_arithmetic_witness:
  "\<exists>y. syli_object_decr_n 8 2 [8 \<mapsto> sample_object] = Inr ([8 \<mapsto> sample_object](8 \<mapsto> y)) \<and> obj_rc y = 0"
  using refcount_arithmetic [of 8 "[8 \<mapsto> sample_object]" sample_object 2] sample_object_local
  by auto

text \<open>The meta flags are independent one-bit fields: setting one makes it readable and
  clearing one removes it, while every other flag, the mark and the reference count keep
  their value.\<close>

lemma meta_flags_independent:
  assumes "p \<noteq> 0" and "h p = Some x" and "obj_local x" and "is_meta_flag f"
  shows "\<exists>y z. syli_object_set_flags p f h = Inr (h(p \<mapsto> y))
     \<and> syli_object_has_flags p f (h(p \<mapsto> y)) = Inr True
     \<and> syli_object_clear_flags p f h = Inr (h(p \<mapsto> z))
     \<and> syli_object_has_flags p f (h(p \<mapsto> z)) = Inr False
     \<and> obj_rc y = obj_rc x \<and> obj_rc z = obj_rc x
     \<and> (\<forall>(g, k) \<in> meta_bits. g \<noteq> f \<longrightarrow> obj_flag g y = obj_flag g x \<and> obj_flag g z = obj_flag g x)"
proof -
  obtain k where k: "(f, k) \<in> meta_bits" using meta_flag_bit [OF assms(4)] by blast
  let ?y = "set_meta (meta_ref_count x OR f) x" and ?z = "set_meta (meta_ref_count x AND NOT f) x"
  have "syli_object_has_flags p f (h(p \<mapsto> ?y)) = Inr (obj_flag f ?y)"
    "syli_object_has_flags p f (h(p \<mapsto> ?z)) = Inr (obj_flag f ?z)"
    using object_ops_local(3) [of p "h(p \<mapsto> ?y)" ?y] object_ops_local(3) [of p "h(p \<mapsto> ?z)" ?z]
      assms(1,3) by simp_all
  with object_ops_local(1,2) [of p h x f] assms(1,2,3) obj_flag_set_flag [OF k]
    obj_rc_set_flag [OF k, of x] k
  show ?thesis by (intro exI [of _ ?y] exI [of _ ?z]) auto
qed

text \<open>\<open>j\<close> calls of \<open>decr\<close>.\<close>

lemma decr_iterated:
  assumes "p \<noteq> 0" and "h p = Some x" and "obj_local x"
  shows "((\<lambda>r. and_then r (syli_object_decr p)) ^^ j) (Inr h)
      = check (j \<le> obj_rc x) (Inr (h(p \<mapsto> set_meta (meta_ref_count x - of_nat j) x)))"
proof -
  define y where "y = (\<lambda>j :: nat. set_meta (meta_ref_count x - of_nat j) x)"
  have small: "unat (of_nat j :: u64) = j" if "j \<le> obj_rc x" for j
  proof -
    have "obj_rc x < 2 ^ 64" unfolding obj_rc_def by (rule unsigned_less [THEN order_less_le_trans]) simp
    with that show ?thesis by (simp add: unat_of_nat take_bit_nat_eq_self)
  qed
  have yj: "obj_local (y j)" "obj_rc (y j) = obj_rc x - j" if "j \<le> obj_rc x" for j
    using assms(3) obj_rc_minus [of "of_nat j" x] small [OF that] that by (simp_all add: y_def obj_local_def)
  have step: "syli_object_decr p (h(p \<mapsto> y j)) = (if j < obj_rc x then Inr (h(p \<mapsto> y (Suc j))) else Inl AssertFailed)"
    if "j \<le> obj_rc x" for j
  proof -
    have "set_meta (meta_ref_count (y j) - 1) (y j) = y (Suc j)" by (simp add: y_def set_meta_def algebra_simps)
    with object_ops_local(6,9) [of p "h(p \<mapsto> y j)" "y j"] assms(1) yj [OF that] that show ?thesis
      by (simp add: check_def)
  qed
  have h: "h = h(p \<mapsto> y 0)" using assms(2) by (simp add: y_def set_meta_def fun_eq_iff)
  have iter: "((\<lambda>r. and_then r (syli_object_decr p)) ^^ j) (Inr h)
      = (if j \<le> obj_rc x then Inr (h(p \<mapsto> y j)) else Inl AssertFailed)" for j
  proof (induction j)
    case 0
    show ?case using h by simp
  next
    case (Suc j)
    show ?case
    proof (cases "j \<le> obj_rc x")
      case True
      then have "((\<lambda>r. and_then r (syli_object_decr p)) ^^ Suc j) (Inr h) = syli_object_decr p (h(p \<mapsto> y j))"
        using Suc by simp
      with step [OF True] show ?thesis by (simp only: Suc_le_eq)
    next
      case False
      then show ?thesis using Suc by (simp add: and_then_def)
    qed
  qed
  show ?thesis unfolding iter [of j] by (simp add: check_def y_def)
qed

text \<open>C30: taking \<open>k\<close> references away at once is the same as taking them away one by one: \<open>decr_n\<close> gives
  the state of \<open>k\<close> calls of \<open>decr\<close>, and fails its assertion exactly when one of those calls
  does.\<close>

theorem decr_n_iterates:
  assumes "p \<noteq> 0" and "h p = Some x" and "obj_local x" and "k < 2 ^ 64"
  shows "syli_object_decr_n p (of_nat k) h = ((\<lambda>r. and_then r (syli_object_decr p)) ^^ k) (Inr h)"
proof -
  have "unat (of_nat k :: u64) = k" using assms(4) by (simp add: unat_of_nat take_bit_nat_eq_self)
  then have "syli_object_decr_n p (of_nat k) h
      = check (k \<le> obj_rc x) (Inr (h(p \<mapsto> set_meta (meta_ref_count x - of_nat k) x)))"
    using object_ops_local(7,10) [of p h x "of_nat k"] assms(1-3) by simp
  then show ?thesis using decr_iterated [of p h x k] assms(1-3) by simp
qed

theorem decr_n_iterates_witness:
  "syli_object_decr_n 8 2 [8 \<mapsto> sample_object]
     = and_then (syli_object_decr 8 [8 \<mapsto> sample_object]) (syli_object_decr 8)"
proof -
  define h :: heap where "h = [8 \<mapsto> sample_object]"
  have "h 8 = Some sample_object" by (simp add: h_def)
  then have "syli_object_decr_n 8 (of_nat 2) h = ((\<lambda>r. and_then r (syli_object_decr 8)) ^^ 2) (Inr h)"
    using sample_object_local(1) by (intro decr_n_iterates) simp_all
  also have "(2 :: nat) = Suc (Suc 0)" by simp
  finally have "syli_object_decr_n 8 2 h = and_then (syli_object_decr 8 h) (syli_object_decr 8)" by simp
  then show ?thesis by (simp only: h_def)
qed

text \<open>The number of cells a block gets: the payload plus, for a mutable-cyclic object, the
  candidate index.\<close>

lemma object_block_size:
  assumes "unat len < 2 ^ 32" and "syli_object_unit_shift header \<le> 3"
  shows "unat (push_bit (syli_object_unit_shift header) len) = 2 ^ syli_object_unit_shift header * unat len"
    and "unat (object_block_bytes header len) = 16 + 2 ^ syli_object_unit_shift header * unat len
           + (if syli_object_is_cyclic_mutable header then 8 else 0)"
proof -
  let ?s = "syli_object_unit_shift header"
  have "?s \<in> {0, 1, 2, 3}" using assms(2) by auto
  then have p: "(2 :: nat) ^ ?s \<le> 8" by auto
  then have le: "2 ^ ?s * unat len \<le> 8 * unat len" by (rule mult_right_mono) simp
  have "unat (push_bit ?s len) = unat len * 2 ^ ?s mod 2 ^ 64"
    by (simp add: unsigned_push_bit_eq push_bit_nat_def take_bit_nat_def)
  also have "\<dots> = unat len * 2 ^ ?s"
  proof (rule mod_less)
    have "unat len * 2 ^ ?s \<le> 8 * unat len" using le by (simp only: mult.commute)
    also have "\<dots> < 2 ^ 64" using assms(1) by simp
    finally show "unat len * 2 ^ ?s < 2 ^ 64" .
  qed
  finally show push: "unat (push_bit ?s len) = 2 ^ ?s * unat len" by (simp only: mult.commute)
  have "8 * unat len < 2 ^ 35" using assms(1) by simp
  with le have "24 + 2 ^ ?s * unat len < 24 + 2 ^ 35" by linarith
  then have "24 + 2 ^ ?s * unat len < 2 ^ 64" by (rule less_trans) simp
  then show "unat (object_block_bytes header len) = 16 + 2 ^ ?s * unat len
           + (if syli_object_is_cyclic_mutable header then 8 else 0)"
    using push unfolding object_block_bytes_def syli_object_unit_shift_def [symmetric]
      syli_object_is_cyclic_mutable_def [symmetric] Let_def
    by (auto simp: unat_word_ariths)
qed

lemma object_block_cells:
  assumes "syli_object_is_cyclic_mutable header" and "unat len < 2 ^ 32"
    and "syli_object_unit_shift header \<le> 3"
  shows "(unat (object_block_bytes header len) - 16) div 8
       = (2 ^ syli_object_unit_shift header * unat len + 8) div 8"
    and "16 \<le> unat (object_block_bytes header len)"
  using object_block_size(2) [OF assms(2,3)] assms(1) by simp_all

text \<open>C31: the candidate index of a mutable-cyclic object lives in the extra cell behind its
  payload. With 8-byte cells (unit shift 3) the index written is the index read, and the
  payload keeps its value. With a smaller unit shift the code still addresses cell
  \<open>value[length]\<close> as a 64-bit cell, which lies outside the block for every non-empty object.\<close>

theorem candidate_index_cell:
  assumes "malloc_ptr \<noteq> 0" and "syli_object_get_zone header = Zone_GcLocal"
    and "syli_object_is_cyclic_mutable header" and "syli_object_length header = Inr len"
    and "syli_object_alloc malloc_ptr junk header meta len h = Inr (p, h1)"
  shows "(syli_object_unit_shift header = 3 \<longrightarrow>
            (\<exists>h2. syli_object_set_candidate_index p index h1 = Inr h2
               \<and> syli_object_get_candidate_index p h2 = Inr index
               \<and> (\<forall>i < unat len. read_field p i h2 = read_field p i h1)))
     \<and> (syli_object_unit_shift header < 3 \<and> 0 < len \<longrightarrow>
            syli_object_set_candidate_index p index h1 = Inl OutOfBounds)"
proof -
  have len: "unat len < 2 ^ 32"
    using syli_object_length_total [of header] assms(4) by (metis sum.inject(2))
  let ?n = "(unat (object_block_bytes header len) - 16) div 8"
  from assms(1,5) have p: "p = malloc_ptr"
    and h1: "h1 = h(p \<mapsto> \<lparr>header_word = header, meta_ref_count = meta, obj_value = map junk [0..<?n]\<rparr>)"
    by (auto simp: syli_object_alloc_def Let_def split: if_splits)
  show ?thesis
  proof (intro conjI impI)
    assume s: "syli_object_unit_shift header = 3"
    have "(2 ^ 3 * unat len + 8) div 8 = unat len + 1" by simp
    then have n: "?n = unat len + 1" using object_block_cells(1) [OF assms(3) len] s by simp
    then show "\<exists>h2. syli_object_set_candidate_index p index h1 = Inr h2
        \<and> syli_object_get_candidate_index p h2 = Inr index
        \<and> (\<forall>i < unat len. read_field p i h2 = read_field p i h1)"
      using assms(1-4) p
      by (auto simp: h1 syli_object_set_candidate_index_def syli_object_get_candidate_index_def
          deref_def write_field_def read_field_def nth_list_update simp del: upt_Suc)
  next
    assume s: "syli_object_unit_shift header < 3 \<and> 0 < len"
    then have "0 < unat len" by (simp add: unat_gt_0 word_gt_0)
    moreover have "syli_object_unit_shift header \<in> {0, 1, 2}" using s by auto
    ultimately have "(2 ^ syli_object_unit_shift header * unat len + 8) div 8 \<le> unat len" by auto
    then have n: "?n \<le> unat len" using object_block_cells(1) [OF assms(3) len] s by simp
    then show "syli_object_set_candidate_index p index h1 = Inl OutOfBounds"
      using assms(1-4) p
      by (simp add: h1 syli_object_set_candidate_index_def deref_def write_field_def)
  qed
qed

text \<open>Headers of a two-cell mixed-bitmap object, mutable-cyclic, of 8-byte and 1-byte cells.\<close>

definition cons_header :: u64 where
  "cons_header = cyclic_bits Cyclic OR type_bits Type_MixedBitmap OR Flag_HasPointers
     OR Flag_Traceable OR GC_CYCLIC_MUTABLE_MASK OR push_bit 43 3 OR 0x22"

lemma cons_header_fields:
  "syli_object_get_zone cons_header = Zone_GcLocal"
  "syli_object_is_cyclic_mutable cons_header"
  "syli_object_length cons_header = Inr 2"
  "syli_object_unit_shift cons_header = 3"
  "syli_object_has_pointers cons_header"
  "syli_object_is_cyclic cons_header"
  "syli_object_type cons_header = Type_MixedBitmap"
  "syli_object_bitmap_bits cons_header = Inr 1"
  by (simp_all add: cons_header_def imm_flag_defs header_accessor_defs header_mask_defs
      zone_of_bits_def type_of_bits_def)

theorem candidate_index_cell_witness:
  "\<exists>h1 h2. syli_object_alloc 8 (\<lambda>_. 0) cons_header 1 2 Map.empty = Inr (8, h1)
     \<and> syli_object_set_candidate_index 8 5 h1 = Inr h2
     \<and> syli_object_get_candidate_index 8 h2 = Inr 5"
proof -
  obtain h1 where h1: "syli_object_alloc 8 (\<lambda>_. 0) cons_header 1 2 Map.empty = Inr (8, h1)"
    using object_block_cells(2) [of cons_header 2] cons_header_fields(2,4)
    by (simp add: syli_object_alloc_def Let_def)
  from candidate_index_cell [OF _ cons_header_fields(1-3) h1, of 5] cons_header_fields(4) h1
  show ?thesis by auto
qed

end
