(* ===== verification/Env.thy ===== *)
theory Env
  imports Prelude Complex_Main
begin

text \<open>
  The environment of \<open>runtime/include/syli/env.h\<close> and \<open>runtime/src/env.c\<close>: three
  thresholds, each with a default that an environment variable overrides when its whole
  text is a number. \<open>getenv\<close> is the process environment (an argument). \<open>strtoull\<close> in base
  10 is modelled after the C standard; \<open>strtod\<close> is an argument that returns the value and the
  number of characters it consumed. A \<open>double\<close> is represented by the rational it stands for.
\<close>

section \<open>The C library's \<open>strtoull\<close>, base 10\<close>

definition c_isspace :: "char \<Rightarrow> bool" where
  "c_isspace c \<longleftrightarrow> (of_char c :: nat) = 32 \<or> (9 \<le> (of_char c :: nat) \<and> (of_char c :: nat) \<le> 13)"

definition c_isdigit :: "char \<Rightarrow> bool" where
  "c_isdigit c \<longleftrightarrow> 48 \<le> (of_char c :: nat) \<and> (of_char c :: nat) \<le> 57"

definition decimal_value :: "string \<Rightarrow> nat" where
  "decimal_value ds = foldl (\<lambda>v c. 10 * v + (of_char c - 48)) 0 ds"

definition ULLONG_MAX :: u64 where "ULLONG_MAX = - 1"

definition strtoull :: "string \<Rightarrow> u64 \<times> nat" where
  "strtoull s =
     (let ws = takeWhile c_isspace s;
          r = drop (length ws) s;
          sign = takeWhile (\<lambda>c. c = CHR ''+'' \<or> c = CHR ''-'') (take 1 r);
          ds = takeWhile c_isdigit (drop (length sign) r)
      in if ds = [] then (0, 0)
         else (if 2 ^ 64 \<le> decimal_value ds then ULLONG_MAX
               else if sign = ''-'' then - of_nat (decimal_value ds)
               else of_nat (decimal_value ds),
               length ws + length sign + length ds))"

section \<open>Loading the environment\<close>

definition DEFAULT_GC_RELEASE_THRESHOLD :: u64 where
  "DEFAULT_GC_RELEASE_THRESHOLD = 0"
definition DEFAULT_MEM_CYCLIC_OBJ_THRESHOLD :: u64 where
  "DEFAULT_MEM_CYCLIC_OBJ_THRESHOLD = 512 * 1024"
definition DEFAULT_GC_CANDIDATES_RATIO_THRESHOLD :: rat where
  "DEFAULT_GC_CANDIDATES_RATIO_THRESHOLD = 2 / 10"

record Syli_Env =
  syli_gc_mem_cyclic_obj_threshold :: u64
  syli_gc_candidates_ratio_threshold :: rat
  syli_gc_release_threshold :: u64

text \<open>\<open>end != text && *end == '\0'\<close>: something was converted and nothing is left.\<close>

definition whole_text :: "string \<Rightarrow> nat \<Rightarrow> bool" where
  "whole_text s consumed \<longleftrightarrow> consumed \<noteq> 0 \<and> consumed = length s"

definition env_override :: "(string \<Rightarrow> 'a \<times> nat) \<Rightarrow> string option \<Rightarrow> 'a \<Rightarrow> 'a" where
  "env_override convert var dflt =
     (case var of None \<Rightarrow> dflt
      | Some s \<Rightarrow> let (v, n) = convert s in if whole_text s n then v else dflt)"

definition syli_load_env :: "(string \<Rightarrow> string option) \<Rightarrow> (string \<Rightarrow> rat \<times> nat) \<Rightarrow> Syli_Env" where
  "syli_load_env getenv strtod =
     \<lparr>syli_gc_mem_cyclic_obj_threshold =
        env_override strtoull (getenv ''SYLI_GC_MEM_CYCLIC_OBJ_THRESHOLD'')
          DEFAULT_MEM_CYCLIC_OBJ_THRESHOLD,
      syli_gc_candidates_ratio_threshold =
        env_override strtod (getenv ''SYLI_GC_CANDIDATES_RATIO_THRESHOLD'')
          DEFAULT_GC_CANDIDATES_RATIO_THRESHOLD,
      syli_gc_release_threshold =
        env_override strtoull (getenv ''SYLI_GC_RELEASING_THRESHOLD'')
          DEFAULT_GC_RELEASE_THRESHOLD\<rparr>"

section \<open>Properties\<close>

lemma digits_not_space_or_sign:
  assumes "list_all c_isdigit ds" and "ds \<noteq> []"
  shows "takeWhile c_isspace ds = []"
    and "takeWhile (\<lambda>c. c = CHR ''+'' \<or> c = CHR ''-'') (take 1 ds) = []"
  using assms by (cases ds; auto simp: c_isspace_def c_isdigit_def)+

lemma takeWhile_all_append:
  assumes "list_all P ds" and "tail = [] \<or> \<not> P (hd tail)"
  shows "takeWhile P (ds @ tail) = ds"
proof -
  have "takeWhile P tail = []" using assms(2) by (cases tail) auto
  then show ?thesis using assms(1) by (simp add: takeWhile_append list_all_iff)
qed

lemma strtoull_decimal:
  assumes "list_all c_isdigit ds" and "ds \<noteq> []" and "tail = [] \<or> \<not> c_isdigit (hd tail)"
    and "decimal_value ds < 2 ^ 64"
  shows "strtoull (ds @ tail) = (of_nat (decimal_value ds), length ds)"
proof -
  obtain d ds' where ds: "ds = d # ds'" using assms(2) by (cases ds) auto
  note n = digits_not_space_or_sign [OF assms(1,2)]
  have "takeWhile c_isspace (ds @ tail) = []"
    and "takeWhile (\<lambda>c. c = CHR ''+'' \<or> c = CHR ''-'') (take 1 (ds @ tail)) = []"
    using n by (auto simp: ds split: if_splits)
  with takeWhile_all_append [OF assms(1,3)] assms(2,4) show ?thesis
    by (simp add: strtoull_def Let_def)
qed

text \<open>The texts that are a number as a whole: white space, a sign, digits; what they stand for, with the
  wrap-around of a negative number and the largest word for one that does not fit.\<close>

definition number_value :: "string \<Rightarrow> string \<Rightarrow> u64" where
  "number_value sign ds = (if 2 ^ 64 \<le> decimal_value ds then ULLONG_MAX
     else if sign = ''-'' then - of_nat (decimal_value ds) else of_nat (decimal_value ds))"

definition whole_number :: "string \<Rightarrow> u64 \<Rightarrow> bool" where
  "whole_number s v \<longleftrightarrow> (\<exists>ws sign ds. s = ws @ sign @ ds \<and> list_all c_isspace ws \<and> sign \<in> {[], ''+'', ''-''}
     \<and> ds \<noteq> [] \<and> list_all c_isdigit ds \<and> v = number_value sign ds)"

lemma number_start:
  assumes "sign \<in> {[], ''+'', ''-''}" and "ds \<noteq> []" and "list_all c_isdigit ds"
  shows "sign @ ds \<noteq> []" and "\<not> c_isspace (hd (sign @ ds))"
    and "takeWhile (\<lambda>c. c = CHR ''+'' \<or> c = CHR ''-'') (take 1 (sign @ ds)) = sign"
  using assms digits_not_space_or_sign [OF assms(3,2)]
  by (cases ds; auto simp: c_isspace_def c_isdigit_def)+

lemma strtoull_whole:
  assumes "whole_number s v"
  shows "strtoull s = (v, length s)" and "s \<noteq> []"
proof -
  obtain ws sign ds where s: "s = ws @ sign @ ds" "list_all c_isspace ws" "sign \<in> {[], ''+'', ''-''}" "ds \<noteq> []"
    "list_all c_isdigit ds" and v: "v = number_value sign ds"
    using assms unfolding whole_number_def by blast
  note n = number_start [OF s(3-5)]
  have ws: "takeWhile c_isspace s = ws" unfolding s(1) by (rule takeWhile_all_append) (use s(2) n(2) in auto)
  have ds: "takeWhile c_isdigit ds = ds" using takeWhile_all_append [OF s(5), of "[]"] by simp
  have r: "drop (length ws) s = sign @ ds" by (simp add: s(1))
  have "strtoull s = (v, length ws + length sign + length ds)"
    unfolding strtoull_def ws Let_def r n(3) using s(4) by (simp add: ds v number_value_def)
  then show "strtoull s = (v, length s)" by (simp add: s(1))
  show "s \<noteq> []" using s(1,4) by simp
qed

lemma strtoull_whole_text:
  assumes "whole_text s (snd (strtoull s))"
  shows "whole_number s (fst (strtoull s))"
proof -
  define ws r sign ds where "ws = takeWhile c_isspace s" and "r = drop (length ws) s"
    and "sign = takeWhile (\<lambda>c. c = CHR ''+'' \<or> c = CHR ''-'') (take 1 r)"
    and "ds = takeWhile c_isdigit (drop (length sign) r)"
  note d = this
  have run: "strtoull s = (if ds = [] then (0, 0) else (number_value sign ds, length ws + length sign + length ds))"
    by (simp add: strtoull_def Let_def d number_value_def)
  with assms have ne: "ds \<noteq> []" and len: "length ws + length sign + length ds = length s"
    by (auto simp: whole_text_def split: if_splits)
  have sr: "s = ws @ r" by (simp add: d(1,2) flip: dropWhile_eq_drop)
  obtain r' where r: "r = sign @ r'"
    by (metis append_take_drop_id append.assoc takeWhile_dropWhile_id d(3))
  then have "ds = takeWhile c_isdigit r'" by (simp add: d(4))
  then obtain e where "r' = ds @ e" by (metis takeWhile_dropWhile_id)
  with sr r len have s: "s = ws @ sign @ ds" by simp
  have "list_all c_isspace ws" "list_all c_isdigit ds"
    by (auto simp: d(1,4) list_all_iff dest: set_takeWhileD)
  moreover have "sign \<in> {[], ''+'', ''-''}" by (cases r) (auto simp: d(3))
  moreover have "fst (strtoull s) = number_value sign ds" using run ne by simp
  ultimately show ?thesis using ne s unfolding whole_number_def by blast
qed

lemma env_override_number:
  "whole_number s v \<Longrightarrow> env_override strtoull (Some s) dflt = v"
  "(\<And>v. \<not> whole_number s v) \<Longrightarrow> env_override strtoull (Some s) dflt = dflt"
  using strtoull_whole [of s v] strtoull_whole_text [of s]
  by (auto simp: env_override_def whole_text_def Let_def split: prod.splits)

text \<open>C35: a threshold is what its environment variable says exactly when the whole text of the variable
  is a number, white space and a sign in front included; otherwise (the variable unset or
  empty, no digits, anything behind them) it is the default. For the ratio the number is
  what \<open>strtod\<close> makes of the text, when it consumes all of it and something.\<close>

theorem env_threshold_override:
  "(\<forall>s v. getenv ''SYLI_GC_RELEASING_THRESHOLD'' = Some s \<longrightarrow> whole_number s v \<longrightarrow>
       syli_gc_release_threshold (syli_load_env getenv strtod) = v)
   \<and> (\<forall>s v. getenv ''SYLI_GC_MEM_CYCLIC_OBJ_THRESHOLD'' = Some s \<longrightarrow> whole_number s v \<longrightarrow>
       syli_gc_mem_cyclic_obj_threshold (syli_load_env getenv strtod) = v)
   \<and> (\<forall>s v. getenv ''SYLI_GC_CANDIDATES_RATIO_THRESHOLD'' = Some s \<longrightarrow> s \<noteq> [] \<longrightarrow> strtod s = (v, length s) \<longrightarrow>
       syli_gc_candidates_ratio_threshold (syli_load_env getenv strtod) = v)
   \<and> ((\<forall>s v. getenv ''SYLI_GC_RELEASING_THRESHOLD'' = Some s \<longrightarrow> \<not> whole_number s v) \<longrightarrow>
       syli_gc_release_threshold (syli_load_env getenv strtod) = 0)
   \<and> ((\<forall>s v. getenv ''SYLI_GC_MEM_CYCLIC_OBJ_THRESHOLD'' = Some s \<longrightarrow> \<not> whole_number s v) \<longrightarrow>
       syli_gc_mem_cyclic_obj_threshold (syli_load_env getenv strtod) = 524288)
   \<and> ((\<forall>s. getenv ''SYLI_GC_CANDIDATES_RATIO_THRESHOLD'' = Some s \<longrightarrow> s = [] \<or> snd (strtod s) \<noteq> length s) \<longrightarrow>
       syli_gc_candidates_ratio_threshold (syli_load_env getenv strtod) = 1 / 5)"
proof -
  have none: "(\<forall>s v. x = Some s \<longrightarrow> \<not> whole_number s v) \<Longrightarrow> env_override strtoull x dflt = dflt" for x dflt
    using env_override_number(2) by (cases x) (simp_all add: env_override_def)
  have ratio: "(\<forall>s. x = Some s \<longrightarrow> s = [] \<or> snd (strtod s) \<noteq> length s) \<Longrightarrow> env_override strtod x dflt = dflt" for x dflt
    by (cases x) (auto simp: env_override_def whole_text_def Let_def split: prod.splits)
  show ?thesis
    using none [of "getenv ''SYLI_GC_RELEASING_THRESHOLD''"] none [of "getenv ''SYLI_GC_MEM_CYCLIC_OBJ_THRESHOLD''"]
      ratio [of "getenv ''SYLI_GC_CANDIDATES_RATIO_THRESHOLD''"]
    by (intro conjI)
      (auto simp: syli_load_env_def env_override_number(1) DEFAULT_GC_RELEASE_THRESHOLD_def
        DEFAULT_MEM_CYCLIC_OBJ_THRESHOLD_def DEFAULT_GC_CANDIDATES_RATIO_THRESHOLD_def,
       simp add: env_override_def whole_text_def)
qed

theorem env_threshold_override_witness:
  "syli_gc_release_threshold (syli_load_env [''SYLI_GC_RELEASING_THRESHOLD'' \<mapsto> '' -7''] (\<lambda>_. (0, 0))) = - 7
   \<and> syli_gc_mem_cyclic_obj_threshold (syli_load_env [''SYLI_GC_MEM_CYCLIC_OBJ_THRESHOLD'' \<mapsto> []] (\<lambda>_. (0, 0))) = 524288
   \<and> syli_gc_candidates_ratio_threshold (syli_load_env [''SYLI_GC_CANDIDATES_RATIO_THRESHOLD'' \<mapsto> ''1''] (\<lambda>_. (1, 1))) = 1"
proof -
  have "list_all c_isspace '' '' \<and> ''-'' \<in> {[], ''+'', ''-''} \<and> ''7'' \<noteq> [] \<and> list_all c_isdigit ''7''
      \<and> decimal_value ''7'' = 7"
    by (simp add: c_isspace_def c_isdigit_def decimal_value_def)
  then have n: "whole_number '' -7'' (- 7)"
    unfolding whole_number_def number_value_def by (intro exI [of _ "'' ''"] exI [of _ "''-''"] exI [of _ "''7''"]) simp
  have e: "\<not> whole_number [] v" for v by (simp add: whole_number_def)
  show ?thesis
    using env_threshold_override [of "[''SYLI_GC_RELEASING_THRESHOLD'' \<mapsto> '' -7'']" "\<lambda>_. (0, 0)"]
      env_threshold_override [of "[''SYLI_GC_MEM_CYCLIC_OBJ_THRESHOLD'' \<mapsto> []]" "\<lambda>_. (0, 0)"]
      env_threshold_override [of "[''SYLI_GC_CANDIDATES_RATIO_THRESHOLD'' \<mapsto> ''1'']" "\<lambda>_. (1, 1)"] n e
    by simp
qed

end
