(* ===== verification/StackMap.thy ===== *)
theory StackMap
  imports Prelude
begin

text \<open>
  The LLVM stack map of \<open>runtime/include/syli/gc_roots.h\<close> and the part of
  \<open>runtime/src/syli_state_gc_roots.c\<close> that parses it: the version check, the table of
  records indexed by return address, and its binary search.

  The section \<open>__llvm_stackmaps\<close> is a list of bytes (\<open>None\<close> when the linker made none),
  a pointer into it is an offset, the packed structures are read in little-endian order,
  and a read past the end of the section is \<open>OutOfBounds\<close>. The specification side is an
  encoder that writes a section after the LLVM grammar quoted in \<open>gc_roots.h\<close>.
\<close>

section \<open>Reading the packed structures\<close>

definition le_nat :: "u8 list \<Rightarrow> nat" where
  "le_nat bs = foldr (\<lambda>b v. unat b + 256 * v) bs 0"

definition read_le :: "nat \<Rightarrow> u8 list \<Rightarrow> nat \<Rightarrow> nat result" where
  "read_le n sec off =
     (if off + n \<le> length sec then Inr (le_nat (take n (drop off sec))) else Inl OutOfBounds)"

definition sizeof_Header :: nat where "sizeof_Header = 16"
definition sizeof_Function :: nat where "sizeof_Function = 24"
definition sizeof_Location :: nat where "sizeof_Location = 12"
definition sizeof_Record :: nat where "sizeof_Record = 16"

lemmas stackmap_sizes = sizeof_Header_def sizeof_Function_def sizeof_Location_def sizeof_Record_def

record SyliStackMap_Header =
  version :: u8
  num_functions :: u32
  num_constants :: u32
  num_records :: u32

record SyliStackMap_Function =
  func_addr :: u64
  stack_size :: u64
  func_num_records :: u64

record SyliStackMap_Location =
  loc_kind :: u8
  loc_size :: u16
  dwarf_reg :: u16
  loc_offset :: u32

record SyliStackMap_Record =
  patchpoint_id :: u64
  instr_offset :: u32
  record_flags :: u16
  num_locations :: u16

definition read_header :: "u8 list \<Rightarrow> nat \<Rightarrow> SyliStackMap_Header result" where
  "read_header sec p =
     and_then (read_le 1 sec p) (\<lambda>v.
     and_then (read_le 4 sec (p + 4)) (\<lambda>nf.
     and_then (read_le 4 sec (p + 8)) (\<lambda>nc.
     and_then (read_le 4 sec (p + 12)) (\<lambda>nr.
       Inr \<lparr>version = of_nat v, num_functions = of_nat nf, num_constants = of_nat nc,
            num_records = of_nat nr\<rparr>))))"

definition read_function :: "u8 list \<Rightarrow> nat \<Rightarrow> SyliStackMap_Function result" where
  "read_function sec p =
     and_then (read_le 8 sec p) (\<lambda>a.
     and_then (read_le 8 sec (p + 8)) (\<lambda>sz.
     and_then (read_le 8 sec (p + 16)) (\<lambda>n.
       Inr \<lparr>func_addr = of_nat a, stack_size = of_nat sz, func_num_records = of_nat n\<rparr>)))"

definition read_location :: "u8 list \<Rightarrow> nat \<Rightarrow> SyliStackMap_Location result" where
  "read_location sec p =
     and_then (read_le 1 sec p) (\<lambda>k.
     and_then (read_le 2 sec (p + 2)) (\<lambda>sz.
     and_then (read_le 2 sec (p + 4)) (\<lambda>r.
     and_then (read_le 4 sec (p + 8)) (\<lambda>off.
       Inr \<lparr>loc_kind = of_nat k, loc_size = of_nat sz, dwarf_reg = of_nat r,
            loc_offset = of_nat off\<rparr>))))"

definition read_record :: "u8 list \<Rightarrow> nat \<Rightarrow> SyliStackMap_Record result" where
  "read_record sec p =
     and_then (read_le 8 sec p) (\<lambda>i.
     and_then (read_le 4 sec (p + 8)) (\<lambda>off.
     and_then (read_le 2 sec (p + 12)) (\<lambda>f.
     and_then (read_le 2 sec (p + 14)) (\<lambda>n.
       Inr \<lparr>patchpoint_id = of_nat i, instr_offset = of_nat off, record_flags = of_nat f,
            num_locations = of_nat n\<rparr>))))"

section \<open>The version check\<close>

definition STACKMAP_VERSION :: u8 where "STACKMAP_VERSION = 3"

text \<open>\<open>!start || !stop || start == stop\<close>: there is no section.\<close>

definition no_section :: "u8 list option \<Rightarrow> bool" where
  "no_section sec \<longleftrightarrow> sec = None \<or> sec = Some []"

definition syli_rt_stackmap_supported :: "u8 list option \<Rightarrow> bool result" where
  "syli_rt_stackmap_supported sec =
     (if no_section sec then Inr True
      else and_then (read_le 1 (the sec) 0) (\<lambda>v. Inr ((of_nat v :: u8) = STACKMAP_VERSION)))"

definition syli_rt_stackmap_check_version :: "u8 list option \<Rightarrow> unit result" where
  "syli_rt_stackmap_check_version sec =
     and_then (syli_rt_stackmap_supported sec) (\<lambda>ok. if ok then Inr () else Inl ExitFailure)"

section \<open>The record table\<close>

record SyliStackMap_Record_Entry =
  entry_pc :: u64
  entry_record :: "nat option"     \<comment> \<open>offset of the record in the section; \<open>None\<close> is \<open>NULL\<close>\<close>
  entry_locations :: "nat option"

datatype record_table =
    No_table                                       \<comment> \<open>\<open>NULL\<close>\<close>
  | Table "SyliStackMap_Record_Entry list"         \<comment> \<open>the \<open>calloc\<close>ed block\<close>
  | Freed_table                                    \<comment> \<open>after \<open>syli_state_destroy\<close>\<close>

definition null_entry :: SyliStackMap_Record_Entry where
  "null_entry = \<lparr>entry_pc = 0, entry_record = None, entry_locations = None\<rparr>"

definition table_store :: "nat \<Rightarrow> SyliStackMap_Record_Entry \<Rightarrow> record_table \<Rightarrow> record_table result" where
  "table_store i e t =
     (case t of Table es \<Rightarrow> if i < length es then Inr (Table (es[i := e])) else Inl OutOfBounds
      | No_table \<Rightarrow> Inl NullPointer | Freed_table \<Rightarrow> Inl InvalidAccess)"

definition table_load :: "nat \<Rightarrow> record_table \<Rightarrow> SyliStackMap_Record_Entry result" where
  "table_load i t =
     (case t of Table es \<Rightarrow> if i < length es then Inr (es ! i) else Inl OutOfBounds
      | No_table \<Rightarrow> Inl NullPointer | Freed_table \<Rightarrow> Inl InvalidAccess)"

definition advance_record :: "u8 list \<Rightarrow> nat \<Rightarrow> nat result" where
  "advance_record sec rec =
     and_then (read_record sec rec) (\<lambda>r.
     let locations = rec + sizeof_Record;
         n = unat (num_locations r);
         p = locations + n * sizeof_Location;
         p = (if n * sizeof_Location mod 8 = 4 then p + 4 else p);
         p = p + 2
     in and_then (read_le 2 sec p) (\<lambda>num_liveouts.
     let p = p + 2 + 4 * num_liveouts in
     Inr (if (4 * num_liveouts + 4) mod 8 = 4 then p + 4 else p)))"

text \<open>One round of the inner loop: the state is the next index, the current record and the
  table.\<close>

definition build_one_record ::
    "u8 list \<Rightarrow> SyliStackMap_Function \<Rightarrow> nat \<times> nat \<times> record_table \<Rightarrow> (nat \<times> nat \<times> record_table) result" where
  "build_one_record sec fn = (\<lambda>(index, current, t).
     and_then (read_record sec current) (\<lambda>r.
     and_then (table_store index
        \<lparr>entry_pc = func_addr fn + ucast (instr_offset r), entry_record = Some current,
         entry_locations = Some (current + sizeof_Record)\<rparr> t) (\<lambda>t.
     and_then (advance_record sec current) (\<lambda>nxt. Inr (Suc index, nxt, t)))))"

definition build_one_function ::
    "u8 list \<Rightarrow> nat \<Rightarrow> nat \<Rightarrow> nat \<times> nat \<times> record_table \<Rightarrow> (nat \<times> nat \<times> record_table) result" where
  "build_one_function sec functions i st =
     and_then (read_function sec (functions + i * sizeof_Function)) (\<lambda>fn.
       for_range 0 (unat (func_num_records fn)) (\<lambda>_. build_one_record sec fn) st)"

definition syli_build_stackmap_record_entry ::
    "bool \<Rightarrow> u8 list \<Rightarrow> record_table \<times> u64 \<Rightarrow> (record_table \<times> u64) result" where
  "syli_build_stackmap_record_entry calloc_ok sec = (\<lambda>(t, len).
     if t \<noteq> No_table then Inr (t, len)
     else and_then (read_header sec 0) (\<lambda>hd.
       let functions = sizeof_Header;
           records = functions + unat (num_functions hd) * sizeof_Function
                     + unat (num_constants hd) * 8 in
       if \<not> calloc_ok then Inl ExitFailure
       else and_then
         (for_range 0 (unat (num_functions hd)) (build_one_function sec functions)
            (0, records, Table (replicate (unat (num_records hd)) null_entry)))
         (\<lambda>(_, _, t). Inr (t, ucast (num_records hd)))))"

section \<open>Lookup by return address\<close>

definition INTPTR_MAX :: u64 where "INTPTR_MAX = 0x7FFFFFFFFFFFFFFF"

definition not_found :: SyliStackMap_Record_Entry where
  "not_found = \<lparr>entry_pc = INTPTR_MAX, entry_record = None, entry_locations = None\<rparr>"

text \<open>\<open>low\<close> and \<open>high\<close> are \<open>int\<close>s: they stay between 0 and the initial \<open>high\<close>, so \<open>low + (high -
  low) / 2\<close> does not overflow; the initial \<open>high\<close> is the 32-bit truncation of the length.\<close>

function lookup_loop :: "record_table \<Rightarrow> u64 \<Rightarrow> int \<Rightarrow> int \<Rightarrow> SyliStackMap_Record_Entry result" where
  "lookup_loop t pc low high =
     (if low < high then
        let mid = low + (high - low) div 2 in
        and_then (table_load (nat mid) t) (\<lambda>entry.
          if entry_pc entry = pc then Inr entry
          else if pc < entry_pc entry then lookup_loop t pc low mid
          else lookup_loop t pc (mid + 1) high)
      else Inr not_found)"
  by pat_completeness auto
termination
  by (relation "measure (\<lambda>(t, pc, low, high). nat (high - low))") auto

declare lookup_loop.simps [simp del]

definition syli_lookup_record_entry :: "record_table \<times> u64 \<Rightarrow> u64 \<Rightarrow> SyliStackMap_Record_Entry result" where
  "syli_lookup_record_entry = (\<lambda>(t, len) pc.
     check (t \<noteq> No_table) (lookup_loop t pc 0 (sint (ucast len :: u32))))"

section \<open>Binary search\<close>

text \<open>The loop invariant: everything before \<open>low\<close> is smaller than the address looked for,
  everything from \<open>high\<close> on is larger.\<close>

definition search_window :: "SyliStackMap_Record_Entry list \<Rightarrow> u64 \<Rightarrow> int \<Rightarrow> int \<Rightarrow> bool" where
  "search_window es pc low high \<longleftrightarrow> 0 \<le> low \<and> low \<le> high \<and> high \<le> int (length es)
     \<and> (\<forall>i < length es. (int i < low \<longrightarrow> entry_pc (es ! i) < pc)
                       \<and> (high \<le> int i \<longrightarrow> pc < entry_pc (es ! i)))"

lemma sorted_entries:
  "sorted_wrt (<) (map entry_pc es) \<Longrightarrow> i < j \<Longrightarrow> j < length es \<Longrightarrow> entry_pc (es ! i) < entry_pc (es ! j)"
  by (simp add: sorted_wrt_iff_nth_less)

lemma search_window_step:
  assumes "sorted_wrt (<) (map entry_pc es)" and "search_window es pc low high"
    and "low \<le> int m" and "int m < high"
  shows "pc < entry_pc (es ! m) \<Longrightarrow> search_window es pc low (int m)"
    and "entry_pc (es ! m) < pc \<Longrightarrow> search_window es pc (int m + 1) high"
proof -
  have m: "m < length es" using assms(2,4) by (simp add: search_window_def)
  have up: "entry_pc (es ! m) \<le> entry_pc (es ! i)" if "m \<le> i" "i < length es" for i
    using sorted_entries [OF assms(1), of m i] that by (cases "m = i") auto
  have dn: "entry_pc (es ! i) \<le> entry_pc (es ! m)" if "i \<le> m" for i
    using sorted_entries [OF assms(1) _ m, of i] that by (cases "m = i") auto
  show "search_window es pc low (int m)" if "pc < entry_pc (es ! m)"
    using assms(2,3) m up that unfolding search_window_def by (auto dest: order.strict_trans2)
  show "search_window es pc (int m + 1) high" if "entry_pc (es ! m) < pc"
    using assms(2,3,4) m dn that unfolding search_window_def by (auto intro: order.strict_trans1)
qed

lemma lookup_loop_sorted:
  assumes "sorted_wrt (<) (map entry_pc es)" and "search_window es pc low high"
  shows "lookup_loop (Table es) pc low high =
     Inr (case find (\<lambda>e. entry_pc e = pc) es of Some e \<Rightarrow> e | None \<Rightarrow> not_found)"
  using assms(2)
proof (induction "nat (high - low)" arbitrary: low high rule: less_induct)
  case less
  note w = less.prems [unfolded search_window_def]
  show ?case
  proof (cases "low < high")
    case False
    then have "find (\<lambda>e. entry_pc e = pc) es = None"
      using w unfolding find_None_iff in_set_conv_nth
      by (metis less_irrefl linorder_not_le order_le_less_trans)
    with False show ?thesis by (simp add: lookup_loop.simps)
  next
    case True
    define m where "m = nat (low + (high - low) div 2)"
    have m: "low + (high - low) div 2 = int m" "low \<le> int m" "int m < high"
      using True w by (auto simp: m_def)
    then have mn: "m < length es" using w by simp
    have step: "lookup_loop (Table es) pc low high =
      (if entry_pc (es ! m) = pc then Inr (es ! m)
       else if pc < entry_pc (es ! m) then lookup_loop (Table es) pc low (int m)
       else lookup_loop (Table es) pc (int m + 1) high)"
      using True mn m(1) by (subst lookup_loop.simps) (simp add: Let_def table_load_def)
    consider "entry_pc (es ! m) = pc" | "pc < entry_pc (es ! m)" | "entry_pc (es ! m) < pc"
      by (meson linorder_less_linear)
    then show ?thesis
    proof cases
      case 1
      then have "find (\<lambda>e. entry_pc e = pc) es = Some (es ! m)"
        using mn sorted_entries [OF assms(1) _ mn] unfolding find_Some_iff
        by (intro exI [of _ m]) force
      with step 1 show ?thesis by simp
    next
      case 2
      have "lookup_loop (Table es) pc low (int m) =
        Inr (case find (\<lambda>e. entry_pc e = pc) es of Some e \<Rightarrow> e | None \<Rightarrow> not_found)"
        by (rule less.hyps) (use m 2 search_window_step(1) [OF assms(1) less.prems m(2,3)] in auto)
      with step 2 show ?thesis by simp
    next
      case 3
      have "lookup_loop (Table es) pc (int m + 1) high =
        Inr (case find (\<lambda>e. entry_pc e = pc) es of Some e \<Rightarrow> e | None \<Rightarrow> not_found)"
        by (rule less.hyps) (use m 3 search_window_step(2) [OF assms(1) less.prems m(2,3)] in auto)
      with step 3 show ?thesis by (simp add: order_less_not_sym [OF 3])
    qed
  qed
qed

lemma lookup_record_sorted:
  assumes "sorted_wrt (<) (map entry_pc es)" and "length es < 2 ^ 31"
  shows "syli_lookup_record_entry (Table es, of_nat (length es)) pc =
     Inr (case find (\<lambda>e. entry_pc e = pc) es of Some e \<Rightarrow> e | None \<Rightarrow> not_found)"
proof -
  have "(ucast (of_nat (length es) :: u64) :: u32) = of_nat (length es)"
    by (rule bit_word_eqI) (simp add: bit_simps)
  moreover have "sint (of_nat (length es) :: u32) = int (length es)"
    using assms(2) by (simp add: signed_of_nat signed_take_bit_int_eq_self)
  moreover have "search_window es pc 0 (int (length es))"
    by (simp add: search_window_def)
  ultimately show ?thesis
    by (simp add: syli_lookup_record_entry_def lookup_loop_sorted [OF assms(1)])
qed
section \<open>An encoder after the LLVM grammar\<close>

definition enc_le :: "nat \<Rightarrow> nat \<Rightarrow> u8 list" where
  "enc_le n v = map (\<lambda>i. of_nat (v div 256 ^ i)) [0..<n]"

record stackmap_record =
  sr_id :: u64
  sr_offset :: u32
  sr_flags :: u16
  sr_locations :: "SyliStackMap_Location list"
  sr_liveouts :: "(u16 \<times> u8) list"

record stackmap_function =
  sf_addr :: u64
  sf_stack_size :: u64
  sf_records :: "stackmap_record list"

definition encode_location :: "SyliStackMap_Location \<Rightarrow> u8 list" where
  "encode_location l =
     enc_le 1 (unat (loc_kind l)) @ [0] @ enc_le 2 (unat (loc_size l))
     @ enc_le 2 (unat (dwarf_reg l)) @ [0, 0] @ enc_le 4 (unat (loc_offset l))"

definition encode_liveout :: "u16 \<times> u8 \<Rightarrow> u8 list" where
  "encode_liveout lo = enc_le 2 (unat (fst lo)) @ [0, snd lo]"

definition padding4 :: "bool \<Rightarrow> u8 list" where
  "padding4 b = (if b then [0, 0, 0, 0] else [])"

definition encode_record :: "stackmap_record \<Rightarrow> u8 list" where
  "encode_record r =
     enc_le 8 (unat (sr_id r)) @ enc_le 4 (unat (sr_offset r)) @ enc_le 2 (unat (sr_flags r))
     @ enc_le 2 (length (sr_locations r))
     @ concat (map encode_location (sr_locations r)) @ padding4 (odd (length (sr_locations r)))
     @ [0, 0] @ enc_le 2 (length (sr_liveouts r))
     @ concat (map encode_liveout (sr_liveouts r)) @ padding4 (even (length (sr_liveouts r)))"

definition encode_function :: "stackmap_function \<Rightarrow> u8 list" where
  "encode_function f =
     enc_le 8 (unat (sf_addr f)) @ enc_le 8 (unat (sf_stack_size f)) @ enc_le 8 (length (sf_records f))"

definition encode_section :: "stackmap_function list \<Rightarrow> u64 list \<Rightarrow> u8 list" where
  "encode_section fs cs =
     [3, 0, 0, 0] @ enc_le 4 (length fs) @ enc_le 4 (length cs)
     @ enc_le 4 (length (concat (map sf_records fs)))
     @ concat (map encode_function fs) @ concat (map (\<lambda>c. enc_le 8 (unat c)) cs)
     @ concat (map encode_record (concat (map sf_records fs)))"

definition stackmap_fits :: "stackmap_function list \<Rightarrow> u64 list \<Rightarrow> bool" where
  "stackmap_fits fs cs \<longleftrightarrow> length fs < 2 ^ 32 \<and> length cs < 2 ^ 32
     \<and> length (concat (map sf_records fs)) < 2 ^ 32
     \<and> (\<forall>f \<in> set fs. \<forall>r \<in> set (sf_records f).
          length (sr_locations r) < 2 ^ 16 \<and> length (sr_liveouts r) < 2 ^ 16)"

section \<open>Reading back what was encoded\<close>

definition bytes_at :: "u8 list \<Rightarrow> nat \<Rightarrow> u8 list \<Rightarrow> bool" where
  "bytes_at sec p bs \<longleftrightarrow> p + length bs \<le> length sec \<and> take (length bs) (drop p sec) = bs"

lemma bytes_at_nth:
  "bytes_at sec p bs \<longleftrightarrow> p + length bs \<le> length sec \<and> (\<forall>i < length bs. sec ! (p + i) = bs ! i)"
  unfolding bytes_at_def by (auto simp: list_eq_iff_nth_eq)

lemma bytes_at_append:
  "bytes_at sec p (a @ b) \<longleftrightarrow> bytes_at sec p a \<and> bytes_at sec (p + length a) b"
proof
  assume *: "bytes_at sec p (a @ b)"
  show "bytes_at sec p a \<and> bytes_at sec (p + length a) b"
    unfolding bytes_at_nth
  proof (intro conjI allI impI)
    show "sec ! (p + i) = a ! i" if "i < length a" for i
      using * that by (auto simp: bytes_at_nth nth_append dest: spec [of _ i])
    show "sec ! (p + length a + i) = b ! i" if "i < length b" for i
      using * that by (auto simp: bytes_at_nth nth_append add.assoc dest: spec [of _ "length a + i"])
  qed (use * in \<open>auto simp: bytes_at_nth\<close>)
next
  assume *: "bytes_at sec p a \<and> bytes_at sec (p + length a) b"
  then have b: "sec ! (p + length a + j) = b ! j" if "j < length b" for j
    using that by (simp add: bytes_at_nth)
  have "sec ! (p + i) = (a @ b) ! i" if "i < length a + length b" for i
    using * b [of "i - length a"] that by (cases "i < length a") (auto simp: bytes_at_nth nth_append)
  with * show "bytes_at sec p (a @ b)" by (simp add: bytes_at_nth)
qed

lemma bytes_at_Cons:
  "bytes_at sec p (b # bs) \<longleftrightarrow> p < length sec \<and> sec ! p = b \<and> bytes_at sec (Suc p) bs"
  by (auto simp: bytes_at_nth nth_Cons split: nat.splits)

lemma Suc_four: "Suc (Suc (Suc (Suc p))) = p + 4"
  by simp

lemmas bytes_at_simps = bytes_at_append bytes_at_Cons Suc_four

lemma bytes_at_whole: "bytes_at (pre @ bs @ post) (length pre) bs"
  by (simp add: bytes_at_def)

lemma length_enc_le [simp]: "length (enc_le n v) = n"
  by (simp add: enc_le_def)

lemma enc_le_Suc: "enc_le (Suc n) v = of_nat v # enc_le n (v div 256)"
  by (rule nth_equalityI)
    (auto simp: enc_le_def nth_Cons div_mult2_eq simp del: upt_Suc split: nat.splits)

lemma le_nat_enc: "le_nat (enc_le n v) = v mod 256 ^ n"
proof (induction n arbitrary: v)
  case 0
  then show ?case by (simp add: enc_le_def le_nat_def)
next
  case (Suc n)
  have "le_nat (enc_le (Suc n) v) = v mod 256 + 256 * (v div 256 mod 256 ^ n)"
    using Suc [of "v div 256"]
    by (simp add: enc_le_Suc le_nat_def unsigned_of_nat take_bit_nat_def)
  also have "\<dots> = v mod 256 ^ Suc n" by (simp add: mod_mult2_eq add.commute)
  finally show ?case .
qed

lemma read_le_enc:
  "bytes_at sec p (enc_le n v) \<Longrightarrow> v < 256 ^ n \<Longrightarrow> read_le n sec p = Inr v"
  by (simp add: bytes_at_def read_le_def le_nat_enc)

lemma read_le_byte: "bytes_at sec p [b] \<Longrightarrow> read_le 1 sec p = Inr (unat b)"
  by (simp add: bytes_at_def read_le_def le_nat_def)

text \<open>Values of the field widths fit their encodings.\<close>

lemma unat_fits:
  "unat (a :: u8) < 256 ^ 1" "unat (b :: u16) < 256 ^ 2" "unat (c :: u32) < 256 ^ 4"
  "unat (d :: u64) < 256 ^ 8"
  using unat_word_bound [of a] unat_word_bound [of b] unat_word_bound [of c] unat_word_bound [of d]
  by simp_all

lemma read_location_encoded:
  assumes "bytes_at sec p (encode_location l)"
  shows "read_location sec p = Inr l"
proof -
  have "read_le 1 sec p = Inr (unat (loc_kind l))"
    and "read_le 2 sec (p + 2) = Inr (unat (loc_size l))"
    and "read_le 2 sec (p + 4) = Inr (unat (dwarf_reg l))"
    and "read_le 4 sec (p + 8) = Inr (unat (loc_offset l))"
    using assms unat_fits
    by (auto simp: encode_location_def bytes_at_simps ac_simps intro!: read_le_enc)
  then show ?thesis by (simp add: read_location_def)
qed

lemma read_function_encoded:
  assumes "bytes_at sec p (encode_function f)" and "length (sf_records f) < 2 ^ 64"
  shows "read_function sec p = Inr \<lparr>func_addr = sf_addr f, stack_size = sf_stack_size f,
           func_num_records = of_nat (length (sf_records f))\<rparr>"
proof -
  have "read_le 8 sec p = Inr (unat (sf_addr f))"
    and "read_le 8 sec (p + 8) = Inr (unat (sf_stack_size f))"
    and "read_le 8 sec (p + 16) = Inr (length (sf_records f))"
    using assms unat_fits
    by (auto simp: encode_function_def bytes_at_simps ac_simps intro!: read_le_enc)
  then show ?thesis by (simp add: read_function_def)
qed

lemma read_record_encoded:
  assumes "bytes_at sec p (encode_record r)" and "length (sr_locations r) < 2 ^ 16"
  shows "read_record sec p = Inr \<lparr>patchpoint_id = sr_id r, instr_offset = sr_offset r,
           record_flags = sr_flags r, num_locations = of_nat (length (sr_locations r))\<rparr>"
proof -
  have "read_le 8 sec p = Inr (unat (sr_id r))"
    and "read_le 4 sec (p + 8) = Inr (unat (sr_offset r))"
    and "read_le 2 sec (p + 12) = Inr (unat (sr_flags r))"
    and "read_le 2 sec (p + 14) = Inr (length (sr_locations r))"
    using assms unat_fits
    by (auto simp: encode_record_def bytes_at_simps ac_simps intro!: read_le_enc)
  then show ?thesis by (simp add: read_record_def)
qed
lemma length_encode_location [simp]: "length (encode_location l) = 12"
  by (simp add: encode_location_def)

lemma length_encode_liveout [simp]: "length (encode_liveout l) = 4"
  by (simp add: encode_liveout_def)

lemma length_encode_function [simp]: "length (encode_function f) = 24"
  by (simp add: encode_function_def)

lemma length_concat_const: "(\<And>x. x \<in> set xs \<Longrightarrow> length (f x) = k) \<Longrightarrow> length (concat (map f xs)) = k * length xs"
  by (induction xs) auto

lemma bytes_at_concat:
  assumes "bytes_at sec p (concat (map f xs))" and "i < length xs"
  shows "bytes_at sec (p + length (concat (map f (take i xs)))) (f (xs ! i))"
proof -
  have "concat (map f xs) = concat (map f (take i xs)) @ f (xs ! i) @ concat (map f (drop (Suc i) xs))"
    using id_take_nth_drop [OF assms(2)] by (metis concat.simps(2) concat_append list.simps(9) map_append)
  with assms(1) show ?thesis by (simp add: bytes_at_append)
qed

lemma bytes_at_concat_const:
  assumes "bytes_at sec p (concat (map f xs))" and "i < length xs" and "\<And>x. length (f x) = k"
  shows "bytes_at sec (p + i * k) (f (xs ! i))"
  using bytes_at_concat [OF assms(1,2)] length_concat_const [of "take i xs" f k] assms(2,3)
  by (simp add: mult.commute)

lemma read_locations_encoded:
  assumes "bytes_at sec p (encode_record r)" and "i < length (sr_locations r)"
  shows "read_location sec (p + sizeof_Record + i * sizeof_Location) = Inr (sr_locations r ! i)"
proof -
  have "bytes_at sec (p + 16) (concat (map encode_location (sr_locations r)))"
    using assms(1) by (simp add: encode_record_def bytes_at_append ac_simps)
  from bytes_at_concat_const [OF this assms(2), of 12] show ?thesis
    by (simp add: read_location_encoded stackmap_sizes ac_simps)
qed

lemma length_encode_record:
  "length (encode_record r) = 16 + 12 * length (sr_locations r)
     + (if odd (length (sr_locations r)) then 4 else 0) + 4 + 4 * length (sr_liveouts r)
     + (if even (length (sr_liveouts r)) then 4 else 0)"
  using length_concat_const [of "sr_locations r" encode_location 12]
    length_concat_const [of "sr_liveouts r" encode_liveout 4]
  by (simp add: encode_record_def padding4_def)

lemma locations_padding: "(n * 12 mod 8 = (4 :: nat)) = odd n"
  by presburger

lemma liveouts_padding: "((4 + n * 4) mod 8 = (4 :: nat)) = even n"
  by presburger

lemma advance_record_encoded:
  assumes "bytes_at sec p (encode_record r)" and "length (sr_locations r) < 2 ^ 16"
    and "length (sr_liveouts r) < 2 ^ 16"
  shows "advance_record sec p = Inr (p + length (encode_record r))"
proof -
  let ?n = "length (sr_locations r)" and ?m = "length (sr_liveouts r)"
  let ?q = "p + 16 + 12 * ?n + (if odd ?n then 4 else 0) + 2"
  have "length (concat (map encode_location (sr_locations r))) = 12 * ?n"
    by (rule length_concat_const) simp
  then have "bytes_at sec ?q (enc_le 2 ?m)"
    using assms(1) by (simp add: encode_record_def bytes_at_simps padding4_def ac_simps split: if_splits)
  then have lo: "read_le 2 sec ?q = Inr ?m" by (rule read_le_enc) (use assms(3) in simp)
  have n: "unat (of_nat ?n :: u16) = ?n"
    using assms(2) by (simp add: unsigned_of_nat take_bit_nat_eq_self)
  show ?thesis
    using lo by (cases "odd ?n"; cases "even ?m")
      (simp_all add: advance_record_def read_record_encoded [OF assms(1,2)] n stackmap_sizes Let_def
        locations_padding liveouts_padding length_encode_record ac_simps)
qed
section \<open>The table built from an encoded section\<close>

text \<open>The records in order, each with the address of its function, the offset each starts
  at, and the table they give.\<close>

definition flat_records :: "stackmap_function list \<Rightarrow> (u64 \<times> stackmap_record) list" where
  "flat_records fs = concat (map (\<lambda>f. map (Pair (sf_addr f)) (sf_records f)) fs)"

definition record_pos :: "stackmap_function list \<Rightarrow> u64 list \<Rightarrow> nat \<Rightarrow> nat" where
  "record_pos fs cs j = sizeof_Header + length fs * sizeof_Function + length cs * 8
     + length (concat (map encode_record (take j (map snd (flat_records fs)))))"

definition table_entry :: "stackmap_function list \<Rightarrow> u64 list \<Rightarrow> nat \<Rightarrow> SyliStackMap_Record_Entry" where
  "table_entry fs cs j =
     (let (addr, r) = flat_records fs ! j in
      \<lparr>entry_pc = addr + ucast (sr_offset r), entry_record = Some (record_pos fs cs j),
       entry_locations = Some (record_pos fs cs j + sizeof_Record)\<rparr>)"

definition partial_table :: "stackmap_function list \<Rightarrow> u64 list \<Rightarrow> nat \<Rightarrow> record_table" where
  "partial_table fs cs j = Table (map (table_entry fs cs) [0..<j]
     @ replicate (length (flat_records fs) - j) null_entry)"

lemma flat_records_snd: "map snd (flat_records fs) = concat (map sf_records fs)"
  by (simp add: flat_records_def map_concat comp_def)

lemma bytes_at_section:
  "bytes_at (encode_section fs cs) 0
     ([3, 0, 0, 0] @ enc_le 4 (length fs) @ enc_le 4 (length cs)
      @ enc_le 4 (length (concat (map sf_records fs)))
      @ concat (map encode_function fs) @ concat (map (\<lambda>c. enc_le 8 (unat c)) cs)
      @ concat (map encode_record (concat (map sf_records fs))))"
  by (simp add: bytes_at_def encode_section_def)

lemma record_at:
  assumes "j < length (flat_records fs)"
  shows "bytes_at (encode_section fs cs) (record_pos fs cs j) (encode_record (snd (flat_records fs ! j)))"
proof -
  let ?rs = "map snd (flat_records fs)"
  have "length (concat (map encode_function fs)) = 24 * length fs"
    and "length (concat (map (\<lambda>c. enc_le 8 (unat c)) cs)) = 8 * length cs"
    by (rule length_concat_const; simp)+
  then have "bytes_at (encode_section fs cs) (16 + length fs * 24 + length cs * 8)
      (concat (map encode_record ?rs))"
    using bytes_at_section [of fs cs]
    by (simp add: bytes_at_simps flat_records_snd ac_simps)
  from bytes_at_concat [OF this, of j] assms show ?thesis
    by (simp add: record_pos_def stackmap_sizes)
qed

lemma record_pos_Suc:
  assumes "j < length (flat_records fs)"
  shows "record_pos fs cs (Suc j) = record_pos fs cs j + length (encode_record (snd (flat_records fs ! j)))"
  using assms by (simp add: record_pos_def take_Suc_conv_app_nth)

lemma flat_record_fits:
  assumes "stackmap_fits fs cs" and "j < length (flat_records fs)"
  shows "length (sr_locations (snd (flat_records fs ! j))) < 2 ^ 16"
    and "length (sr_liveouts (snd (flat_records fs ! j))) < 2 ^ 16"
proof -
  have "snd (flat_records fs ! j) \<in> set (map snd (flat_records fs))" using assms(2) by simp
  then obtain f where "f \<in> set fs" "snd (flat_records fs ! j) \<in> set (sf_records f)"
    by (auto simp only: flat_records_snd set_concat set_map)
  with assms(1) show "length (sr_locations (snd (flat_records fs ! j))) < 2 ^ 16"
    and "length (sr_liveouts (snd (flat_records fs ! j))) < 2 ^ 16"
    by (auto simp: stackmap_fits_def)
qed

lemma build_one_record_encoded:
  assumes "stackmap_fits fs cs" and "j < length (flat_records fs)"
    and "func_addr fn = fst (flat_records fs ! j)"
  shows "build_one_record (encode_section fs cs) fn (j, record_pos fs cs j, partial_table fs cs j)
       = Inr (Suc j, record_pos fs cs (Suc j), partial_table fs cs (Suc j))"
proof -
  note at = record_at [OF assms(2), of cs] and fits = flat_record_fits [OF assms(1,2)]
  have "length (flat_records fs) - j = Suc (length (flat_records fs) - Suc j)" using assms(2) by simp
  then have "table_store j (table_entry fs cs j) (partial_table fs cs j) = Inr (partial_table fs cs (Suc j))"
    using assms(2) by (simp add: table_store_def partial_table_def list_update_append)
  with read_record_encoded [OF at fits(1)] advance_record_encoded [OF at fits]
    record_pos_Suc [OF assms(2), of cs] assms(3)
  show ?thesis
    by (simp add: build_one_record_def table_entry_def split_beta Let_def stackmap_sizes)
qed

text \<open>The index at which a function's records start.\<close>

definition first_record :: "stackmap_function list \<Rightarrow> nat \<Rightarrow> nat" where
  "first_record fs i = length (flat_records (take i fs))"

lemma flat_records_split:
  assumes "i < length fs"
  shows "flat_records fs = flat_records (take i fs)
     @ map (Pair (sf_addr (fs ! i))) (sf_records (fs ! i)) @ flat_records (drop (Suc i) fs)"
  using arg_cong [OF id_take_nth_drop [OF assms], of flat_records] by (simp add: flat_records_def)

lemma first_record_Suc:
  "i < length fs \<Longrightarrow> first_record fs (Suc i) = first_record fs i + length (sf_records (fs ! i))"
  by (simp add: first_record_def take_Suc_conv_app_nth flat_records_def)

lemma flat_records_nth:
  assumes "i < length fs" and "k < length (sf_records (fs ! i))"
  shows "first_record fs i + k < length (flat_records fs)"
    and "flat_records fs ! (first_record fs i + k) = (sf_addr (fs ! i), sf_records (fs ! i) ! k)"
  using assms by (simp_all add: flat_records_split [OF assms(1)] first_record_def nth_append)

lemma build_one_function_encoded:
  assumes "stackmap_fits fs cs" and "i < length fs"
  shows "build_one_function (encode_section fs cs) sizeof_Header i
           (first_record fs i, record_pos fs cs (first_record fs i), partial_table fs cs (first_record fs i))
       = Inr (first_record fs (Suc i), record_pos fs cs (first_record fs (Suc i)),
              partial_table fs cs (first_record fs (Suc i)))"
proof -
  let ?sec = "encode_section fs cs" and ?f = "fs ! i"
  let ?n = "length (sf_records ?f)"
  have n: "?n < 2 ^ 32"
  proof -
    have "?n \<le> length (flat_records fs)" by (subst flat_records_split [OF assms(2)]) simp
    moreover have "length (flat_records fs) = length (concat (map sf_records fs))"
      using flat_records_snd [of fs] by (metis length_map)
    ultimately show ?thesis using assms(1) by (simp add: stackmap_fits_def)
  qed
  have "bytes_at ?sec 16 (concat (map encode_function fs))"
    using bytes_at_section [of fs cs] by (simp add: bytes_at_simps)
  from bytes_at_concat_const [OF this assms(2), of 24]
  have "bytes_at ?sec (16 + i * 24) (encode_function ?f)" by simp
  then have fn: "read_function ?sec (sizeof_Header + i * sizeof_Function) =
      Inr \<lparr>func_addr = sf_addr ?f, stack_size = sf_stack_size ?f, func_num_records = of_nat ?n\<rparr>"
    using n by (simp add: read_function_encoded stackmap_sizes)
  let ?fn = "\<lparr>func_addr = sf_addr ?f, stack_size = sf_stack_size ?f, func_num_records = of_nat ?n\<rparr>"
  have nn: "unat (func_num_records ?fn) = ?n"
    using n by (simp add: unsigned_of_nat take_bit_nat_eq_self)
  define P where "P k st \<longleftrightarrow> st = (first_record fs i + k, record_pos fs cs (first_record fs i + k),
      partial_table fs cs (first_record fs i + k))" for k st
  have "\<exists>st. for_range 0 ?n (\<lambda>_. build_one_record ?sec ?fn) (first_record fs i,
      record_pos fs cs (first_record fs i), partial_table fs cs (first_record fs i)) = Inr st \<and> P ?n st"
  proof (rule for_range_total)
    fix k st
    assume "0 \<le> k" "k < ?n" "P k st"
    then show "\<exists>t'. build_one_record ?sec ?fn st = Inr t' \<and> P (Suc k) t'"
      using build_one_record_encoded [OF assms(1) flat_records_nth(1) [OF assms(2)], of k ?fn]
        flat_records_nth(2) [OF assms(2), of k] by (simp add: P_def)
  qed (simp_all add: P_def)
  with fn nn first_record_Suc [OF assms(2)] show ?thesis by (simp add: build_one_function_def P_def)
qed

lemma build_encoded:
  assumes "stackmap_fits fs cs"
  shows "syli_build_stackmap_record_entry True (encode_section fs cs) (No_table, 0)
       = Inr (Table (map (table_entry fs cs) [0..<length (flat_records fs)]),
              of_nat (length (flat_records fs)))"
proof -
  let ?sec = "encode_section fs cs" and ?N = "length (flat_records fs)"
  have lens: "length fs < 2 ^ 32" "length cs < 2 ^ 32" "?N < 2 ^ 32"
    and N: "length (concat (map sf_records fs)) = ?N"
    using assms flat_records_snd [of fs] unfolding stackmap_fits_def by (metis length_map)+
  have "read_header ?sec 0 = Inr \<lparr>version = 3, num_functions = of_nat (length fs),
      num_constants = of_nat (length cs), num_records = of_nat ?N\<rparr>"
    using lens read_le_byte [of ?sec 0 3] read_le_enc [of ?sec 4 4 "length fs"]
      read_le_enc [of ?sec 8 4 "length cs"] read_le_enc [of ?sec 12 4 ?N]
      bytes_at_section [of fs cs, unfolded N]
    by (simp add: bytes_at_simps read_header_def) (simp add: bytes_at_def)
  moreover have "unat (of_nat (length fs) :: u32) = length fs"
    "unat (of_nat (length cs) :: u32) = length cs" "unat (of_nat ?N :: u32) = ?N"
    "(ucast (of_nat ?N :: u32) :: u64) = of_nat ?N"
    using lens by (simp_all add: unsigned_of_nat take_bit_nat_eq_self)
  moreover
  define P where "P i st \<longleftrightarrow> st = (first_record fs i, record_pos fs cs (first_record fs i),
      partial_table fs cs (first_record fs i))" for i st
  have "\<exists>st. for_range 0 (length fs) (build_one_function ?sec sizeof_Header)
      (0, record_pos fs cs 0, Table (replicate ?N null_entry)) = Inr st \<and> P (length fs) st"
    by (rule for_range_total [where P = P])
      (use build_one_function_encoded [OF assms] in
        \<open>auto simp: P_def first_record_def flat_records_def partial_table_def\<close>)
  ultimately show ?thesis
    by (auto simp: syli_build_stackmap_record_entry_def Let_def P_def first_record_def
        partial_table_def record_pos_def)
qed
section \<open>Properties\<close>

text \<open>C32: building the record table of a stack map laid out after the LLVM grammar gives one
  entry per record, in order: its address is the function's plus the record's offset,
  and the record and every location it points at decode to what was encoded.\<close>

theorem stackmap_build_decodes:
  assumes "stackmap_fits fs cs"
  shows "\<exists>es. syli_build_stackmap_record_entry True (encode_section fs cs) (No_table, 0)
           = Inr (Table es, of_nat (length es))
     \<and> length es = length (flat_records fs)
     \<and> (\<forall>j < length es. let (addr, r) = flat_records fs ! j in
          entry_pc (es ! j) = addr + ucast (sr_offset r)
          \<and> (\<exists>p q. entry_record (es ! j) = Some p \<and> entry_locations (es ! j) = Some q
             \<and> read_record (encode_section fs cs) p =
                 Inr \<lparr>patchpoint_id = sr_id r, instr_offset = sr_offset r,
                      record_flags = sr_flags r, num_locations = of_nat (length (sr_locations r))\<rparr>
             \<and> (\<forall>i < length (sr_locations r).
                  read_location (encode_section fs cs) (q + i * sizeof_Location)
                    = Inr (sr_locations r ! i))))"
  using build_encoded [OF assms] read_record_encoded [OF record_at flat_record_fits(1) [OF assms]]
    read_locations_encoded [OF record_at]
  by (intro exI [of _ "map (table_entry fs cs) [0..<length (flat_records fs)]"])
    (auto simp: table_entry_def split_beta Let_def)

definition sample_stackmap :: "stackmap_function list" where
  "sample_stackmap =
     [\<lparr>sf_addr = 0x2000, sf_stack_size = 24,
       sf_records = [\<lparr>sr_id = 1, sr_offset = 4, sr_flags = 0,
          sr_locations = [\<lparr>loc_kind = 3, loc_size = 8, dwarf_reg = 7, loc_offset = 16\<rparr>],
          sr_liveouts = []\<rparr>]\<rparr>,
      \<lparr>sf_addr = 0x1000, sf_stack_size = 8,
       sf_records = [\<lparr>sr_id = 2, sr_offset = 8, sr_flags = 0, sr_locations = [],
          sr_liveouts = [(7, 8)]\<rparr>]\<rparr>]"

lemma sample_stackmap_fits: "stackmap_fits sample_stackmap []"
  by (simp add: stackmap_fits_def sample_stackmap_def)

lemma sample_flat_records:
  "flat_records sample_stackmap =
     [(0x2000, \<lparr>sr_id = 1, sr_offset = 4, sr_flags = 0,
          sr_locations = [\<lparr>loc_kind = 3, loc_size = 8, dwarf_reg = 7, loc_offset = 16\<rparr>],
          sr_liveouts = []\<rparr>),
      (0x1000, \<lparr>sr_id = 2, sr_offset = 8, sr_flags = 0, sr_locations = [],
          sr_liveouts = [(7, 8)]\<rparr>)]"
  by (simp add: flat_records_def sample_stackmap_def)

theorem stackmap_build_decodes_witness:
  "\<exists>es. syli_build_stackmap_record_entry True (encode_section sample_stackmap []) (No_table, 0)
      = Inr (Table es, of_nat (length es)) \<and> length es = 2 \<and> entry_pc (es ! 0) = 0x2004"
  using stackmap_build_decodes [OF sample_stackmap_fits]
proof (elim exE conjE, goal_cases)
  case (1 es)
  have two: "length es = 2" using 1(2) by (simp add: sample_flat_records)
  have "0 < length es" using two by simp
  from 1(3) [rule_format, OF this, unfolded Let_def split_beta, THEN conjunct1]
  have "entry_pc (es ! 0) = 0x2004" by (simp add: sample_flat_records)
  with 1(1) two show ?case by blast
qed

text \<open>C33: on a table sorted by return address, of fewer than \<open>2 ^ 31\<close> entries, the binary search is
  the linear search: it returns the entry of the address when the table has one and the null
  entry otherwise, without reading outside the table.\<close>

theorem lookup_record_entry_correct:
  assumes "sorted_wrt (<) (map entry_pc es)" and "length es < 2 ^ 31"
  shows "syli_lookup_record_entry (Table es, of_nat (length es)) pc =
       Inr (case find (\<lambda>e. entry_pc e = pc) es of Some e \<Rightarrow> e | None \<Rightarrow> not_found)
     \<and> (e \<in> set es \<longrightarrow> syli_lookup_record_entry (Table es, of_nat (length es)) (entry_pc e) = Inr e)"
proof (intro conjI impI)
  assume "e \<in> set es"
  then obtain i where i: "i < length es" "es ! i = e" by (auto simp: in_set_conv_nth)
  then have "entry_pc (es ! j) \<noteq> entry_pc e" if "j < i" for j
    using sorted_entries [OF assms(1) that i(1)] by auto
  with i have "find (\<lambda>x. entry_pc x = entry_pc e) es = Some e"
    unfolding find_Some_iff by auto
  with lookup_record_sorted [OF assms]
  show "syli_lookup_record_entry (Table es, of_nat (length es)) (entry_pc e) = Inr e" by simp
qed (rule lookup_record_sorted [OF assms])

theorem lookup_record_entry_correct_witness:
  "syli_lookup_record_entry (Table [null_entry, null_entry\<lparr>entry_pc := 5\<rparr>], 2) 5
     = Inr (null_entry\<lparr>entry_pc := 5\<rparr>)
   \<and> syli_lookup_record_entry (Table [null_entry, null_entry\<lparr>entry_pc := 5\<rparr>], 2) 7 = Inr not_found"
  using lookup_record_entry_correct [where es = "[null_entry, null_entry\<lparr>entry_pc := 5\<rparr>]"
      and e = "null_entry\<lparr>entry_pc := 5\<rparr>" and pc = 7]
  by (simp add: null_entry_def)

text \<open>C34: the order is needed and nothing establishes it: in the table built from a well-formed
  section that lists two functions in decreasing address order, the search does not find the
  record of the first one, so the roots of its frame are missed.\<close>

theorem lookup_misses_unsorted:
  "\<exists>t. syli_build_stackmap_record_entry True (encode_section sample_stackmap []) (No_table, 0) = Inr t
     \<and> (\<exists>es e. fst t = Table es \<and> e \<in> set es \<and> entry_pc e = 0x2004)
     \<and> syli_lookup_record_entry t 0x2004 = Inr not_found"
proof -
  define e0 where "e0 = table_entry sample_stackmap [] 0"
  define e1 where "e1 = table_entry sample_stackmap [] 1"
  have pc: "entry_pc e0 = 0x2004" "entry_pc e1 = 0x1008"
    by (simp_all add: e0_def e1_def table_entry_def sample_flat_records)
  have "length (flat_records sample_stackmap) = Suc (Suc 0)" by (simp add: sample_flat_records)
  then have build: "syli_build_stackmap_record_entry True (encode_section sample_stackmap []) (No_table, 0)
      = Inr (Table [e0, e1], 2)"
    unfolding build_encoded [OF sample_stackmap_fits] by (simp add: e0_def e1_def)
  have "lookup_loop (Table [e0, e1]) 0x2004 0 2 = Inr not_found"
    by (simp add: lookup_loop.simps [of _ _ 0 2] lookup_loop.simps [of _ _ 2 2] Let_def
        table_load_def pc)
  then have "syli_lookup_record_entry (Table [e0, e1], 2) 0x2004 = Inr not_found"
    by (simp add: syli_lookup_record_entry_def)
  moreover have "e0 \<in> set [e0, e1]" by simp
  ultimately show ?thesis using build pc(1) by (metis fst_conv)
qed

end
