(* ===== verification/GcState.thy ===== *)
theory GcState
  imports Object Env StackMap
begin

text \<open>
  The state of the runtime, from \<open>runtime/include/syli/syli_state.h\<close> and
  \<open>runtime/src/syli_state.c\<close>. The record has the fields of \<open>Syli_state\<close> and one more, the
  memory \<open>gc_heap\<close> the objects live in. Three conventions:

  \<^item> a worklist is the list its chunked vector stands for (\<open>cv_list\<close> of theory
    \<open>ChunkVector\<close>, where each vector operation is proved to be the list operation used
    here), with the back of the vector at the end of the list. The pushes of the collector
    are modelled for an allocator that delivers;
  \<^item> an \<open>int\<close> is a \<open>32 word\<close> read with \<open>sint\<close>, a \<open>size_t\<close> is a \<open>64 word\<close>, so that both wrap;
  \<^item> a \<open>double\<close> is the rational it stands for.
\<close>

definition BUDGET_BATCH_SIZE :: u64 where "BUDGET_BATCH_SIZE = 1000"

text \<open>\<open>CyclicCandidate\<close> is a structure of one field, the tagged pointer.\<close>

type_synonym CyclicCandidate = obj_ptr

datatype Tracing_state_machine =
  Tracing_Idle | Tracing | Mutation_Prepare | Reclaiming_Cyclic_Candidates

datatype Releasing_state_machine = Releasing_Idle | Releasing

record Syli_state =
  gc_heap :: heap

  THRESHOLD_MEM_CYCLIC_OBJ :: u64
  THRESHOLD_CANDIDATES_RATIO :: rat
  THRESHOLD_RELEASING_BUCKET :: u64

  BUDGET_GC_TRACING :: u64
  BUDGET_GC_RELEASING :: u64
  BUDGET_GC_CHECKING :: u64

  tracing_budget :: u32
  releasing_budget :: u32
  checking_budget :: u32

  tracing_worklist :: "obj_ptr list"
  tracing_mutations_worklist :: "obj_ptr list"
  releasing_worklist :: "obj_ptr list"
  releasing_waitlist :: "obj_ptr list"
  cyclic_candidates :: "CyclicCandidate list"
  lost_cycle_worklist :: "obj_ptr list"

  releasing_steps :: u64
  tracing_steps :: u64
  mutation_steps :: u64
  checking_steps :: u64

  total_objects_traced :: u64
  total_objects_released :: u64
  total_objects_freed :: u64

  generation_tracing :: u64
  tracing_current_bit_mark :: u64
  tracing_generations :: u64

  tracing_state :: Tracing_state_machine
  releasing_state :: Releasing_state_machine

  cyclic_mem_alloc :: u64
  cyclic_mem_dealloc :: u64
  cyclic_obj_alloc :: u64
  cyclic_obj_dealloc :: u64
  cyclic_obj_alloc_at_trace :: u64

  current_candidate_check_index :: u64

  stackmap_record_entry :: record_table
  stackmap_record_entry_len :: u64

section \<open>Initialisation and destruction\<close>

text \<open>\<open>memset(&syli_state, 0, sizeof(Syli_state))\<close>; the memory is not part of the structure.\<close>

definition zero_state :: "heap \<Rightarrow> Syli_state" where
  "zero_state h =
     \<lparr>gc_heap = h,
      THRESHOLD_MEM_CYCLIC_OBJ = 0, THRESHOLD_CANDIDATES_RATIO = 0, THRESHOLD_RELEASING_BUCKET = 0,
      BUDGET_GC_TRACING = 0, BUDGET_GC_RELEASING = 0, BUDGET_GC_CHECKING = 0,
      tracing_budget = 0, releasing_budget = 0, checking_budget = 0,
      tracing_worklist = [], tracing_mutations_worklist = [],
      releasing_worklist = [], releasing_waitlist = [],
      cyclic_candidates = [], lost_cycle_worklist = [],
      releasing_steps = 0, tracing_steps = 0, mutation_steps = 0, checking_steps = 0,
      total_objects_traced = 0, total_objects_released = 0, total_objects_freed = 0,
      generation_tracing = 0, tracing_current_bit_mark = 0, tracing_generations = 0,
      tracing_state = Tracing_Idle, releasing_state = Releasing_Idle,
      cyclic_mem_alloc = 0, cyclic_mem_dealloc = 0, cyclic_obj_alloc = 0, cyclic_obj_dealloc = 0,
      cyclic_obj_alloc_at_trace = 0, current_candidate_check_index = 0,
      stackmap_record_entry = No_table, stackmap_record_entry_len = 0\<rparr>"

definition syli_state_init ::
    "u8 list option \<Rightarrow> (string \<Rightarrow> string option) \<Rightarrow> (string \<Rightarrow> rat \<times> nat) \<Rightarrow> Syli_state
     \<Rightarrow> Syli_state result" where
  "syli_state_init sec getenv strtod s =
     and_then (syli_rt_stackmap_check_version sec) (\<lambda>_.
     let env = syli_load_env getenv strtod in
     Inr ((zero_state (gc_heap s))
       \<lparr>THRESHOLD_MEM_CYCLIC_OBJ := syli_gc_mem_cyclic_obj_threshold env,
        THRESHOLD_CANDIDATES_RATIO := syli_gc_candidates_ratio_threshold env,
        THRESHOLD_RELEASING_BUCKET := syli_gc_release_threshold env,
        BUDGET_GC_TRACING := 2 * BUDGET_BATCH_SIZE,
        BUDGET_GC_RELEASING := 5 * BUDGET_BATCH_SIZE,
        BUDGET_GC_CHECKING := 3 * BUDGET_BATCH_SIZE\<rparr>))"

definition syli_state_destroy :: "Syli_state \<Rightarrow> Syli_state result" where
  "syli_state_destroy s =
     (let s = s\<lparr>tracing_worklist := [], tracing_mutations_worklist := [], releasing_worklist := [],
                releasing_waitlist := [], cyclic_candidates := [], lost_cycle_worklist := []\<rparr> in
      case stackmap_record_entry s of
        No_table \<Rightarrow> Inr s
      | Table _ \<Rightarrow> Inr (s\<lparr>stackmap_record_entry := Freed_table\<rparr>)
      | Freed_table \<Rightarrow> Inl InvalidAccess)"

text \<open>What neither collector changes: the table of the stack map, the threshold and the budgets. (The
  first collection builds the table.)\<close>

abbreviation gc_settings :: "Syli_state \<Rightarrow> (record_table \<times> u64) \<times> u64 \<times> u64 \<times> u64 \<times> u64" where
  "gc_settings s \<equiv> ((stackmap_record_entry s, stackmap_record_entry_len s), THRESHOLD_RELEASING_BUCKET s,
     BUDGET_GC_TRACING s, BUDGET_GC_RELEASING s, BUDGET_GC_CHECKING s)"

section \<open>Lifting memory operations to the state\<close>

definition on_heap :: "(heap \<Rightarrow> heap result) \<Rightarrow> Syli_state \<Rightarrow> Syli_state result" where
  "on_heap f s = and_then (f (gc_heap s)) (\<lambda>h. Inr (s\<lparr>gc_heap := h\<rparr>))"

lemma on_heap_Inr: "f (gc_heap s) = Inr h \<Longrightarrow> on_heap f s = Inr (s\<lparr>gc_heap := h\<rparr>)"
  by (simp add: on_heap_def)

lemma on_heap_eq_Inr:
  "on_heap f s = Inr s' \<longleftrightarrow> (\<exists>h. f (gc_heap s) = Inr h \<and> s' = s\<lparr>gc_heap := h\<rparr>)"
  by (auto simp: on_heap_def and_then_eq_Inr)

section \<open>Properties\<close>

text \<open>C36: a section of another version stops the program before the state is touched, and
  otherwise (no section, or version 3) \<open>syli_state_init\<close> gives a state whose worklists are
  empty and idle, with no table, the three thresholds of the environment, and the batch budgets;
  destroying it changes nothing. Destroying any state whose table is not already freed
  succeeds, empties the vectors and frees no object; doing it twice frees the table twice,
  unless no table was built.\<close>

theorem syli_state_init_result:
  "(no_section sec \<or> (\<exists>r. sec = Some (3 # r)) \<longrightarrow>
      (\<exists>s'. syli_state_init sec getenv strtod s = Inr s'
        \<and> gc_heap s' = gc_heap s \<and> tracing_state s' = Tracing_Idle \<and> releasing_state s' = Releasing_Idle
        \<and> releasing_waitlist s' = [] \<and> releasing_worklist s' = [] \<and> cyclic_candidates s' = []
        \<and> tracing_worklist s' = [] \<and> tracing_mutations_worklist s' = [] \<and> lost_cycle_worklist s' = []
        \<and> stackmap_record_entry s' = No_table
        \<and> tracing_current_bit_mark s' = 0 \<and> current_candidate_check_index s' = 0
        \<and> THRESHOLD_RELEASING_BUCKET s' = syli_gc_release_threshold (syli_load_env getenv strtod)
        \<and> THRESHOLD_MEM_CYCLIC_OBJ s' = syli_gc_mem_cyclic_obj_threshold (syli_load_env getenv strtod)
        \<and> THRESHOLD_CANDIDATES_RATIO s' = syli_gc_candidates_ratio_threshold (syli_load_env getenv strtod)
        \<and> BUDGET_GC_TRACING s' = 2000 \<and> BUDGET_GC_RELEASING s' = 5000 \<and> BUDGET_GC_CHECKING s' = 3000
        \<and> syli_state_destroy s' = Inr s'))
   \<and> (\<forall>v r. v \<noteq> 3 \<longrightarrow> syli_state_init (Some (v # r)) getenv strtod s = Inl ExitFailure)
   \<and> (stackmap_record_entry u \<noteq> Freed_table \<longrightarrow>
      (\<exists>u'. syli_state_destroy u = Inr u' \<and> gc_heap u' = gc_heap u \<and> tracing_worklist u' = []
        \<and> tracing_mutations_worklist u' = [] \<and> releasing_worklist u' = [] \<and> releasing_waitlist u' = []
        \<and> cyclic_candidates u' = [] \<and> lost_cycle_worklist u' = []
        \<and> syli_state_destroy u'
            = (if stackmap_record_entry u = No_table then Inr u' else Inl InvalidAccess)))"
proof -
  have v: "syli_rt_stackmap_check_version (Some (v # r)) = (if v = 3 then Inr () else Inl ExitFailure)" for v r
    by (simp add: syli_rt_stackmap_check_version_def syli_rt_stackmap_supported_def no_section_def
        read_le_def le_nat_def STACKMAP_VERSION_def)
  have n: "no_section sec \<Longrightarrow> syli_rt_stackmap_check_version sec = Inr ()"
    by (simp add: syli_rt_stackmap_check_version_def syli_rt_stackmap_supported_def)
  have d: "stackmap_record_entry u \<noteq> Freed_table \<longrightarrow>
      (\<exists>u'. syli_state_destroy u = Inr u' \<and> gc_heap u' = gc_heap u \<and> tracing_worklist u' = []
        \<and> tracing_mutations_worklist u' = [] \<and> releasing_worklist u' = [] \<and> releasing_waitlist u' = []
        \<and> cyclic_candidates u' = [] \<and> lost_cycle_worklist u' = []
        \<and> syli_state_destroy u'
            = (if stackmap_record_entry u = No_table then Inr u' else Inl InvalidAccess))"
    by (cases "stackmap_record_entry u") (simp_all add: syli_state_destroy_def)
  show ?thesis
    using n by (intro conjI d) (auto simp: syli_state_init_def v Let_def zero_state_def BUDGET_BATCH_SIZE_def
        syli_state_destroy_def)
qed

theorem syli_state_init_result_witness:
  "\<exists>s'. syli_state_init None Map.empty (\<lambda>_. (0, 0)) (zero_state Map.empty) = Inr s'
     \<and> BUDGET_GC_RELEASING s' = 5000 \<and> syli_state_destroy s' = Inr s'"
  using syli_state_init_result [of None Map.empty "\<lambda>_. (0, 0)" "zero_state Map.empty" "zero_state Map.empty"]
  by (auto simp: no_section_def)

end
