(* ===== verification/GcHelpers.thy ===== *)
theory GcHelpers
  imports GcState
begin

text \<open>
  The helpers of \<open>runtime/include/syli/gc_helpers.h\<close>: the registry of cyclic candidates,
  freeing a released object, marks, and the pushes to the collector's queues.
  The registry invariant ties three things together: the position of an entry, the index
  stored in the object behind its payload, and the flag \<open>Meta_Flags_Cyclic_Candidate\<close>; the
  lemmas show that registration and removal by swapping with the last entry keep it.
\<close>

section \<open>The collector's queues and the cyclic-candidate registry\<close>

definition gc_vector_pop_back :: "obj_ptr list \<Rightarrow> (obj_ptr \<times> obj_ptr list) result" where
  "gc_vector_pop_back vector = check (0 < length vector) (Inr (last vector, butlast vector))"

definition gc_vector_push_back :: "obj_ptr list \<Rightarrow> obj_ptr \<Rightarrow> obj_ptr list" where
  "gc_vector_push_back vector obj = vector @ [obj]"

definition gc_cyclic_candidate_count :: "Syli_state \<Rightarrow> u64" where
  "gc_cyclic_candidate_count s = of_nat (length (cyclic_candidates s))"

definition gc_current_cyclic_mem :: "Syli_state \<Rightarrow> u64" where
  "gc_current_cyclic_mem s =
     (if cyclic_mem_dealloc s \<le> cyclic_mem_alloc s then cyclic_mem_alloc s - cyclic_mem_dealloc s else 0)"

definition gc_current_cyclic_obj :: "Syli_state \<Rightarrow> u64" where
  "gc_current_cyclic_obj s =
     (if cyclic_obj_dealloc s \<le> cyclic_obj_alloc s then cyclic_obj_alloc s - cyclic_obj_dealloc s else 0)"

text \<open>\<open>*vector_at_CyclicCandidate(v, index)\<close>: out of range the pointer is \<open>NULL\<close>.\<close>

definition candidate_at :: "u64 \<Rightarrow> Syli_state \<Rightarrow> CyclicCandidate result" where
  "candidate_at index s =
     (if unat index < length (cyclic_candidates s) then Inr (cyclic_candidates s ! unat index)
      else Inl NullPointer)"

definition gc_register_candidate :: "obj_ptr \<Rightarrow> Syli_state \<Rightarrow> Syli_state result" where
  "gc_register_candidate ptr s =
     (let obj = syli_object_of_obj_ptr ptr in
      and_then (syli_object_has_flags obj Meta_Flags_Cyclic_Candidate (gc_heap s)) (\<lambda>registered.
      if registered then Inr s
      else let s = s\<lparr>cyclic_candidates := cyclic_candidates s @ [ptr]\<rparr>;
               last_index = of_nat (length (cyclic_candidates s)) - 1 in
        and_then (on_heap (syli_object_set_candidate_index obj last_index) s)
          (on_heap (syli_object_set_flags obj Meta_Flags_Cyclic_Candidate))))"

definition gc_remove_candidate_at :: "u64 \<Rightarrow> Syli_state \<Rightarrow> Syli_state result" where
  "gc_remove_candidate_at index s =
     (let last_i = of_nat (length (cyclic_candidates s)) - 1 in
      and_then
        (if index \<noteq> last_i then
           and_then (candidate_at index s) (\<lambda>_.
           and_then (candidate_at last_i s) (\<lambda>last_data.
             let s = s\<lparr>cyclic_candidates := (cyclic_candidates s)[unat index := last_data]\<rparr>;
                 moved = syli_object_of_obj_ptr last_data in
             on_heap (syli_object_set_candidate_index moved index) s))
         else Inr s)
        (\<lambda>s. Inr (s\<lparr>cyclic_candidates := butlast (cyclic_candidates s)\<rparr>)))"

section \<open>Freeing an object\<close>

definition gc_account_cyclic_free :: "u64 \<Rightarrow> Syli_state \<Rightarrow> Syli_state result" where
  "gc_account_cyclic_free obj s =
     and_then (deref obj (gc_heap s)) (\<lambda>x.
       if syli_object_is_cyclic (header_word x) then
         and_then (syli_object_total_bytes (header_word x)) (\<lambda>bytes.
           Inr (s\<lparr>cyclic_mem_dealloc := cyclic_mem_dealloc s + bytes,
                  cyclic_obj_dealloc := cyclic_obj_dealloc s + 1\<rparr>))
       else Inr s)"

definition free_released_object :: "u64 \<Rightarrow> Syli_state \<Rightarrow> Syli_state result" where
  "free_released_object obj s =
     and_then
       (and_then (syli_object_has_flags obj Meta_Flags_Cyclic_Candidate (gc_heap s)) (\<lambda>candidate.
        if candidate then
          and_then (syli_object_get_candidate_index obj (gc_heap s)) (\<lambda>index.
          and_then (gc_remove_candidate_at index s)
            (on_heap (syli_object_clear_flags obj Meta_Flags_Cyclic_Candidate)))
        else Inr s))
     (\<lambda>s. and_then (syli_object_has_flags obj Meta_Flags_Tracing (gc_heap s)) (\<lambda>traced.
        if traced then on_heap (syli_object_set_flags obj Meta_Flags_Waiting_Remove) s
        else
          let s = s\<lparr>total_objects_freed := total_objects_freed s + 1\<rparr> in
          and_then (gc_account_cyclic_free obj s) (on_heap (free_block obj))))"

section \<open>Marks and pushes\<close>

definition gc_next_marking_generation :: "Syli_state \<Rightarrow> Syli_state" where
  "gc_next_marking_generation s =
     s\<lparr>tracing_current_bit_mark := tracing_current_bit_mark s XOR MASK_MARKING_BIT,
       tracing_generations := tracing_generations s + 1\<rparr>"

definition gc_mark_tag_object :: "u64 \<Rightarrow> Syli_state \<Rightarrow> Syli_state result" where
  "gc_mark_tag_object obj s =
     check (obj \<noteq> 0) (and_then (deref obj (gc_heap s)) (\<lambda>x.
       on_heap (write_meta obj ((meta_ref_count x AND NOT MASK_MARKING_BIT)
                                 OR tracing_current_bit_mark s)) s))"

definition gc_is_object_mark_tagged :: "u64 \<Rightarrow> Syli_state \<Rightarrow> bool result" where
  "gc_is_object_mark_tagged obj s =
     check (obj \<noteq> 0) (and_then (deref obj (gc_heap s)) (\<lambda>x.
       Inr (meta_ref_count x AND MASK_MARKING_BIT = tracing_current_bit_mark s)))"

definition gc_tracing_worklist_push :: "obj_ptr \<Rightarrow> Syli_state \<Rightarrow> Syli_state result" where
  "gc_tracing_worklist_push obj_p s =
     (if \<not> syli_ownership_is_own_ref obj_p then Inr s
      else let child = syli_object_of_obj_ptr obj_p in
        and_then (syli_object_has_flags child Meta_Flags_Tracing (gc_heap s)) (\<lambda>queued.
        if queued then Inr s
        else and_then (on_heap (syli_object_set_flags child Meta_Flags_Tracing) s) (\<lambda>s.
          Inr (s\<lparr>tracing_worklist := gc_vector_push_back (tracing_worklist s) obj_p\<rparr>))))"

definition gc_releasing_worklist_push :: "obj_ptr \<Rightarrow> Syli_state \<Rightarrow> Syli_state result" where
  "gc_releasing_worklist_push obj_p s =
     (let obj = syli_object_of_obj_ptr obj_p in
      and_then (syli_object_refcount obj (gc_heap s)) (\<lambda>rc. check (rc = 0)
      (and_then (deref obj (gc_heap s)) (\<lambda>x.
       and_then (when_r (syli_object_is_cyclic_mutable (header_word x)) (gc_mark_tag_object obj) s)
         (\<lambda>s. Inr (s\<lparr>releasing_waitlist := gc_vector_push_back (releasing_waitlist s) obj_p\<rparr>))))))"

section \<open>The loop over the references of an object\<close>

text \<open>
  The scans all have the loop
  \<open>for (i = 0; i < count; i++) { [if (!is_ref(i)) continue;] v = obj->value[i];
  if (!v || !syli_ownership_is_own_ref(v)) continue; visit(v); }\<close>,
  where \<open>is_ref\<close> is the bitmap test for a mixed-bitmap object. The field is read from
  memory in each round, after the effects of the previous ones.
\<close>

definition scan_fields ::
    "u64 \<Rightarrow> (nat \<Rightarrow> bool) \<Rightarrow> nat \<Rightarrow> (obj_ptr \<Rightarrow> Syli_state \<Rightarrow> Syli_state result)
     \<Rightarrow> Syli_state \<Rightarrow> Syli_state result" where
  "scan_fields obj is_ref count visit =
     for_range 0 count (\<lambda>i s.
       if \<not> is_ref i then Inr s
       else and_then (read_field obj i (gc_heap s)) (\<lambda>v.
         if v = 0 \<or> \<not> syli_ownership_is_own_ref v then Inr s else visit v s))"

section \<open>The candidate index of an object\<close>

definition obj_len :: "gc_object \<Rightarrow> nat" where
  "obj_len x = (case syli_object_length (header_word x) of Inr n \<Rightarrow> unat n | Inl _ \<Rightarrow> 0)"

definition obj_index :: "gc_object \<Rightarrow> u64" where
  "obj_index x = obj_value x ! obj_len x"

definition set_index :: "u64 \<Rightarrow> gc_object \<Rightarrow> gc_object" where
  "set_index i x = x\<lparr>obj_value := (obj_value x)[obj_len x := i]\<rparr>"

definition obj_indexed :: "gc_object \<Rightarrow> bool" where
  "obj_indexed x \<longleftrightarrow> obj_local x \<and> syli_object_is_cyclic_mutable (header_word x)
     \<and> obj_len x < length (obj_value x)"

lemma obj_len_frame [simp]:
  "obj_len (set_meta m x) = obj_len x" "obj_len (set_index i x) = obj_len x"
  by (simp_all add: obj_len_def set_meta_def set_index_def)

lemma set_index_frame [simp]:
  "header_word (set_index i x) = header_word x"
  "meta_ref_count (set_index i x) = meta_ref_count x"
  "obj_local (set_index i x) = obj_local x"
  "obj_rc (set_index i x) = obj_rc x"
  "obj_flag f (set_index i x) = obj_flag f x"
  "length (obj_value (set_index i x)) = length (obj_value x)"
  "obj_indexed (set_index i x) = obj_indexed x"
  "set_index i (set_index j x) = set_index i x"
  by (simp_all add: set_index_def obj_local_def obj_rc_def obj_flag_def obj_indexed_def obj_len_def)

lemma obj_index_set [simp]:
  "obj_len x < length (obj_value x) \<Longrightarrow> obj_index (set_index i x) = i"
  "obj_index (set_meta m x) = obj_index x"
  "obj_indexed (set_meta m x) = obj_indexed x"
  by (simp_all add: set_index_def obj_index_def obj_len_def obj_indexed_def set_meta_def obj_local_def)

lemma obj_length_len:
  obtains n where "syli_object_length (header_word x) = Inr n" and "unat n = obj_len x"
proof -
  obtain n where "syli_object_length (header_word x) = Inr n"
    by (rule syli_object_length_total [of "header_word x"]) blast
  with that show ?thesis by (simp add: obj_len_def)
qed

lemma candidate_index_ops:
  assumes "p \<noteq> 0" and "h p = Some x" and "obj_indexed x"
  shows "syli_object_set_candidate_index p i h = Inr (h(p \<mapsto> set_index i x))"
    and "syli_object_get_candidate_index p h = Inr (obj_index x)"
proof -
  obtain n where n: "syli_object_length (header_word x) = Inr n" "unat n = obj_len x"
    by (rule obj_length_len)
  with assms show "syli_object_set_candidate_index p i h = Inr (h(p \<mapsto> set_index i x))"
    and "syli_object_get_candidate_index p h = Inr (obj_index x)"
    by (simp_all add: syli_object_set_candidate_index_def syli_object_get_candidate_index_def
        deref_live write_field_def read_field_def obj_indexed_def obj_local_def set_index_def obj_index_def)
qed

section \<open>The registry invariant\<close>

text \<open>Every entry is an allocated object flagged as a candidate whose stored index is the
  position of the entry, and every flagged object has an entry.\<close>

definition registry_entry :: "heap \<Rightarrow> nat \<Rightarrow> obj_ptr \<Rightarrow> bool" where
  "registry_entry h i p \<longleftrightarrow> syli_ownership_untag p \<noteq> 0 \<and>
     (\<exists>x. h (syli_ownership_untag p) = Some x \<and> obj_indexed x
        \<and> obj_flag Meta_Flags_Cyclic_Candidate x \<and> unat (obj_index x) = i)"

definition registry_inv :: "heap \<Rightarrow> obj_ptr list \<Rightarrow> bool" where
  "registry_inv h cs \<longleftrightarrow> length cs < 2 ^ 64
     \<and> (\<forall>i < length cs. registry_entry h i (cs ! i))
     \<and> (\<forall>q x. h q = Some x \<longrightarrow> obj_flag Meta_Flags_Cyclic_Candidate x \<longrightarrow>
          (\<exists>i < length cs. syli_ownership_untag (cs ! i) = q))"

lemma registry_entryD:
  "registry_inv h cs \<Longrightarrow> i < length cs \<Longrightarrow> registry_entry h i (cs ! i)"
  by (simp add: registry_inv_def)

lemma registry_position:
  assumes "registry_inv h cs" and "h q = Some x" and "obj_flag Meta_Flags_Cyclic_Candidate x"
  shows "q \<noteq> 0" and "obj_indexed x" and "unat (obj_index x) < length cs"
    and "syli_ownership_untag (cs ! unat (obj_index x)) = q"
proof -
  obtain i where i: "i < length cs" "syli_ownership_untag (cs ! i) = q"
    using assms(1) [unfolded registry_inv_def] assms(2,3) by blast
  with registry_entryD [OF assms(1) i(1)] assms(2)
  have "unat (obj_index x) = i" "obj_indexed x" "q \<noteq> 0" by (auto simp: registry_entry_def)
  with i show "q \<noteq> 0" and "obj_indexed x" and "unat (obj_index x) < length cs"
    and "syli_ownership_untag (cs ! unat (obj_index x)) = q" by simp_all
qed

lemma registry_distinct:
  assumes "registry_inv h cs" and "i < length cs" and "j < length cs"
    and "syli_ownership_untag (cs ! i) = syli_ownership_untag (cs ! j)"
  shows "i = j"
  using registry_entryD [OF assms(1,2)] registry_entryD [OF assms(1,3)] assms(4)
  by (auto simp: registry_entry_def)

text \<open>What a memory change must keep for the registry to stay as it is.\<close>

lemma registry_inv_frame:
  assumes "registry_inv h cs"
    and "\<And>q x'. h' q = Some x' \<Longrightarrow> obj_flag Meta_Flags_Cyclic_Candidate x' \<Longrightarrow>
           \<exists>x. h q = Some x \<and> obj_flag Meta_Flags_Cyclic_Candidate x"
    and "\<And>q x. h q = Some x \<Longrightarrow> obj_flag Meta_Flags_Cyclic_Candidate x \<Longrightarrow>
           \<exists>x'. h' q = Some x' \<and> obj_flag Meta_Flags_Cyclic_Candidate x'
              \<and> obj_indexed x' = obj_indexed x \<and> obj_index x' = obj_index x"
  shows "registry_inv h' cs"
proof -
  have "registry_entry h' i (cs ! i)" if "i < length cs" for i
    using registry_entryD [OF assms(1) that] assms(3) by (fastforce simp: registry_entry_def)
  with assms(1,2) show ?thesis unfolding registry_inv_def by blast
qed

section \<open>Registration\<close>

lemma of_nat_last_index:
  assumes "n < 2 ^ 64"
  shows "(of_nat (Suc n) - 1 :: u64) = of_nat n" and "unat (of_nat n :: u64) = n"
  using assms by (simp_all add: unsigned_of_nat take_bit_nat_eq_self)

lemma candidate_bit_in: "(Meta_Flags_Cyclic_Candidate, 56) \<in> meta_bits"
  and tracing_bit_in: "(Meta_Flags_Tracing, 58) \<in> meta_bits"
  and waiting_bit_in: "(Meta_Flags_Waiting_Remove, 59) \<in> meta_bits"
  and released_bit_in: "(Meta_Flags_Children_Released, 60) \<in> meta_bits"
  and flags_distinct:
    "Meta_Flags_Cyclic_Candidate \<noteq> Meta_Flags_Tracing"
    "Meta_Flags_Cyclic_Candidate \<noteq> Meta_Flags_Waiting_Remove"
    "Meta_Flags_Cyclic_Candidate \<noteq> Meta_Flags_Children_Released"
    "Meta_Flags_Tracing \<noteq> Meta_Flags_Waiting_Remove"
    "Meta_Flags_Tracing \<noteq> Meta_Flags_Children_Released"
    "Meta_Flags_Waiting_Remove \<noteq> Meta_Flags_Children_Released"
    "MASK_MARKING_BIT \<noteq> Meta_Flags_Cyclic_Candidate" "MASK_MARKING_BIT \<noteq> Meta_Flags_Tracing"
    "MASK_MARKING_BIT \<noteq> Meta_Flags_Waiting_Remove" "MASK_MARKING_BIT \<noteq> Meta_Flags_Children_Released"
  by (simp_all add: meta_bits_def Meta_Flags_Cyclic_Candidate_def Meta_Flags_Tracing_def
      Meta_Flags_Waiting_Remove_def Meta_Flags_Children_Released_def MASK_MARKING_BIT_def)

lemmas meta_bit_facts = candidate_bit_in tracing_bit_in waiting_bit_in released_bit_in
  mark_in_meta_bits

text \<open>The flag updates of the four flags and the mark, ready for rewriting.\<close>

lemmas flag_updates =
  obj_flag_set_flag [OF candidate_bit_in candidate_bit_in] obj_flag_set_flag [OF candidate_bit_in tracing_bit_in]
  obj_flag_set_flag [OF candidate_bit_in waiting_bit_in] obj_flag_set_flag [OF candidate_bit_in released_bit_in]
  obj_flag_set_flag [OF tracing_bit_in candidate_bit_in] obj_flag_set_flag [OF tracing_bit_in tracing_bit_in]
  obj_flag_set_flag [OF tracing_bit_in waiting_bit_in] obj_flag_set_flag [OF tracing_bit_in released_bit_in]
  obj_flag_set_flag [OF waiting_bit_in candidate_bit_in] obj_flag_set_flag [OF waiting_bit_in tracing_bit_in]
  obj_flag_set_flag [OF waiting_bit_in waiting_bit_in] obj_flag_set_flag [OF waiting_bit_in released_bit_in]
  obj_flag_set_flag [OF released_bit_in candidate_bit_in] obj_flag_set_flag [OF released_bit_in tracing_bit_in]
  obj_flag_set_flag [OF released_bit_in waiting_bit_in] obj_flag_set_flag [OF released_bit_in released_bit_in]
  obj_rc_set_flag [OF candidate_bit_in] obj_rc_set_flag [OF tracing_bit_in]
  obj_rc_set_flag [OF waiting_bit_in] obj_rc_set_flag [OF released_bit_in]
  flags_distinct flags_distinct [symmetric]

lemma gc_register_candidate_spec:
  assumes "registry_inv (gc_heap s) (cyclic_candidates s)"
    and "gc_heap s q = Some x" and "q = syli_ownership_untag p" and "q \<noteq> 0"
    and "obj_indexed x" and "\<not> obj_flag Meta_Flags_Cyclic_Candidate x"
    and "length (cyclic_candidates s) + 1 < 2 ^ 64"
  shows "\<exists>y. gc_register_candidate p s =
       Inr (s\<lparr>gc_heap := (gc_heap s)(q \<mapsto> y), cyclic_candidates := cyclic_candidates s @ [p]\<rparr>)
     \<and> header_word y = header_word x \<and> obj_rc y = obj_rc x
     \<and> registry_inv ((gc_heap s)(q \<mapsto> y)) (cyclic_candidates s @ [p])
     \<and> (\<exists>i. y = set_meta (meta_ref_count x OR Meta_Flags_Cyclic_Candidate) (set_index i x))"
proof -
  let ?h = "gc_heap s" and ?cs = "cyclic_candidates s"
  let ?z = "set_index (of_nat (length ?cs)) x"
  let ?y = "set_meta (meta_ref_count x OR Meta_Flags_Cyclic_Candidate) ?z"
  note n = of_nat_last_index [of "length ?cs"]
  have local: "obj_local x" using assms(5) by (simp add: obj_indexed_def)
  have run: "gc_register_candidate p s =
      Inr (s\<lparr>gc_heap := ?h(q \<mapsto> ?y), cyclic_candidates := ?cs @ [p]\<rparr>)"
  proof -
    have "syli_object_has_flags q Meta_Flags_Cyclic_Candidate ?h = Inr False"
      using object_ops_local(3) [of q ?h x] assms(2,4,6) local by simp
    moreover have "syli_object_set_candidate_index q (of_nat (length ?cs)) ?h = Inr (?h(q \<mapsto> ?z))"
      using candidate_index_ops(1) [of q ?h x] assms(2,4,5) by simp
    moreover have "syli_object_set_flags q Meta_Flags_Cyclic_Candidate (?h(q \<mapsto> ?z)) = Inr (?h(q \<mapsto> ?y))"
      using object_ops_local(1) [of q "?h(q \<mapsto> ?z)" ?z] assms(4) local by simp
    ultimately show ?thesis
      using n(1) assms(7)
      by (simp add: gc_register_candidate_def syli_object_of_obj_ptr_def Let_def on_heap_def
          flip: assms(3))
  qed
  have y: "obj_flag Meta_Flags_Cyclic_Candidate ?y" "obj_indexed ?y" "obj_index ?y = of_nat (length ?cs)"
    and rc: "obj_rc ?y = obj_rc x"
    using assms(5) obj_flag_set_flag(1) [OF candidate_bit_in candidate_bit_in, of ?z]
      obj_rc_set_flag(1) [OF candidate_bit_in, of ?z]
    by (simp_all add: obj_indexed_def)
  have old: "registry_entry (?h(q \<mapsto> ?y)) i (?cs ! i)" if "i < length ?cs" for i
    using registry_entryD [OF assms(1) that] assms(2,6) by (auto simp: registry_entry_def)
  have new: "registry_entry (?h(q \<mapsto> ?y)) (length ?cs) p"
    using assms(3,4,7) y n(2) by (simp add: registry_entry_def)
  have "registry_inv (?h(q \<mapsto> ?y)) (?cs @ [p])"
    unfolding registry_inv_def
  proof (intro conjI allI impI)
    show "length (?cs @ [p]) < 2 ^ 64" using assms(7) by simp
    show "registry_entry (?h(q \<mapsto> ?y)) i ((?cs @ [p]) ! i)" if "i < length (?cs @ [p])" for i
      using that old new by (cases "i < length ?cs") (auto simp: nth_append less_Suc_eq)
    show "\<exists>i<length (?cs @ [p]). syli_ownership_untag ((?cs @ [p]) ! i) = r"
      if "(?h(q \<mapsto> ?y)) r = Some z" "obj_flag Meta_Flags_Cyclic_Candidate z" for r z
    proof (cases "r = q")
      case True
      then show ?thesis using assms(3) by (intro exI [of _ "length ?cs"]) simp
    next
      case False
      then have "?h r = Some z" using that by simp
      from registry_position(3,4) [OF assms(1) this that(2)]
      show ?thesis by (intro exI [of _ "unat (obj_index z)"]) (simp add: nth_append)
    qed
  qed
  with run rc show ?thesis by (intro exI [of _ ?y] conjI exI [of _ "of_nat (length ?cs)"]) simp_all
qed

section \<open>Removal\<close>

text \<open>Two heaps that differ in stored candidate indices only.\<close>

definition same_but_index :: "heap \<Rightarrow> heap \<Rightarrow> bool" where
  "same_but_index h h' \<longleftrightarrow> dom h' = dom h \<and>
     (\<forall>p x. h p = Some x \<longrightarrow> h' p = Some x \<or> (\<exists>i. obj_indexed x \<and> h' p = Some (set_index i x)))"

lemma same_but_index_refl: "same_but_index h h"
  by (simp add: same_but_index_def)

lemma same_but_index_upd:
  "h p = Some x \<Longrightarrow> obj_indexed x \<Longrightarrow> same_but_index h (h(p \<mapsto> set_index i x))"
  by (auto simp: same_but_index_def)

lemma butlast_swap_nth:
  assumes "j < length cs - 1" and "i < length cs"
  shows "butlast (cs[i := last cs]) ! j = (if j = i then last cs else cs ! j)"
  using assms by (simp add: nth_butlast nth_list_update)

text \<open>The last entry takes the place of the entry \<open>i\<close> of \<open>q\<close>; \<open>m\<close> is the object of the last entry.\<close>

lemma registry_last:
  assumes inv: "registry_inv h cs" and q: "h q = Some x" "obj_flag Meta_Flags_Cyclic_Candidate x"
    and i: "i = unat (obj_index x)" and m: "m = syli_ownership_untag (last cs)"
  shows "i < length cs" and "syli_ownership_untag (cs ! i) = q" and "m = syli_ownership_untag (cs ! (length cs - 1))"
    and "m = q \<longleftrightarrow> i = length cs - 1" and "unat (of_nat i :: u64) = i"
    and "\<exists>xm. h m = Some xm \<and> obj_indexed xm \<and> m \<noteq> 0 \<and> obj_flag Meta_Flags_Cyclic_Candidate xm"
    and "j < length cs - 1 \<Longrightarrow> j \<noteq> i \<Longrightarrow> syli_ownership_untag (cs ! j) \<noteq> q \<and> syli_ownership_untag (cs ! j) \<noteq> m"
proof -
  let ?n = "length cs"
  note pos = registry_position [OF inv q, folded i]
  show p: "i < ?n" "syli_ownership_untag (cs ! i) = q" by (rule pos)+
  have ne: "cs \<noteq> []" and n: "?n < 2 ^ 64" using pos(3) inv by (auto simp: registry_inv_def)
  then have lt: "?n - 1 < ?n" by simp
  show m': "m = syli_ownership_untag (cs ! (?n - 1))" by (simp only: m last_conv_nth [OF ne])
  show "m = q \<longleftrightarrow> i = ?n - 1" using registry_distinct [OF inv p(1) lt] p(2) m' by metis
  show "unat (of_nat i :: u64) = i" using p(1) n by (simp add: unsigned_of_nat take_bit_nat_eq_self)
  show "\<exists>xm. h m = Some xm \<and> obj_indexed xm \<and> m \<noteq> 0 \<and> obj_flag Meta_Flags_Cyclic_Candidate xm"
    using registry_entryD [OF inv lt] unfolding registry_entry_def m' [symmetric] by blast
  show "syli_ownership_untag (cs ! j) \<noteq> q \<and> syli_ownership_untag (cs ! j) \<noteq> m" if "j < ?n - 1" "j \<noteq> i"
    using registry_distinct [OF inv _ p(1), of j] registry_distinct [OF inv _ lt, of j] that p(2) m' by fastforce
qed

lemma registry_remove_inv:
  assumes inv: "registry_inv h cs" and q: "h q = Some x" "obj_flag Meta_Flags_Cyclic_Candidate x"
    and i: "i = unat (obj_index x)" and m: "m = syli_ownership_untag (last cs)"
    and h': "h' = (if i = length cs - 1 then h else h(m \<mapsto> set_index (of_nat i) (the (h m))))"
  shows "registry_inv (h'(q := None)) (butlast (cs[i := last cs]))"
    and "h' q = Some x" and "same_but_index h h'"
proof -
  let ?n = "length cs" and ?cs = "butlast (cs[i := last cs])"
  note R = registry_last [OF inv q i m]
  obtain xm where xm: "h m = Some xm" "obj_indexed xm" "m \<noteq> 0" "obj_flag Meta_Flags_Cyclic_Candidate xm"
    using R(6) by blast
  show hq: "h' q = Some x" using q R(4) h' by auto
  show "same_but_index h h'"
    using xm(1,2) same_but_index_upd [of h m xm] by (simp add: h' same_but_index_refl)
  have entry: "registry_entry (h'(q := None)) j (?cs ! j)" if j: "j < ?n - 1" for j
  proof (cases "j = i")
    case True
    then have "i \<noteq> ?n - 1" "m \<noteq> q" using j R(4) by simp_all
    then show ?thesis
      using j R(1,5) xm
      by (simp add: butlast_swap_nth True registry_entry_def h' obj_indexed_def flip: m)
  next
    case False
    then show ?thesis
      using registry_entryD [OF inv, of j] j R(1) R(7) [OF j False]
      by (simp add: butlast_swap_nth registry_entry_def h')
  qed
  have flagged: "\<exists>j < ?n - 1. syli_ownership_untag (?cs ! j) = r"
    if r: "r \<noteq> q" "h' r = Some y" "obj_flag Meta_Flags_Cyclic_Candidate y" for r y
  proof (cases "r = m")
    case True
    then have "i < ?n - 1" using r(1) R(1,4) by simp
    then show ?thesis using True R(1) m by (intro exI [of _ i]) (simp add: butlast_swap_nth)
  next
    case False
    then have hr: "h r = Some y" using r(2) by (simp add: h' split: if_splits)
    note p = registry_position [OF inv hr r(3)]
    have "unat (obj_index y) \<noteq> ?n - 1" using p(4) False R(3) by metis
    moreover have "unat (obj_index y) \<noteq> i" using p(4) r(1) R(2) by auto
    ultimately show ?thesis using p(3,4) R(1)
      by (intro exI [of _ "unat (obj_index y)"]) (simp add: butlast_swap_nth)
  qed
  have "length cs < 2 ^ 64" using inv by (simp add: registry_inv_def)
  then have "length ?cs < 2 ^ 64" by simp
  with entry flagged show "registry_inv (h'(q := None)) ?cs"
    by (simp add: registry_inv_def)
qed

lemma gc_remove_candidate_at_spec:
  assumes inv: "registry_inv (gc_heap s) (cyclic_candidates s)"
    and q: "gc_heap s q = Some x" "obj_flag Meta_Flags_Cyclic_Candidate x"
  shows "\<exists>h' cs'. gc_remove_candidate_at (obj_index x) s
           = Inr (s\<lparr>gc_heap := h', cyclic_candidates := cs'\<rparr>)
     \<and> registry_inv (h'(q := None)) cs' \<and> h' q = Some x \<and> same_but_index (gc_heap s) h'
     \<and> cs' = butlast ((cyclic_candidates s)[unat (obj_index x) := last (cyclic_candidates s)])"
proof -
  let ?h = "gc_heap s" and ?cs = "cyclic_candidates s" and ?i = "unat (obj_index x)"
  let ?n = "length ?cs" and ?m = "syli_ownership_untag (last ?cs)"
  let ?h' = "if ?i = ?n - 1 then ?h else ?h(?m \<mapsto> set_index (of_nat ?i) (the (?h ?m)))"
  note pos = registry_position [OF inv q]
  have n: "?n < 2 ^ 64" using inv by (simp add: registry_inv_def)
  obtain k where k: "?n = Suc k" using pos(3) by (cases ?n) auto
  have kw: "unat (of_nat k :: u64) = k" "(of_nat ?n - 1 :: u64) = of_nat k"
    using n of_nat_last_index(1) [of k] by (simp_all add: k unsigned_of_nat take_bit_nat_eq_self)
  have last_nth: "last ?cs = ?cs ! k" using k last_conv_nth [of ?cs] by fastforce
  have idx: "(obj_index x \<noteq> of_nat k) = (?i \<noteq> k)"
    using kw(1) by (metis word_unat_eq_iff)
  obtain xm where xm: "?h ?m = Some xm" "obj_indexed xm" "?m \<noteq> 0"
    using registry_entryD [OF inv, of k] k by (auto simp: registry_entry_def last_nth)
  have run: "gc_remove_candidate_at (obj_index x) s
      = Inr (s\<lparr>gc_heap := ?h', cyclic_candidates := butlast (?cs[?i := last ?cs])\<rparr>)"
  proof (cases "?i = k")
    case True
    then show ?thesis
      using idx kw(2) k by (simp add: gc_remove_candidate_at_def Let_def last_nth)
  next
    case False
    have "syli_object_set_candidate_index ?m (obj_index x) ?h = Inr (?h(?m \<mapsto> set_index (obj_index x) xm))"
      using candidate_index_ops(1) [of ?m ?h xm] xm by simp
    then show ?thesis
      using idx kw False k pos(3) xm(1)
      by (simp add: gc_remove_candidate_at_def Let_def candidate_at_def last_nth on_heap_def
          syli_object_of_obj_ptr_def)
  qed
  from registry_remove_inv [OF inv q refl refl refl] run show ?thesis by blast
qed

lemma same_but_index_dom: "same_but_index h h' \<Longrightarrow> h' p = None \<longleftrightarrow> h p = None"
  unfolding same_but_index_def by (metis domIff)

lemma same_but_index_someD:
  assumes "same_but_index h h'" and "h' p = Some y"
  obtains x i where "h p = Some x" and "y = x \<or> (obj_indexed x \<and> y = set_index i x)"
proof -
  obtain x where x: "h p = Some x" using same_but_index_dom [OF assms(1), of p] assms(2) by fastforce
  then have "y = x \<or> (\<exists>i. obj_indexed x \<and> y = set_index i x)"
    using assms unfolding same_but_index_def by fastforce
  with x that show thesis by blast
qed

lemma same_but_index_delete: "same_but_index h h' \<Longrightarrow> same_but_index (h(q := None)) (h'(q := None))"
  by (simp add: same_but_index_def)

lemma total_bytes_total: "\<exists>n. syli_object_total_bytes hw = Inr n"
proof -
  obtain n where "syli_object_length hw = Inr n" by (rule syli_object_length_total)
  then show ?thesis by (simp add: syli_object_total_bytes_def syli_object_size_bytes_def Let_def)
qed

lemma gc_account_cyclic_free_spec:
  assumes "q \<noteq> 0" and "gc_heap s q = Some x"
  shows "\<exists>m n. gc_account_cyclic_free q s = Inr (s\<lparr>cyclic_mem_dealloc := m, cyclic_obj_dealloc := n\<rparr>)"
proof -
  obtain b where "syli_object_total_bytes (header_word x) = Inr b"
    using total_bytes_total by blast
  then have "gc_account_cyclic_free q s =
      (if syli_object_is_cyclic (header_word x)
       then Inr (s\<lparr>cyclic_mem_dealloc := cyclic_mem_dealloc s + b,
                   cyclic_obj_dealloc := cyclic_obj_dealloc s + 1\<rparr>)
       else Inr (s\<lparr>cyclic_mem_dealloc := cyclic_mem_dealloc s,
                   cyclic_obj_dealloc := cyclic_obj_dealloc s\<rparr>))"
    using assms by (simp add: gc_account_cyclic_free_def deref_live)
  then show ?thesis by (cases "syli_object_is_cyclic (header_word x)") (simp only: if_True if_False, blast)+
qed

text \<open>The first half of \<open>free_released_object\<close>: the object leaves the registry.\<close>

lemma unregister_spec:
  assumes inv: "registry_inv (gc_heap s) (cyclic_candidates s)"
    and q: "q \<noteq> 0" "gc_heap s q = Some x" "obj_local x"
  shows "\<exists>h1 cs y. and_then (syli_object_has_flags q Meta_Flags_Cyclic_Candidate (gc_heap s)) (\<lambda>candidate.
        if candidate then
          and_then (syli_object_get_candidate_index q (gc_heap s)) (\<lambda>index.
          and_then (gc_remove_candidate_at index s)
            (on_heap (syli_object_clear_flags q Meta_Flags_Cyclic_Candidate)))
        else Inr s) = Inr (s\<lparr>gc_heap := h1(q \<mapsto> y), cyclic_candidates := cs\<rparr>)
     \<and> same_but_index (gc_heap s) h1 \<and> registry_inv (h1(q := None)) cs
     \<and> obj_value y = obj_value x \<and> header_word y = header_word x \<and> obj_rc y = obj_rc x
     \<and> \<not> obj_flag Meta_Flags_Cyclic_Candidate y
     \<and> (\<forall>(f, k) \<in> meta_bits. f \<noteq> Meta_Flags_Cyclic_Candidate \<longrightarrow> obj_flag f y = obj_flag f x)"
proof (cases "obj_flag Meta_Flags_Cyclic_Candidate x")
  case False
  have "registry_inv ((gc_heap s)(q := None)) (cyclic_candidates s)"
    by (rule registry_inv_frame [OF inv]) (use False q(2) in \<open>auto split: if_splits\<close>)
  moreover have "(gc_heap s)(q \<mapsto> x) = gc_heap s" using q(2) by (rule map_upd_triv)
  ultimately show ?thesis
    using False q object_ops_local(3) [of q "gc_heap s" x]
    by (intro exI [of _ "gc_heap s"] exI [of _ "cyclic_candidates s"] exI [of _ x])
      (simp add: same_but_index_refl)
next
  case True
  let ?y = "set_meta (meta_ref_count x AND NOT Meta_Flags_Cyclic_Candidate) x"
  obtain h1 cs where r: "gc_remove_candidate_at (obj_index x) s
      = Inr (s\<lparr>gc_heap := h1, cyclic_candidates := cs\<rparr>)"
    "registry_inv (h1(q := None)) cs" "h1 q = Some x" "same_but_index (gc_heap s) h1"
    using gc_remove_candidate_at_spec [OF inv q(2) True] by blast
  have "syli_object_has_flags q Meta_Flags_Cyclic_Candidate (gc_heap s) = Inr True"
    using object_ops_local(3) [of q "gc_heap s" x] q True by simp
  moreover have "syli_object_get_candidate_index q (gc_heap s) = Inr (obj_index x)"
    using candidate_index_ops(2) [of q "gc_heap s" x] q registry_position(2) [OF inv q(2) True] by simp
  moreover have "syli_object_clear_flags q Meta_Flags_Cyclic_Candidate h1 = Inr (h1(q \<mapsto> ?y))"
    using object_ops_local(2) [of q h1 x] q(1,3) r(3) by simp
  moreover have "\<forall>(f, k) \<in> meta_bits. f \<noteq> Meta_Flags_Cyclic_Candidate \<longrightarrow> obj_flag f ?y = obj_flag f x"
    using obj_flag_set_flag(2) [OF candidate_bit_in] by blast
  ultimately show ?thesis
    using r(1,2,4) obj_flag_set_flag(2) [OF candidate_bit_in candidate_bit_in, of x]
      obj_rc_set_flag(2) [OF candidate_bit_in, of x]
    by (intro exI [of _ h1] exI [of _ cs] exI [of _ ?y]) (simp add: on_heap_def)
qed

lemma free_released_object_spec:
  assumes inv: "registry_inv (gc_heap s) (cyclic_candidates s)"
    and q: "q \<noteq> 0" "gc_heap s q = Some x" "obj_local x"
  shows "\<exists>h1 h' cs t m n. free_released_object q s
        = Inr (s\<lparr>gc_heap := h', cyclic_candidates := cs, total_objects_freed := t,
                cyclic_mem_dealloc := m, cyclic_obj_dealloc := n\<rparr>)
     \<and> same_but_index (gc_heap s) h1 \<and> registry_inv (h1(q := None)) cs \<and> registry_inv h' cs
     \<and> (if obj_flag Meta_Flags_Tracing x
        then t = total_objects_freed s \<and> (\<exists>y. h' = h1(q \<mapsto> y) \<and> obj_value y = obj_value x
               \<and> header_word y = header_word x \<and> obj_rc y = obj_rc x
               \<and> \<not> obj_flag Meta_Flags_Cyclic_Candidate y \<and> obj_flag Meta_Flags_Waiting_Remove y
               \<and> obj_flag Meta_Flags_Tracing y
               \<and> obj_flag Meta_Flags_Children_Released y = obj_flag Meta_Flags_Children_Released x)
        else t = total_objects_freed s + 1 \<and> h' = h1(q := None))"
proof -
  obtain h1 cs y where u: "and_then (syli_object_has_flags q Meta_Flags_Cyclic_Candidate (gc_heap s)) (\<lambda>candidate.
        if candidate then
          and_then (syli_object_get_candidate_index q (gc_heap s)) (\<lambda>index.
          and_then (gc_remove_candidate_at index s)
            (on_heap (syli_object_clear_flags q Meta_Flags_Cyclic_Candidate)))
        else Inr s) = Inr (s\<lparr>gc_heap := h1(q \<mapsto> y), cyclic_candidates := cs\<rparr>)"
    and sbi: "same_but_index (gc_heap s) h1" and reg: "registry_inv (h1(q := None)) cs"
    and y: "obj_value y = obj_value x" "header_word y = header_word x" "obj_rc y = obj_rc x"
      "\<not> obj_flag Meta_Flags_Cyclic_Candidate y"
      "\<forall>(f, k) \<in> meta_bits. f \<noteq> Meta_Flags_Cyclic_Candidate \<longrightarrow> obj_flag f y = obj_flag f x"
    using unregister_spec [OF assms] by blast
  let ?s1 = "s\<lparr>gc_heap := h1(q \<mapsto> y), cyclic_candidates := cs\<rparr>"
  have yl: "obj_local y" using q(3) y(2) by (simp add: obj_local_def)
  have yf: "obj_flag Meta_Flags_Tracing y = obj_flag Meta_Flags_Tracing x"
    "obj_flag Meta_Flags_Children_Released y = obj_flag Meta_Flags_Children_Released x"
    using y(5) tracing_bit_in released_bit_in flags_distinct by fastforce+
  have tr: "syli_object_has_flags q Meta_Flags_Tracing (h1(q \<mapsto> y)) = Inr (obj_flag Meta_Flags_Tracing x)"
    using object_ops_local(3) [of q "h1(q \<mapsto> y)" y] q(1) yl yf(1) by simp
  show ?thesis
  proof (cases "obj_flag Meta_Flags_Tracing x")
    case True
    let ?z = "set_meta (meta_ref_count y OR Meta_Flags_Waiting_Remove) y"
    have "syli_object_set_flags q Meta_Flags_Waiting_Remove (h1(q \<mapsto> y)) = Inr (h1(q \<mapsto> ?z))"
      using object_ops_local(1) [of q "h1(q \<mapsto> y)" y] q(1) yl by simp
    then have run: "free_released_object q s = Inr (s\<lparr>gc_heap := h1(q \<mapsto> ?z), cyclic_candidates := cs\<rparr>)"
      using tr True unfolding free_released_object_def u by (simp add: on_heap_def)
    have z: "obj_flag Meta_Flags_Waiting_Remove ?z" "obj_flag Meta_Flags_Tracing ?z"
      "\<not> obj_flag Meta_Flags_Cyclic_Candidate ?z" "obj_rc ?z = obj_rc x"
      "obj_flag Meta_Flags_Children_Released ?z = obj_flag Meta_Flags_Children_Released x"
      using True yf y(3,4) by (simp_all add: flag_updates)
    have "registry_inv (h1(q \<mapsto> ?z)) cs"
      by (rule registry_inv_frame [OF reg]) (use z(3) in \<open>auto split: if_splits\<close>)
    with run z y reg sbi True show ?thesis
      by - (rule exI [of _ h1], rule exI [of _ "h1(q \<mapsto> ?z)"], rule exI [of _ cs],
          rule exI [of _ "total_objects_freed s"], rule exI [of _ "cyclic_mem_dealloc s"],
          rule exI [of _ "cyclic_obj_dealloc s"], auto)
  next
    case False
    let ?s2 = "?s1\<lparr>total_objects_freed := total_objects_freed s + 1\<rparr>"
    obtain m n where acc: "gc_account_cyclic_free q ?s2
        = Inr (?s2\<lparr>cyclic_mem_dealloc := m, cyclic_obj_dealloc := n\<rparr>)"
      using gc_account_cyclic_free_spec [of q ?s2 y] q(1) by auto
    have "free_released_object q s = Inr (s\<lparr>gc_heap := h1(q := None), cyclic_candidates := cs,
        total_objects_freed := total_objects_freed s + 1, cyclic_mem_dealloc := m, cyclic_obj_dealloc := n\<rparr>)"
      using tr False acc q(1) unfolding free_released_object_def u
      by (simp add: Let_def on_heap_def free_block_def)
    with reg sbi False show ?thesis
      by - (rule exI [of _ h1], rule exI [of _ "h1(q := None)"], rule exI [of _ cs],
          rule exI [of _ "total_objects_freed s + 1"], rule exI [of _ m], rule exI [of _ n], simp)
  qed
qed

section \<open>Properties\<close>

text \<open>Registering a candidate keeps the registry invariant, adds the object at the end, and is idempotent: a second registration changes
  nothing.\<close>

lemma register_keeps_registry:
  assumes "registry_inv (gc_heap s) (cyclic_candidates s)"
    and "gc_heap s (syli_ownership_untag p) = Some x" and "syli_ownership_untag p \<noteq> 0"
    and "obj_indexed x" and "\<not> obj_flag Meta_Flags_Cyclic_Candidate x"
    and "length (cyclic_candidates s) + 1 < 2 ^ 64"
  shows "\<exists>s'. gc_register_candidate p s = Inr s'
     \<and> registry_inv (gc_heap s') (cyclic_candidates s')
     \<and> cyclic_candidates s' = cyclic_candidates s @ [p]
     \<and> gc_register_candidate p s' = Inr s'"
proof -
  obtain y where y: "gc_register_candidate p s = Inr (s\<lparr>gc_heap := (gc_heap s)(syli_ownership_untag p \<mapsto> y),
        cyclic_candidates := cyclic_candidates s @ [p]\<rparr>)"
      "header_word y = header_word x" 
      "registry_inv ((gc_heap s)(syli_ownership_untag p \<mapsto> y)) (cyclic_candidates s @ [p])"
    using gc_register_candidate_spec [OF assms(1,2) refl assms(3-6)] by blast
  let ?h = "(gc_heap s)(syli_ownership_untag p \<mapsto> y)" and ?cs = "cyclic_candidates s @ [p]"
  have "registry_entry ?h (length (cyclic_candidates s)) p"
    using registry_entryD [OF y(3), of "length (cyclic_candidates s)"] by simp
  then have "obj_flag Meta_Flags_Cyclic_Candidate y" "obj_local y"
    by (auto simp: registry_entry_def obj_indexed_def)
  then have "syli_object_has_flags (syli_ownership_untag p) Meta_Flags_Cyclic_Candidate ?h = Inr True"
    using object_ops_local(3) [of "syli_ownership_untag p" ?h y] assms(3) by simp
  then have "gc_register_candidate p (s\<lparr>gc_heap := ?h, cyclic_candidates := ?cs\<rparr>)
      = Inr (s\<lparr>gc_heap := ?h, cyclic_candidates := ?cs\<rparr>)"
    by (simp add: gc_register_candidate_def syli_object_of_obj_ptr_def)
  with y show ?thesis by (intro exI [of _ "s\<lparr>gc_heap := ?h, cyclic_candidates := ?cs\<rparr>"]) simp
qed

text \<open>A two-cell mutable-cyclic object, at address 8, pointing at itself.\<close>

definition loop_object :: gc_object where
  "loop_object = \<lparr>header_word = cons_header, meta_ref_count = 1, obj_value = [9, 0, 0]\<rparr>"

lemma loop_object_facts:
  "obj_indexed loop_object" "\<not> obj_flag Meta_Flags_Cyclic_Candidate loop_object" "obj_local loop_object"
  "\<not> obj_flag Meta_Flags_Tracing loop_object" "obj_rc loop_object = 1"
  using cons_header_fields
  by (simp_all add: loop_object_def obj_indexed_def obj_local_def obj_len_def obj_flag_def obj_rc_def
      Meta_Flags_Cyclic_Candidate_def Meta_Flags_Tracing_def REFCOUNT_MASK_def)

definition loop_state :: Syli_state where
  "loop_state = zero_state [8 \<mapsto> loop_object]"

lemma loop_state_inv: "registry_inv (gc_heap loop_state) (cyclic_candidates loop_state)"
  using loop_object_facts(2)
  by (auto simp: registry_inv_def loop_state_def zero_state_def split: if_splits)

lemma untag_9: "syli_ownership_untag 9 = 8"
  by (simp add: syli_ownership_untag_def tag_defs)

text \<open>Freeing a released object keeps the registry invariant and leaves no entry for the
  object, whatever its position was (the last entry takes its place and learns its new
  index). The object's block is freed, unless the tracing worklist still holds it: then it
  stays allocated, flagged \<open>Meta_Flags_Waiting_Remove\<close>. Every other object keeps
  everything but its stored index.\<close>

lemma free_keeps_registry:
  assumes "registry_inv (gc_heap s) (cyclic_candidates s)"
    and "q \<noteq> 0" and "gc_heap s q = Some x" and "obj_local x"
  shows "\<exists>s'. free_released_object q s = Inr s'
     \<and> registry_inv (gc_heap s') (cyclic_candidates s')
     \<and> (\<forall>p \<in> set (cyclic_candidates s'). syli_ownership_untag p \<noteq> q)
     \<and> (\<not> obj_flag Meta_Flags_Tracing x \<longrightarrow>
          gc_heap s' q = None \<and> total_objects_freed s' = total_objects_freed s + 1)
     \<and> (obj_flag Meta_Flags_Tracing x \<longrightarrow>
          (\<exists>y. gc_heap s' q = Some y \<and> obj_flag Meta_Flags_Waiting_Remove y)
          \<and> total_objects_freed s' = total_objects_freed s)
     \<and> same_but_index ((gc_heap s)(q := None)) ((gc_heap s')(q := None))"
proof -
  obtain h1 h' cs t m n where r: "free_released_object q s
        = Inr (s\<lparr>gc_heap := h', cyclic_candidates := cs, total_objects_freed := t,
                cyclic_mem_dealloc := m, cyclic_obj_dealloc := n\<rparr>)"
    and f: "same_but_index (gc_heap s) h1" "registry_inv (h1(q := None)) cs" "registry_inv h' cs"
      "if obj_flag Meta_Flags_Tracing x
        then t = total_objects_freed s \<and> (\<exists>y. h' = h1(q \<mapsto> y) \<and> obj_value y = obj_value x
               \<and> header_word y = header_word x \<and> obj_rc y = obj_rc x
               \<and> \<not> obj_flag Meta_Flags_Cyclic_Candidate y \<and> obj_flag Meta_Flags_Waiting_Remove y
               \<and> obj_flag Meta_Flags_Tracing y
               \<and> obj_flag Meta_Flags_Children_Released y = obj_flag Meta_Flags_Children_Released x)
        else t = total_objects_freed s + 1 \<and> h' = h1(q := None)"
    using free_released_object_spec [OF assms] by blast
  have gone: "syli_ownership_untag p \<noteq> q" if p: "p \<in> set cs" for p
  proof -
    obtain i where "i < length cs" "cs ! i = p" using p by (auto simp: in_set_conv_nth)
    with registry_entryD [OF f(2), of i] show ?thesis by (auto simp: registry_entry_def)
  qed
  have "h'(q := None) = h1(q := None)" using f(4) by (auto split: if_splits)
  with same_but_index_delete [OF f(1), of q]
  have same: "same_but_index ((gc_heap s)(q := None)) (h'(q := None))" by simp
  show ?thesis
    by (rule exI, rule conjI, rule r) (use f(3,4) gone same in \<open>auto split: if_splits\<close>)
qed

text \<open>C23: the registry of candidates is kept in step with the objects: every entry's object stores
  the position of its entry, and the flagged objects are exactly those with an entry.
  Registering an object that is not a candidate succeeds, adds it at the end, and a second
  registration changes nothing. Freeing a released object removes its entry wherever it is
  (the last entry takes its place and learns its new index), frees the block unless the
  tracing worklist still holds it, and leaves everything else but stored indices alone.\<close>

theorem registry_kept:
  assumes "registry_inv (gc_heap s) (cyclic_candidates s)"
    and "gc_heap s (syli_ownership_untag p) = Some x" and "syli_ownership_untag p \<noteq> 0" and "obj_local x"
  shows "(obj_indexed x \<and> \<not> obj_flag Meta_Flags_Cyclic_Candidate x \<and> length (cyclic_candidates s) + 1 < 2 ^ 64 \<longrightarrow>
       (\<exists>s'. gc_register_candidate p s = Inr s' \<and> registry_inv (gc_heap s') (cyclic_candidates s')
          \<and> cyclic_candidates s' = cyclic_candidates s @ [p] \<and> gc_register_candidate p s' = Inr s'))
     \<and> (\<exists>s'. free_released_object (syli_ownership_untag p) s = Inr s' \<and> registry_inv (gc_heap s') (cyclic_candidates s')
          \<and> (\<forall>v \<in> set (cyclic_candidates s'). syli_ownership_untag v \<noteq> syli_ownership_untag p)
          \<and> (if obj_flag Meta_Flags_Tracing x
             then (\<exists>y. gc_heap s' (syli_ownership_untag p) = Some y \<and> obj_flag Meta_Flags_Waiting_Remove y)
               \<and> total_objects_freed s' = total_objects_freed s
             else gc_heap s' (syli_ownership_untag p) = None \<and> total_objects_freed s' = total_objects_freed s + 1)
          \<and> same_but_index ((gc_heap s)(syli_ownership_untag p := None)) ((gc_heap s')(syli_ownership_untag p := None)))"
proof (intro conjI impI)
  assume "obj_indexed x \<and> \<not> obj_flag Meta_Flags_Cyclic_Candidate x \<and> length (cyclic_candidates s) + 1 < 2 ^ 64"
  with register_keeps_registry [OF assms(1-3)]
  show "\<exists>s'. gc_register_candidate p s = Inr s' \<and> registry_inv (gc_heap s') (cyclic_candidates s')
     \<and> cyclic_candidates s' = cyclic_candidates s @ [p] \<and> gc_register_candidate p s' = Inr s'" by blast
next
  obtain s' where F: "free_released_object (syli_ownership_untag p) s = Inr s'"
    "registry_inv (gc_heap s') (cyclic_candidates s')"
    "\<forall>v \<in> set (cyclic_candidates s'). syli_ownership_untag v \<noteq> syli_ownership_untag p"
    "\<not> obj_flag Meta_Flags_Tracing x \<longrightarrow> gc_heap s' (syli_ownership_untag p) = None
       \<and> total_objects_freed s' = total_objects_freed s + 1"
    "obj_flag Meta_Flags_Tracing x \<longrightarrow> (\<exists>y. gc_heap s' (syli_ownership_untag p) = Some y
       \<and> obj_flag Meta_Flags_Waiting_Remove y) \<and> total_objects_freed s' = total_objects_freed s"
    "same_but_index ((gc_heap s)(syli_ownership_untag p := None)) ((gc_heap s')(syli_ownership_untag p := None))"
    using free_keeps_registry [OF assms(1,3,2,4)] by blast
  show "\<exists>s'. free_released_object (syli_ownership_untag p) s = Inr s' \<and> registry_inv (gc_heap s') (cyclic_candidates s')
     \<and> (\<forall>v \<in> set (cyclic_candidates s'). syli_ownership_untag v \<noteq> syli_ownership_untag p)
     \<and> (if obj_flag Meta_Flags_Tracing x
        then (\<exists>y. gc_heap s' (syli_ownership_untag p) = Some y \<and> obj_flag Meta_Flags_Waiting_Remove y)
          \<and> total_objects_freed s' = total_objects_freed s
        else gc_heap s' (syli_ownership_untag p) = None \<and> total_objects_freed s' = total_objects_freed s + 1)
     \<and> same_but_index ((gc_heap s)(syli_ownership_untag p := None)) ((gc_heap s')(syli_ownership_untag p := None))"
    using F by (intro exI [of _ s'] conjI; simp)
qed

theorem registry_kept_witness:
  "(\<exists>s'. gc_register_candidate 9 loop_state = Inr s' \<and> cyclic_candidates s' = [9])
   \<and> (\<exists>s'. free_released_object 8 loop_state = Inr s' \<and> gc_heap s' 8 = None \<and> total_objects_freed s' = 1)"
proof -
  have "gc_heap loop_state (syli_ownership_untag 9) = Some loop_object" "cyclic_candidates loop_state = []"
    "total_objects_freed loop_state = 0"
    by (simp_all add: loop_state_def zero_state_def untag_9)
  with registry_kept [OF loop_state_inv, of 9 loop_object] loop_object_facts(1-4) show ?thesis by (auto simp: untag_9)
qed

end
