(* ===== verification/Worklists.thy ===== *)
theory Worklists
  imports ChunkVector GcHelpers
begin

text \<open>
  The worklists and the registry of candidates on the chunk vectors that hold them. The state
  of the other theories keeps lists in their place; here the vector operations that
  \<open>gc_helpers.h\<close> composes are defined on \<open>chunk_vector\<close>, and proved to do on \<open>cv_list\<close> what the
  helpers do on those lists. Both are implementations of the contract \<open>vector_impl\<close>.
\<close>

section \<open>The compositions of \<open>gc_helpers.h\<close>\<close>

text \<open>\<open>gc_vector_push_back\<close>: the slot is written without a test for \<open>NULL\<close>.\<close>

definition worklist_push ::
    "nat \<Rightarrow> bool \<Rightarrow> 'a list option \<Rightarrow> 'a chunk_vector \<Rightarrow> 'a \<Rightarrow> 'a chunk_vector result" where
  "worklist_push cs realloc_ok fresh vector obj =
     and_then (vector_alloc_slot cs realloc_ok fresh vector) (\<lambda>(slot, vector).
       case slot of None \<Rightarrow> Inl NullPointer | Some p \<Rightarrow> vector_store p obj vector)"

definition worklist_pop :: "nat \<Rightarrow> 'a chunk_vector \<Rightarrow> ('a \<times> 'a chunk_vector) result" where
  "worklist_pop cs vector =
     check (0 < vector_size vector)
     (and_then (vector_back cs vector) (\<lambda>back.
       case back of None \<Rightarrow> Inl NullPointer
       | Some p \<Rightarrow> and_then (vector_load vector p) (\<lambda>obj. Inr (obj, vector_pop_back cs vector))))"

text \<open>The reads of the registry: \<open>*vector_at(vector, index)\<close>.\<close>

definition registry_at :: "nat \<Rightarrow> u64 \<Rightarrow> 'a chunk_vector \<Rightarrow> 'a result" where
  "registry_at cs index vector =
     and_then (vector_at cs vector index) (\<lambda>data.
       case data of None \<Rightarrow> Inl NullPointer | Some p \<Rightarrow> vector_load vector p)"

text \<open>The vector part of \<open>gc_remove_candidate_at\<close>; the result is the entry that has moved.\<close>

definition registry_remove :: "nat \<Rightarrow> u64 \<Rightarrow> 'a chunk_vector \<Rightarrow> ('a option \<times> 'a chunk_vector) result" where
  "registry_remove cs index vector =
     (let last_i = vector_size vector - 1 in
      if index \<noteq> last_i then
        and_then (vector_at cs vector index) (\<lambda>data.
        and_then (vector_at cs vector last_i) (\<lambda>last_data.
        case (data, last_data) of
          (Some p, Some q) \<Rightarrow>
            and_then (vector_load vector q) (\<lambda>x.
            and_then (vector_store p x vector) (\<lambda>vector.
            Inr (Some x, vector_pop_back cs vector)))
        | _ \<Rightarrow> Inl NullPointer))
      else Inr (None, vector_pop_back cs vector))"

section \<open>Lists as vectors\<close>

text \<open>The lists of \<open>Syli_state\<close> meet the same contract as the chunk vectors, whatever the
  environment of a push.\<close>

interpretation list_vector: vector_impl
  "\<lambda>xs. xs" "\<lambda>_. True" "\<lambda>_ _. True" "\<lambda>_ x xs. Inr (gc_vector_push_back xs x)" butlast
  "\<lambda>i xs. if i < length xs then Inr (xs ! i) else Inl NullPointer"
  "\<lambda>i x xs. if i < length xs then Inr (xs[i := x]) else Inl NullPointer" length
  by unfold_locales (simp_all add: gc_vector_push_back_def)

lemma worklist_push_appends:
  assumes "cv_wf cs cv" and "grow_ready cs realloc_ok fresh cv"
  shows "\<exists>cv'. worklist_push cs realloc_ok fresh cv x = Inr cv' \<and> cv_wf cs cv' \<and> cv_list cs cv' = cv_list cs cv @ [x]"
proof -
  obtain slot cv1 cv2 where "vector_alloc_slot cs realloc_ok fresh cv = Inr (Some slot, cv1)"
    "vector_store slot x cv1 = Inr cv2" "cv_wf cs cv2" "cv_list cs cv2 = cv_list cs cv @ [x]"
    using alloc_slot_store [OF assms] by blast
  then show ?thesis by (simp add: worklist_push_def)
qed

interpretation worklist: vector_impl
  "cv_list cs" "cv_wf cs" "\<lambda>(r, f). grow_ready cs r f" "\<lambda>(r, f) x v. worklist_push cs r f v x"
  "vector_pop_back cs" "vector_get cs" "vector_put cs" "\<lambda>v. unat (vector_size v)"
  for cs
  by unfold_locales
    (auto simp: worklist_push_appends vector_pop_back_wf vector_get_nth vector_put_update vector_size_def)

section \<open>Refinement\<close>

lemma worklist_pop_refines:
  assumes "cv_wf cs cv"
  shows "case gc_vector_pop_back (cv_list cs cv) of
      Inl e \<Rightarrow> worklist_pop cs cv = Inl e
    | Inr (x, rest) \<Rightarrow> \<exists>cv'. worklist_pop cs cv = Inr (x, cv') \<and> cv_wf cs cv' \<and> cv_list cs cv' = rest"
proof -
  have size: "0 < vector_size cv \<longleftrightarrow> cv_list cs cv \<noteq> []"
    by (simp add: vector_size_def word_gt_0 unat_gt_0 flip: length_greater_0_conv)
  show ?thesis
  proof (cases "cv_list cs cv = []")
    case True
    with size show ?thesis by (simp add: gc_vector_pop_back_def worklist_pop_def check_def)
  next
    case False
    with vector_back_last [OF assms] obtain p where
      "vector_back cs cv = Inr (Some p)" "vector_load cv p = Inr (last (cv_list cs cv))" by auto
    moreover have "0 < length (cv_list cs cv)" "0 < vector_size cv" using False size by blast+
    ultimately show ?thesis using vector_pop_back_wf [OF assms]
      by (simp add: gc_vector_pop_back_def worklist_pop_def del: length_cv_list)
  qed
qed

lemma registry_at_refines:
  assumes "cv_wf cs cv" and "cyclic_candidates s = cv_list cs cv"
  shows "candidate_at i s = registry_at cs i cv"
proof (cases "i < total_elements cv")
  case True
  then have i: "unat i < unat (total_elements cv)" by (simp add: word_less_nat_alt)
  from vector_at_slot [OF assms(1) True] obtain p where
    "vector_at cs cv i = Inr (Some p)" "slot_of cs (unat i) p" by auto
  with vector_load_slot [OF assms(1) i] i assms(2) show ?thesis by (simp add: candidate_at_def registry_at_def)
next
  case False
  with assms(2) show ?thesis
    by (simp add: candidate_at_def registry_at_def vector_at_def word_less_nat_alt word_le_nat_alt)
qed

text \<open>The swap with the last entry, below the size.\<close>

lemma registry_remove_swap:
  assumes wf: "cv_wf cs cv" and i: "index < total_elements cv" and other: "index \<noteq> vector_size cv - 1"
  shows "\<exists>cv'. registry_remove cs index cv = Inr (Some (last (cv_list cs cv)), cv') \<and> cv_wf cs cv'
     \<and> cv_list cs cv' = butlast ((cv_list cs cv)[unat index := last (cv_list cs cv)])"
proof -
  have pos: "0 < unat (total_elements cv)" and iu: "unat index < unat (total_elements cv)"
    using i by (simp_all add: word_less_nat_alt)
  then have ne: "cv_list cs cv \<noteq> []" by (simp flip: length_greater_0_conv)
  have nz: "total_elements cv \<noteq> 0" using pos by auto
  have l: "unat (vector_size cv - 1) = unat (total_elements cv) - 1"
    using unat_minus_one [OF nz] by (simp add: vector_size_def)
  then have "vector_size cv - 1 < total_elements cv" using pos by (simp add: word_less_nat_alt)
  from vector_at_slot [OF wf this] obtain q where q: "vector_at cs cv (vector_size cv - 1) = Inr (Some q)"
    "slot_of cs (unat (total_elements cv) - 1) q" by (auto simp: l)
  have x: "vector_load cv q = Inr (last (cv_list cs cv))"
    using vector_load_slot [OF wf _ q(2)] pos ne by (simp add: last_conv_nth)
  obtain p where p: "vector_at cs cv index = Inr (Some p)" "slot_of cs (unat index) p"
    using vector_at_slot [OF wf i] by auto
  obtain cv1 where cv1: "vector_store p (last (cv_list cs cv)) cv = Inr cv1" "cv_wf cs cv1"
    "cv_list cs cv1 = (cv_list cs cv)[unat index := last (cv_list cs cv)]"
    using vector_store_slot [OF wf iu p(2)] by blast
  have "registry_remove cs index cv = Inr (Some (last (cv_list cs cv)), vector_pop_back cs cv1)"
    using other p(1) q(1) x cv1(1) by (simp add: registry_remove_def Let_def)
  with vector_pop_back_wf [OF cv1(2)] cv1(3) show ?thesis by simp
qed

lemma registry_remove_refines:
  assumes wf: "cv_wf cs cv" and s: "cyclic_candidates s = cv_list cs cv"
  shows "gc_remove_candidate_at index s = and_then (registry_remove cs index cv) (\<lambda>(moved, cv').
     and_then (case moved of None \<Rightarrow> Inr s
        | Some x \<Rightarrow> on_heap (syli_object_set_candidate_index (syli_object_of_obj_ptr x) index) s)
       (\<lambda>s. Inr (s\<lparr>cyclic_candidates := cv_list cs cv'\<rparr>)))"
    and "registry_remove cs index cv = Inr (m, cv') \<Longrightarrow> cv_wf cs cv'"
proof -
  have size: "of_nat (length (cyclic_candidates s)) = vector_size cv" by (simp add: s vector_size_def)
  consider (last) "index = vector_size cv - 1" | (out) "index \<noteq> vector_size cv - 1" "\<not> index < total_elements cv"
    | (swap) "index \<noteq> vector_size cv - 1" "index < total_elements cv" by blast
  then have "gc_remove_candidate_at index s = and_then (registry_remove cs index cv) (\<lambda>(moved, cv').
       and_then (case moved of None \<Rightarrow> Inr s
          | Some x \<Rightarrow> on_heap (syli_object_set_candidate_index (syli_object_of_obj_ptr x) index) s)
         (\<lambda>s. Inr (s\<lparr>cyclic_candidates := cv_list cs cv'\<rparr>)))
     \<and> (\<forall>m cv'. registry_remove cs index cv = Inr (m, cv') \<longrightarrow> cv_wf cs cv')"
  proof cases
    case last
    with size s vector_pop_back_wf [OF wf] show ?thesis
      by (simp add: gc_remove_candidate_at_def registry_remove_def Let_def)
  next
    case out
    then have "vector_at cs cv index = Inr None" by (simp add: vector_at_def not_less)
    moreover have "candidate_at index s = Inl NullPointer"
      using out(2) s by (simp add: candidate_at_def word_less_nat_alt)
    moreover have "\<exists>q. vector_at cs cv (vector_size cv - 1) = Inr q"
      using vector_at_slot [OF wf, of "vector_size cv - 1"] by (cases "vector_size cv - 1 < total_elements cv")
        (auto simp: vector_at_def not_less)
    ultimately show ?thesis using out(1) size
      by (auto simp: gc_remove_candidate_at_def registry_remove_def Let_def)
  next
    case swap
    have pos: "0 < unat (total_elements cv)" using swap(2) by (simp add: word_less_nat_alt)
    then have ne: "cv_list cs cv \<noteq> []" and nz: "total_elements cv \<noteq> 0" by (auto simp flip: length_greater_0_conv)
    have "unat (vector_size cv - 1) = length (cv_list cs cv) - 1"
      using unat_minus_one [OF nz] by (simp add: vector_size_def)
    then have "candidate_at (vector_size cv - 1) s = Inr (last (cv_list cs cv))"
      using pos s ne by (simp add: candidate_at_def last_conv_nth)
    moreover have "\<exists>x. candidate_at index s = Inr x" using swap(2) s by (simp add: candidate_at_def word_less_nat_alt)
    moreover note registry_remove_swap [OF wf swap(2,1)]
    ultimately show ?thesis
      using swap(1) size s
      by (cases "syli_object_set_candidate_index (syli_object_of_obj_ptr (last (cv_list cs cv))) index (gc_heap s)")
        (auto simp: gc_remove_candidate_at_def on_heap_def Let_def)
  qed
  then show "gc_remove_candidate_at index s = and_then (registry_remove cs index cv) (\<lambda>(moved, cv').
       and_then (case moved of None \<Rightarrow> Inr s
          | Some x \<Rightarrow> on_heap (syli_object_set_candidate_index (syli_object_of_obj_ptr x) index) s)
         (\<lambda>s. Inr (s\<lparr>cyclic_candidates := cv_list cs cv'\<rparr>)))"
    and "registry_remove cs index cv = Inr (m, cv') \<Longrightarrow> cv_wf cs cv'" by blast+
qed

lemma worklist_push_no_memory:
  assumes "cv_wf cs cv" and "unat (active_offset cv) = cs"
    and "unat (active_chunk cv) + 1 = unat (chunk_count cv)"
    and "unat (chunk_count cv) < unat (chunk_array_capacity cv)"
  shows "worklist_push cs r None cv x = Inl NullPointer"
  using alloc_slot_no_chunk [OF assms, of r] by (auto simp: worklist_push_def)

text \<open>C26: the helpers of \<open>gc_helpers.h\<close>, run on well-formed chunk vectors, do what they do on lists in
  the other theories: a push appends across chunk and array growth, as long as the allocator
  delivers (and the slot that \<open>malloc\<close> did not deliver is dereferenced as \<open>NULL\<close>); a pop, the
  read of a candidate and the removal of a candidate give the same result, the same error, and
  a well-formed vector of the list that is left; \<open>vector_push_back\<close> is the same push.\<close>

theorem worklists_refined:
  assumes "cv_wf cs cv" and "cyclic_candidates s = cv_list cs cv"
  shows "(grow_ready cs realloc_ok fresh cv \<longrightarrow>
       (\<exists>cv'. worklist_push cs realloc_ok fresh cv v = Inr cv' \<and> cv_wf cs cv'
          \<and> cv_list cs cv' = gc_vector_push_back (cv_list cs cv) v
          \<and> vector_push_back cs realloc_ok fresh v cv = Inr cv'))
     \<and> (unat (active_offset cv) = cs \<and> unat (active_chunk cv) + 1 = unat (chunk_count cv)
          \<and> unat (chunk_count cv) < unat (chunk_array_capacity cv) \<longrightarrow>
          worklist_push cs realloc_ok None cv v = Inl NullPointer)
     \<and> (case gc_vector_pop_back (cv_list cs cv) of
          Inl e \<Rightarrow> worklist_pop cs cv = Inl e
        | Inr (w, rest) \<Rightarrow> \<exists>cv'. worklist_pop cs cv = Inr (w, cv') \<and> cv_wf cs cv' \<and> cv_list cs cv' = rest)
     \<and> candidate_at index s = registry_at cs index cv
     \<and> gc_remove_candidate_at index s = and_then (registry_remove cs index cv) (\<lambda>(moved, cv').
          and_then (case moved of None \<Rightarrow> Inr s
             | Some x \<Rightarrow> on_heap (syli_object_set_candidate_index (syli_object_of_obj_ptr x) index) s)
            (\<lambda>s. Inr (s\<lparr>cyclic_candidates := cv_list cs cv'\<rparr>)))
     \<and> (\<forall>m cv'. registry_remove cs index cv = Inr (m, cv') \<longrightarrow> cv_wf cs cv')"
proof (intro conjI impI allI)
  assume ready: "grow_ready cs realloc_ok fresh cv"
  obtain cv' where "worklist_push cs realloc_ok fresh cv v = Inr cv'" "cv_wf cs cv'" "cv_list cs cv' = cv_list cs cv @ [v]"
    "vector_push_back cs realloc_ok fresh v cv = Inr cv'"
    using alloc_slot_store [OF assms(1) ready, of v] push_back_alloc_slot [OF assms(1) ready]
    by (auto simp: worklist_push_def)
  then show "\<exists>cv'. worklist_push cs realloc_ok fresh cv v = Inr cv' \<and> cv_wf cs cv'
      \<and> cv_list cs cv' = gc_vector_push_back (cv_list cs cv) v \<and> vector_push_back cs realloc_ok fresh v cv = Inr cv'"
    by (auto simp: gc_vector_push_back_def)
next
  assume "unat (active_offset cv) = cs \<and> unat (active_chunk cv) + 1 = unat (chunk_count cv)
    \<and> unat (chunk_count cv) < unat (chunk_array_capacity cv)"
  with worklist_push_no_memory [OF assms(1)] show "worklist_push cs realloc_ok None cv v = Inl NullPointer" by blast
qed (rule worklist_pop_refines registry_at_refines registry_remove_refines; (rule assms | assumption))+

text \<open>Two candidates in a full chunk of two.\<close>

definition queue_vector :: "obj_ptr chunk_vector" where
  "queue_vector = \<lparr>chunks = Some [Some [9, 17], None], chunk_count = 1, chunk_array_capacity = 2,
     active_chunk = 0, active_offset = 2, total_elements = 2\<rparr>"

lemma queue_vector_wf: "cv_wf 2 queue_vector" and queue_vector_list: "cv_list 2 queue_vector = [9, 17]"
  by (simp_all add: cv_wf_def queue_vector_def cv_list_def cv_cell_def upt_rec)

theorem worklists_refined_witness:
  "(\<exists>cv'. worklist_push 2 False (Some [0, 0]) queue_vector 25 = Inr cv' \<and> cv_list 2 cv' = [9, 17, 25])
   \<and> (\<exists>cv'. worklist_pop 2 queue_vector = Inr (17, cv') \<and> cv_list 2 cv' = [9])
   \<and> worklist_push 2 True None queue_vector 25 = Inl NullPointer"
proof -
  have r: "grow_ready 2 False (Some [0, 0]) queue_vector" by (simp add: grow_ready_def queue_vector_def)
  have s: "cyclic_candidates ((zero_state Map.empty)\<lparr>cyclic_candidates := [9, 17]\<rparr>) = cv_list 2 queue_vector"
    by (simp add: queue_vector_list)
  note R = worklists_refined [OF queue_vector_wf s, where v = 25 and index = 0]
  have "\<exists>cv'. worklist_push 2 False (Some [0, 0]) queue_vector 25 = Inr cv' \<and> cv_list 2 cv' = [9, 17, 25]"
    using R [where realloc_ok = False and fresh = "Some [0, 0]"] r
    by (auto simp: queue_vector_list gc_vector_push_back_def)
  moreover have "\<exists>cv'. worklist_pop 2 queue_vector = Inr (17, cv') \<and> cv_list 2 cv' = [9]"
    using R [where realloc_ok = False and fresh = None] by (auto simp: queue_vector_list gc_vector_pop_back_def check_def)
  moreover have "worklist_push 2 True None queue_vector 25 = Inl NullPointer"
    using R [where realloc_ok = True and fresh = None] by (simp add: queue_vector_def)
  ultimately show ?thesis by blast
qed

end
