(* ===== verification/ObjectGraph.thy ===== *)
theory ObjectGraph
  imports GcHelpers
begin

text \<open>
  The heap as a reference graph: the reference slots of an object as its header lays them
  out, the own references in them, the contract \<open>field_visitor\<close> of the scan loops, exact
  reference counts (\<open>counts_ok\<close>), reachability, and what a collection step may do to memory
  (\<open>heap_shrinks\<close>). The definitions here are specification: the releasing and the tracing
  collectors are proved against them.
\<close>

section \<open>The references an object holds\<close>

definition ref_count :: "u64 \<Rightarrow> nat" where
  "ref_count hw =
     (case syli_object_type hw of
        Type_MonoImm \<Rightarrow> 0
      | Type_MonoRef \<Rightarrow> (case syli_object_length hw of Inr n \<Rightarrow> unat n | Inl _ \<Rightarrow> 0)
      | Type_MixedOrder \<Rightarrow> (case syli_object_order_ptr_count hw of Inr n \<Rightarrow> unat n | Inl _ \<Rightarrow> 0)
      | Type_MixedBitmap \<Rightarrow> (case syli_object_length hw of Inr n \<Rightarrow> unat n | Inl _ \<Rightarrow> 0))"

definition is_ref_slot :: "u64 \<Rightarrow> nat \<Rightarrow> bool" where
  "is_ref_slot hw i \<longleftrightarrow> (syli_object_type hw = Type_MixedBitmap \<longrightarrow>
     (case syli_object_bitmap_bits hw of Inr bits \<Rightarrow> syli_bitmap_is_ref bits i | Inl _ \<Rightarrow> False))"

definition ref_slots :: "u64 \<Rightarrow> nat list" where
  "ref_slots hw = filter (is_ref_slot hw) [0..<ref_count hw]"

definition is_own_field :: "u64 \<Rightarrow> bool" where
  "is_own_field v \<longleftrightarrow> v \<noteq> 0 \<and> syli_ownership_is_own_ref v"

definition own_refs :: "gc_object \<Rightarrow> obj_ptr list" where
  "own_refs x = filter is_own_field (map ((!) (obj_value x)) (ref_slots (header_word x)))"

text \<open>What the compiler guarantees of an object: it is in the local zone, its references lie in
  its block, and an object without the has-pointers flag holds no reference.\<close>

definition obj_ok :: "gc_object \<Rightarrow> bool" where
  "obj_ok x \<longleftrightarrow> obj_local x
     \<and> (\<forall>i \<in> set (ref_slots (header_word x)). i < length (obj_value x))
     \<and> (\<not> syli_object_has_pointers (header_word x) \<longrightarrow> own_refs x = [])"

lemma own_refs_own: "v \<in> set (own_refs x) \<Longrightarrow> v \<noteq> 0 \<and> syli_ownership_is_own_ref v"
  by (simp add: own_refs_def is_own_field_def)

lemma own_refs_frame [simp]:
  "own_refs (set_meta m x) = own_refs x" "obj_ok (set_meta m x) = obj_ok x"
  by (simp_all add: own_refs_def obj_ok_def)

lemma own_refs_cong:
  "header_word y = header_word x \<Longrightarrow> obj_value y = obj_value x \<Longrightarrow> own_refs y = own_refs x"
  "header_word y = header_word x \<Longrightarrow> obj_value y = obj_value x \<Longrightarrow> obj_ok y = obj_ok x"
  by (simp_all add: own_refs_def obj_ok_def obj_local_def)

text \<open>The candidate index lies behind the payload, so no reference slot is there.\<close>

lemma ref_count_le: "ref_count (header_word x) \<le> obj_len x"
proof (cases "syli_object_type (header_word x)")
  case Type_MixedOrder
  let ?p = "ucast (syli_object_payload (header_word x)) :: u64"
  have "unat (?p AND 0xFFFF) + unat (drop_bit 16 (?p AND push_bit 16 0xFFFF)) < 2 ^ 64"
    using order_counts [of ?p] by simp
  then have "unat (?p AND 0xFFFF) \<le> unat ((?p AND 0xFFFF) + drop_bit 16 (?p AND push_bit 16 0xFFFF))"
    by (subst unat_word_ariths) simp
  with Type_MixedOrder show ?thesis
    by (simp add: ref_count_def obj_len_def syli_object_length_def syli_object_order_length_def
        syli_object_order_ptr_count_def type_predicates Let_def GC_ORDER_PTR_COUNT_MASK_def
        GC_ORDER_IMM_COUNT_MASK_def GC_ORDER_IMM_COUNT_SHIFT_def flip: syli_object_type_def)
qed (simp_all add: ref_count_def obj_len_def)

lemma ref_slot_less: "i \<in> set (ref_slots (header_word x)) \<Longrightarrow> i < obj_len x"
  using ref_count_le [of x] by (auto simp: ref_slots_def)

lemma own_refs_set_index [simp]:
  "own_refs (set_index i x) = own_refs x" "obj_ok (set_index i x) = obj_ok x"
proof -
  have "map ((!) (obj_value (set_index i x))) (ref_slots (header_word x))
      = map ((!) (obj_value x)) (ref_slots (header_word x))"
    by (rule map_cong [OF refl]) (auto dest: ref_slot_less simp: set_index_def)
  then show "own_refs (set_index i x) = own_refs x" by (simp only: own_refs_def set_index_frame(1))
  then show "obj_ok (set_index i x) = obj_ok x" by (simp add: obj_ok_def)
qed

section \<open>The contract of a field visitor\<close>

text \<open>
  The release, the trace and the lost-cycle scans run the same loop with different
  visitors. \<open>inv rs s\<close> says that the references \<open>rs\<close> of the scanned object are still to be
  visited in state \<open>s\<close>; a visitor may change the memory, but not the reference fields
  of the object being scanned.
\<close>

locale field_visitor =
  fixes visit :: "obj_ptr \<Rightarrow> Syli_state \<Rightarrow> Syli_state result"
    and inv :: "obj_ptr list \<Rightarrow> Syli_state \<Rightarrow> bool"
    and obj :: u64 and x :: gc_object
  assumes visit_law: "inv (v # rs) s \<Longrightarrow> is_own_field v \<Longrightarrow> \<exists>s'. visit v s = Inr s' \<and> inv rs s'"
    and frame_law: "inv rs s \<Longrightarrow> i \<in> set (ref_slots (header_word x)) \<Longrightarrow>
          read_field obj i (gc_heap s) = Inr (obj_value x ! i)"
begin

lemma scan_fields_total:
  assumes "inv (filter is_own_field (map ((!) (obj_value x)) (filter is_ref [0..<n]))) s"
    and slots: "filter is_ref [0..<n] = ref_slots (header_word x)"
  shows "\<exists>s'. scan_fields obj is_ref n visit s = Inr s' \<and> inv [] s'"
proof -
  define P where
    "P i t \<longleftrightarrow> inv (filter is_own_field (map ((!) (obj_value x)) (filter is_ref [i..<n]))) t" for i t
  have "\<exists>s'. scan_fields obj is_ref n visit s = Inr s' \<and> P n s'"
    unfolding scan_fields_def
  proof (rule for_range_total)
    show "P 0 s" using assms(1) by (simp add: P_def)
  next
    fix k t
    assume k: "0 \<le> k" "k < n" "P k t"
    have up: "[k..<n] = k # [Suc k..<n]" using k(2) by (rule upt_conv_Cons)
    show "\<exists>t'. (if \<not> is_ref k then Inr t
               else and_then (read_field obj k (gc_heap t)) (\<lambda>v.
                 if v = 0 \<or> \<not> syli_ownership_is_own_ref v then Inr t else visit v t)) = Inr t'
          \<and> P (Suc k) t'"
    proof (cases "is_ref k")
      case False
      then show ?thesis using k(3) by (simp add: P_def up)
    next
      case True
      have "k \<in> set (ref_slots (header_word x))"
        using True k(2) by (simp flip: slots)
      with frame_law k(3) have r: "read_field obj k (gc_heap t) = Inr (obj_value x ! k)"
        by (simp add: P_def)
      show ?thesis
      proof (cases "is_own_field (obj_value x ! k)")
        case own: True
        then have "inv (obj_value x ! k # filter is_own_field
            (map ((!) (obj_value x)) (filter is_ref [Suc k..<n]))) t"
          using k(3) True by (simp add: P_def up)
        from visit_law [OF this own] True r own show ?thesis by (auto simp: P_def is_own_field_def)
      next
        case False
        then show ?thesis using k(3) True r by (auto simp: P_def up is_own_field_def)
      qed
    qed
  qed simp
  then show ?thesis by (simp add: P_def)
qed

text \<open>The three loops of the collector, one per shape of object.\<close>

lemma scan_mono_ref:
  assumes "inv (own_refs x) s" and "syli_object_is_mono_ref (header_word x)"
    and "syli_object_length (header_word x) = Inr len"
  shows "\<exists>s'. scan_fields obj (\<lambda>_. True) (unat len) visit s = Inr s' \<and> inv [] s'"
proof (rule scan_fields_total)
  show slots: "filter (\<lambda>_. True) [0..<unat len] = ref_slots (header_word x)"
    using assms(2,3) by (simp add: ref_slots_def ref_count_def is_ref_slot_def type_predicates)
  show "inv (filter is_own_field (map ((!) (obj_value x)) (filter (\<lambda>_. True) [0..<unat len]))) s"
    using assms(1) slots by (simp add: own_refs_def)
qed

lemma scan_mixed_bitmap:
  assumes "inv (own_refs x) s" and "syli_object_is_mixed_bitmap (header_word x)"
    and "syli_object_length (header_word x) = Inr len"
    and "syli_object_bitmap_bits (header_word x) = Inr bits"
  shows "\<exists>s'. scan_fields obj (syli_bitmap_is_ref bits) (unat len) visit s = Inr s' \<and> inv [] s'"
proof (rule scan_fields_total)
  show slots: "filter (syli_bitmap_is_ref bits) [0..<unat len] = ref_slots (header_word x)"
  proof -
    have "is_ref_slot (header_word x) = syli_bitmap_is_ref bits"
      using assms(2,4) by (simp add: fun_eq_iff is_ref_slot_def type_predicates)
    with assms(2,3) show ?thesis by (simp add: ref_slots_def ref_count_def type_predicates)
  qed
  show "inv (filter is_own_field (map ((!) (obj_value x)) (filter (syli_bitmap_is_ref bits) [0..<unat len]))) s"
    using assms(1) slots by (simp add: own_refs_def)
qed

lemma scan_mixed_order:
  assumes "inv (own_refs x) s" and "syli_object_is_mixed_order (header_word x)"
    and "syli_object_order_ptr_count (header_word x) = Inr n"
  shows "\<exists>s'. scan_fields obj (\<lambda>_. True) (unat n) visit s = Inr s' \<and> inv [] s'"
proof (rule scan_fields_total)
  show slots: "filter (\<lambda>_. True) [0..<unat n] = ref_slots (header_word x)"
    using assms(2,3) by (simp add: ref_slots_def ref_count_def is_ref_slot_def type_predicates)
  show "inv (filter is_own_field (map ((!) (obj_value x)) (filter (\<lambda>_. True) [0..<unat n]))) s"
    using assms(1) slots by (simp add: own_refs_def)
qed

end

lemma own_refs_mono_imm: "syli_object_is_mono_imm (header_word x) \<Longrightarrow> own_refs x = []"
  by (simp add: own_refs_def ref_slots_def ref_count_def type_predicates)

text \<open>The accessors the scans call succeed on the shape they are called for.\<close>

lemma shape_accessors:
  "syli_object_is_mixed_bitmap hw \<Longrightarrow> syli_object_bitmap_length hw = syli_object_length hw"
  "syli_object_is_mixed_bitmap hw \<Longrightarrow> \<exists>b. syli_object_bitmap_bits hw = Inr b"
  "syli_object_is_mixed_order hw \<Longrightarrow> \<exists>n. syli_object_order_ptr_count hw = Inr n"
  by (simp_all add: syli_object_bitmap_bits_def syli_object_order_ptr_count_def
      syli_object_length_def type_predicates flip: syli_object_type_def)

section \<open>The reference graph\<close>

text \<open>
  \<open>D\<close> is the set of detached objects, whose references no longer count (the object being
  torn down), \<open>Meta_Flags_Waiting_Remove\<close> marks the released ones that await the tracer.
  The others hold references: \<open>incoming D h p\<close> counts those to \<open>p\<close>.
\<close>

definition rc_at :: "heap \<Rightarrow> u64 \<Rightarrow> nat" where
  "rc_at h p = (case h p of None \<Rightarrow> 0 | Some x \<Rightarrow> obj_rc x)"

definition refs_to :: "u64 \<Rightarrow> obj_ptr list \<Rightarrow> nat" where
  "refs_to p rs = count_list (map syli_ownership_untag rs) p"

definition holders :: "u64 set \<Rightarrow> heap \<Rightarrow> u64 set" where
  "holders D h = {q. q \<notin> D \<and> (\<exists>x. h q = Some x \<and> \<not> obj_flag Meta_Flags_Waiting_Remove x)}"

definition incoming :: "u64 set \<Rightarrow> heap \<Rightarrow> u64 \<Rightarrow> nat" where
  "incoming D h p = (\<Sum>q \<in> holders D h. refs_to p (own_refs (the (h q))))"

definition heap_ok :: "heap \<Rightarrow> bool" where
  "heap_ok h \<longleftrightarrow> finite (dom h) \<and> (\<forall>p x. h p = Some x \<longrightarrow> p \<noteq> 0 \<and> untagged p \<and> obj_ok x)"

text \<open>Every count is the number of references the program holds from outside the heap
  (\<open>ext\<close>: its variables and the stack) plus the number held by objects. An object that
  waits for the tracer has count zero, is on the tracing worklist and not in the registry.\<close>

definition counts_ok :: "(u64 \<Rightarrow> nat) \<Rightarrow> u64 set \<Rightarrow> heap \<Rightarrow> bool" where
  "counts_ok ext D h \<longleftrightarrow> (\<forall>p. rc_at h p = ext p + incoming D h p)
     \<and> (\<forall>p x. h p = Some x \<longrightarrow> obj_flag Meta_Flags_Waiting_Remove x \<longrightarrow> obj_rc x = 0
          \<and> obj_flag Meta_Flags_Tracing x \<and> \<not> obj_flag Meta_Flags_Cyclic_Candidate x)"

definition dead :: "u64 set \<Rightarrow> heap \<Rightarrow> u64 set" where
  "dead D h = {p \<in> holders D h. rc_at h p = 0}"

lemma dead_insert: "dead (insert q D) h = dead D h - {q}"
  by (auto simp: dead_def holders_def)

lemma refs_to_simps [simp]:
  "refs_to p [] = 0"
  "refs_to p (v # rs) = (if syli_ownership_untag v = p then 1 else 0) + refs_to p rs"
  by (simp_all add: refs_to_def)

lemma refs_to_pos: "v \<in> set rs \<Longrightarrow> 0 < refs_to (syli_ownership_untag v) rs"
  by (auto simp: refs_to_def count_list_pos_iff)

lemma holders_subset: "holders D h \<subseteq> dom h"
  by (auto simp: holders_def)

lemma incoming_pos:
  assumes "heap_ok h" and "q \<in> holders D h" and "v \<in> set (own_refs (the (h q)))"
  shows "0 < incoming D h (syli_ownership_untag v)"
proof -
  have "finite (holders D h)"
    using assms(1) holders_subset [of D h] by (meson finite_subset heap_ok_def)
  then have "refs_to (syli_ownership_untag v) (own_refs (the (h q))) \<le> incoming D h (syli_ownership_untag v)"
    unfolding incoming_def using assms(2) by (intro member_le_sum) simp_all
  with refs_to_pos [OF assms(3)] show ?thesis by simp
qed

lemma counts_ok_live:
  "counts_ok ext D h \<Longrightarrow> 0 < ext p + incoming D h p \<Longrightarrow> \<exists>x. h p = Some x \<and> 0 < obj_rc x
     \<and> \<not> obj_flag Meta_Flags_Waiting_Remove x"
proof -
  assume c: "counts_ok ext D h" and pos: "0 < ext p + incoming D h p"
  then have rc: "0 < rc_at h p" by (simp add: counts_ok_def)
  then obtain x where x: "h p = Some x" "0 < obj_rc x" by (auto simp: rc_at_def split: option.splits)
  moreover have "\<not> obj_flag Meta_Flags_Waiting_Remove x"
    using c x unfolding counts_ok_def by (metis less_irrefl)
  ultimately show ?thesis by blast
qed

text \<open>The holder sets and sums depend on the references and the waiting flag only.\<close>

definition same_refs :: "heap \<Rightarrow> heap \<Rightarrow> bool" where
  "same_refs h h' \<longleftrightarrow> (\<forall>p. (h' p = None \<longleftrightarrow> h p = None) \<and>
     (\<forall>x y. h p = Some x \<longrightarrow> h' p = Some y \<longrightarrow> own_refs y = own_refs x
        \<and> obj_ok y = obj_ok x
        \<and> obj_flag Meta_Flags_Waiting_Remove y = obj_flag Meta_Flags_Waiting_Remove x))"

lemma same_refs_upd:
  assumes "h p = Some x" and "own_refs y = own_refs x" and "obj_ok y = obj_ok x"
    and "obj_flag Meta_Flags_Waiting_Remove y = obj_flag Meta_Flags_Waiting_Remove x"
  shows "same_refs h (h(p \<mapsto> y))"
  using assms by (auto simp: same_refs_def)

lemma same_refs_index: "same_but_index h h' \<Longrightarrow> same_refs h h'"
  unfolding same_refs_def
proof (intro allI conjI impI)
  fix p x y
  assume s: "same_but_index h h'" and x: "h p = Some x" and y: "h' p = Some y"
  obtain x' i where "h p = Some x'" "y = x' \<or> (obj_indexed x' \<and> y = set_index i x')"
    by (rule same_but_index_someD [OF s y])
  with x show "own_refs y = own_refs x" "obj_ok y = obj_ok x"
    "obj_flag Meta_Flags_Waiting_Remove y = obj_flag Meta_Flags_Waiting_Remove x" by auto
qed (simp add: same_but_index_dom)

lemma same_refs_holders: "same_refs h h' \<Longrightarrow> holders D h' = holders D h"
  unfolding holders_def same_refs_def by (metis (lifting) not_Some_eq)

lemma same_refs_incoming:
  assumes "same_refs h h'"
  shows "incoming D h' p = incoming D h p"
  unfolding incoming_def same_refs_holders [OF assms]
proof (rule sum.cong [OF refl])
  fix q
  assume "q \<in> holders D h"
  then obtain x where x: "h q = Some x" by (auto simp: holders_def)
  then obtain y where y: "h' q = Some y" using assms by (fastforce simp: same_refs_def)
  with x assms show "refs_to p (own_refs (the (h' q))) = refs_to p (own_refs (the (h q)))"
    by (simp add: same_refs_def)
qed

lemma same_refs_heap_ok:
  assumes "same_refs h h'" and "heap_ok h"
  shows "heap_ok h'"
proof -
  have "dom h' = dom h" using assms(1) by (simp add: same_refs_def dom_def del: not_None_eq)
  moreover have "p \<noteq> 0 \<and> untagged p \<and> obj_ok y" if y: "h' p = Some y" for p y
  proof -
    have "h p \<noteq> None" using assms(1) y unfolding same_refs_def by (metis option.distinct(1))
    then obtain x where "h p = Some x" by blast
    with assms y show ?thesis by (auto simp: same_refs_def heap_ok_def)
  qed
  ultimately show ?thesis using assms(2) by (simp add: heap_ok_def)
qed

lemma rc_at_index: "same_but_index h h' \<Longrightarrow> rc_at h' p = rc_at h p"
proof (cases "h' p")
  case None
  assume "same_but_index h h'"
  with None show ?thesis using same_but_index_dom [of h h' p] by (simp add: rc_at_def)
next
  case (Some y)
  assume "same_but_index h h'"
  obtain x i where "h p = Some x" "y = x \<or> (obj_indexed x \<and> y = set_index i x)"
    by (rule same_but_index_someD [OF \<open>same_but_index h h'\<close> Some])
  with Some show ?thesis by (auto simp: rc_at_def)
qed

lemma rc_at_upd: "rc_at (h(p \<mapsto> y)) q = (if q = p then obj_rc y else rc_at h q)"
  by (simp add: rc_at_def)

lemma same_index_flags:
  assumes "same_but_index h h'" and "h' p = Some y"
  obtains x where "h p = Some x" and "obj_rc y = obj_rc x" and "own_refs y = own_refs x"
    and "\<And>f. obj_flag f y = obj_flag f x" and "header_word y = header_word x"
proof -
  obtain x i where "h p = Some x" "y = x \<or> (obj_indexed x \<and> y = set_index i x)"
    by (rule same_but_index_someD [OF assms])
  with that show thesis by auto
qed

text \<open>Detaching a holder moves its references from the heap's count to an explicit list.\<close>

lemma incoming_detach:
  assumes "heap_ok h" and "q \<in> holders D h"
  shows "incoming D h p = refs_to p (own_refs (the (h q))) + incoming (insert q D) h p"
proof -
  have "finite (holders D h)"
    using assms(1) holders_subset [of D h] by (meson finite_subset heap_ok_def)
  moreover have "holders (insert q D) h = holders D h - {q}" by (auto simp: holders_def)
  ultimately show ?thesis using assms(2) by (simp add: incoming_def sum.remove)
qed

lemma incoming_nonholder: "q \<notin> holders D h \<Longrightarrow> incoming (insert q D) h p = incoming D h p"
proof -
  assume "q \<notin> holders D h"
  then have "holders (insert q D) h = holders D h" by (auto simp: holders_def)
  then show ?thesis by (simp add: incoming_def)
qed

section \<open>Reachability\<close>

text \<open>What the program can still get at: from the references it holds, along own references.\<close>

inductive reachable :: "(u64 \<Rightarrow> nat) \<Rightarrow> heap \<Rightarrow> u64 \<Rightarrow> bool" for ext h where
  root: "0 < ext p \<Longrightarrow> reachable ext h p"
| step: "reachable ext h q \<Longrightarrow> h q = Some x \<Longrightarrow> v \<in> set (own_refs x) \<Longrightarrow>
           reachable ext h (syli_ownership_untag v)"

text \<open>What the program has put into an object: its header and its cells. The cell behind the payload of
  a mutable-cyclic object belongs to the collector, which keeps the registry index there.\<close>

definition contents :: "gc_object \<Rightarrow> u64 list" where
  "contents x = (if syli_object_is_cyclic_mutable (header_word x) then (obj_value x)[obj_len x := 0] else obj_value x)"

definition same_fields :: "gc_object \<Rightarrow> gc_object \<Rightarrow> bool" where
  "same_fields x y \<longleftrightarrow> header_word y = header_word x \<and> contents y = contents x"

lemma contents_slot:
  assumes "i \<in> set (ref_slots (header_word x))"
  shows "contents x ! i = obj_value x ! i"
  using ref_slot_less [OF assms] by (simp add: contents_def)

lemma contents_frame [simp]:
  "length (contents x) = length (obj_value x)" "contents (set_meta m x) = contents x"
  "obj_indexed x \<Longrightarrow> contents (set_index i x) = contents x"
  by (simp_all add: contents_def obj_indexed_def obj_len_def set_index_def set_meta_def)

lemma same_fields_refl [simp]: "same_fields x x"
  by (simp add: same_fields_def)

lemma same_fields_trans: "same_fields x y \<Longrightarrow> same_fields y z \<Longrightarrow> same_fields x z"
  by (simp add: same_fields_def)

lemma same_fields_meta [simp]: "same_fields x (set_meta m y) = same_fields x y"
  by (simp add: same_fields_def)

lemma same_fields_index [simp]: "obj_indexed x \<Longrightarrow> same_fields x (set_index i x)"
  by (simp add: same_fields_def)

lemma same_fields_eq:
  "header_word y = header_word x \<Longrightarrow> obj_value y = obj_value x \<Longrightarrow> same_fields z y = same_fields z x"
  by (simp add: same_fields_def contents_def obj_len_def)

lemma same_fields_slots:
  assumes "same_fields x y"
  shows "length (obj_value y) = length (obj_value x)"
    and "i \<in> set (ref_slots (header_word x)) \<Longrightarrow> obj_value y ! i = obj_value x ! i"
proof -
  from assms have e: "header_word y = header_word x" "contents y = contents x" by (simp_all add: same_fields_def)
  then show "length (obj_value y) = length (obj_value x)" by (metis contents_frame(1))
  show "obj_value y ! i = obj_value x ! i" if "i \<in> set (ref_slots (header_word x))"
    using contents_slot [of i x] contents_slot [of i y] that e by simp
qed

lemma same_fields_refs:
  assumes "same_fields x y"
  shows "own_refs y = own_refs x" and "obj_ok y = obj_ok x"
proof -
  have "map ((!) (obj_value y)) (ref_slots (header_word x)) = map ((!) (obj_value x)) (ref_slots (header_word x))"
    using same_fields_slots(2) [OF assms] by (intro map_cong) simp_all
  with assms show "own_refs y = own_refs x" by (simp only: own_refs_def same_fields_def)
  with assms same_fields_slots(1) [OF assms] show "obj_ok y = obj_ok x"
    by (auto simp: obj_ok_def obj_local_def same_fields_def)
qed

text \<open>A reference field of such an object reads as before.\<close>

lemma read_same_slot:
  assumes "heap_ok h" and "h p = Some y" and "same_fields x y" and "i \<in> set (ref_slots (header_word x))"
  shows "read_field p i h = Inr (obj_value x ! i)"
proof -
  have "p \<noteq> 0" "obj_ok y" using assms(1,2) by (auto simp: heap_ok_def)
  moreover have "header_word y = header_word x" using assms(3) by (simp add: same_fields_def)
  ultimately show ?thesis
    using assms(2,4) same_fields_slots(2) [OF assms(3,4)] by (simp add: read_field_def deref_live obj_ok_def)
qed

text \<open>A collection step frees objects or leaves them with their contents; an object that waits
  for the tracer goes on waiting.\<close>

definition heap_shrinks :: "heap \<Rightarrow> heap \<Rightarrow> bool" where
  "heap_shrinks h h' \<longleftrightarrow> (\<forall>p y. h' p = Some y \<longrightarrow> (\<exists>x. h p = Some x \<and> same_fields x y
     \<and> (obj_flag Meta_Flags_Waiting_Remove x \<longrightarrow> obj_flag Meta_Flags_Waiting_Remove y)))"

lemma heap_shrinksI:
  "(\<And>p y. h' p = Some y \<Longrightarrow> \<exists>x. h p = Some x \<and> same_fields x y
      \<and> (obj_flag Meta_Flags_Waiting_Remove x \<longrightarrow> obj_flag Meta_Flags_Waiting_Remove y))
   \<Longrightarrow> heap_shrinks h h'"
  by (simp add: heap_shrinks_def)

lemma heap_shrinksD:
  "heap_shrinks h h' \<Longrightarrow> h' p = Some y \<Longrightarrow> \<exists>x. h p = Some x \<and> same_fields x y
     \<and> (obj_flag Meta_Flags_Waiting_Remove x \<longrightarrow> obj_flag Meta_Flags_Waiting_Remove y)"
  by (simp add: heap_shrinks_def)

lemma heap_shrinks_dom: "heap_shrinks h h' \<Longrightarrow> dom h' \<subseteq> dom h"
  by (auto dest: heap_shrinksD)

lemma heap_shrinks_refl [simp]: "heap_shrinks h h"
  by (simp add: heap_shrinks_def)

lemma heap_shrinks_trans: "heap_shrinks h1 h2 \<Longrightarrow> heap_shrinks h2 h3 \<Longrightarrow> heap_shrinks h1 h3"
  unfolding heap_shrinks_def by (meson same_fields_trans)

lemma heap_shrinks_index: "same_but_index h h' \<Longrightarrow> heap_shrinks h h'"
proof (rule heap_shrinksI)
  fix p y
  assume s: "same_but_index h h'" and y: "h' p = Some y"
  obtain x i where "h p = Some x" "y = x \<or> (obj_indexed x \<and> y = set_index i x)"
    by (rule same_but_index_someD [OF s y])
  then show "\<exists>x. h p = Some x \<and> same_fields x y
      \<and> (obj_flag Meta_Flags_Waiting_Remove x \<longrightarrow> obj_flag Meta_Flags_Waiting_Remove y)"
    by auto
qed

lemma heap_shrinks_delete: "heap_shrinks h h' \<Longrightarrow> heap_shrinks h (h'(q := None))"
  by (simp add: heap_shrinks_def)

lemma heap_shrinks_upd:
  assumes "heap_shrinks h h'" and "h q = Some x" and "same_fields x y"
    and "obj_flag Meta_Flags_Waiting_Remove x \<longrightarrow> obj_flag Meta_Flags_Waiting_Remove y"
  shows "heap_shrinks h (h'(q \<mapsto> y))"
  using assms by (simp add: heap_shrinks_def)

lemma heap_shrinks_holders: "heap_shrinks h h' \<Longrightarrow> holders D h' \<subseteq> holders D h"
  by (auto simp: holders_def dest: heap_shrinksD)

text \<open>As long as the counts stay exact, what is reachable stays allocated.\<close>

lemma reachable_kept:
  assumes "reachable ext h p" and "heap_shrinks h h'" and "counts_ok ext {} h'" and "heap_ok h'"
  shows "\<exists>x. h' p = Some x \<and> 0 < obj_rc x \<and> \<not> obj_flag Meta_Flags_Waiting_Remove x"
  using assms(1)
proof induction
  case (root p)
  then show ?case using counts_ok_live [OF assms(3), of p] by simp
next
  case (step q x v)
  then obtain y where y: "h' q = Some y" "\<not> obj_flag Meta_Flags_Waiting_Remove y" by blast
  then have "own_refs y = own_refs x"
    using heap_shrinksD [OF assms(2) y(1)] step.hyps(2) same_fields_refs(1) by auto
  moreover have "q \<in> holders {} h'" using y by (simp add: holders_def)
  ultimately have "0 < incoming {} h' (syli_ownership_untag v)"
    using incoming_pos [OF assms(4), of q "{}" v] step.hyps(3) y(1) by simp
  then show ?case using counts_ok_live [OF assms(3)] by (meson add_pos_nonneg less_add_same_cancel2 trans_less_add2)
qed

text \<open>With exact counts and no dead object left, every object is held by another or by the program: a
  property that goes from the roots along references holds of it, when the references of
  the holders without the property go down in some order. So an object is reachable when
  those of the unreachable holders do.\<close>

lemma held_closed:
  assumes "heap_ok h" and "counts_ok ext D h"
    and root: "\<And>q. 0 < ext q \<Longrightarrow> R q"
    and step: "\<And>q x v. h q = Some x \<Longrightarrow> v \<in> set (own_refs x) \<Longrightarrow> R q \<Longrightarrow> R (syli_ownership_untag v)"
    and alive: "\<And>q. q \<in> holders D h \<Longrightarrow> 0 < rc_at h q"
    and down: "\<And>q x v. q \<in> holders D h \<Longrightarrow> h q = Some x \<Longrightarrow> v \<in> set (own_refs x) \<Longrightarrow>
      R q \<or> rank (syli_ownership_untag v) < (rank q :: nat)"
    and "0 < rc_at h p"
  shows "R p"
proof -
  have fin: "finite (holders D h)"
    using assms(1) holders_subset [of D h] by (meson finite_subset heap_ok_def)
  define M where "M = Max (rank ` holders D h)"
  have bound: "rank q \<le> M" if "q \<in> holders D h" for q
    using fin that by (simp add: M_def)
  show ?thesis using assms(7)
  proof (induction "M - rank p" arbitrary: p rule: less_induct)
    case less
    then have "0 < ext p + incoming D h p" using assms(2) by (simp add: counts_ok_def)
    then consider "0 < ext p" | "0 < incoming D h p" by auto
    then show ?case
    proof cases
      case 1
      then show ?thesis by (rule root)
    next
      case 2
      then obtain q where q: "q \<in> holders D h" "0 < refs_to p (own_refs (the (h q)))"
        unfolding incoming_def using fin by (metis gr_zeroI less_numeral_extra(3) sum.neutral)
      then obtain v where v: "v \<in> set (own_refs (the (h q)))" "syli_ownership_untag v = p"
        by (auto simp: refs_to_def count_list_pos_iff)
      obtain x where x: "h q = Some x" using q(1) by (auto simp: holders_def)
      have "R q"
      proof (rule ccontr)
        assume nr: "\<not> R q"
        with down [OF q(1) x, of v] v x have "rank p < rank q" by simp
        then have "M - rank q < M - rank p" using bound [OF q(1)] by simp
        from less.hyps [OF this alive [OF q(1)]] nr show False by simp
      qed
      from step [OF x _ this, of v] v x show ?thesis by simp
    qed
  qed
qed

lemma held_reachable:
  assumes "heap_ok h" and "counts_ok ext D h"
    and alive: "\<And>q. q \<in> holders D h \<Longrightarrow> 0 < rc_at h q"
    and down: "\<And>q x v. q \<in> holders D h \<Longrightarrow> h q = Some x \<Longrightarrow> v \<in> set (own_refs x) \<Longrightarrow>
      reachable ext h q \<or> rank (syli_ownership_untag v) < (rank q :: nat)"
    and "0 < rc_at h p"
  shows "reachable ext h p"
proof (rule held_closed [OF assms(1,2), where R = "reachable ext h" and rank = rank])
  show "reachable ext h (syli_ownership_untag v)" if "h q = Some x" "v \<in> set (own_refs x)" "reachable ext h q" for q x v
    by (rule reachable.step [OF that(3,1,2)])
qed (use alive down assms(5) reachable.root in blast)+

lemma all_reachable:
  assumes "heap_ok h" and "counts_ok ext {} h" and "dead {} h = {}"
    and "\<And>q x v. h q = Some x \<Longrightarrow> v \<in> set (own_refs x) \<Longrightarrow> rank (syli_ownership_untag v) < (rank q :: nat)"
    and "p \<in> holders {} h"
  shows "reachable ext h p"
proof -
  have alive: "0 < rc_at h q" if "q \<in> holders {} h" for q
    using that assms(3) by (auto simp: dead_def)
  show ?thesis
    by (rule held_reachable [OF assms(1,2) alive, where rank = rank])
      (use assms(4) alive [OF assms(5)] in simp_all)
qed

end
