(* ===== verification/CollectorInv.thy ===== *)
theory CollectorInv
  imports ObjectGraph
begin

text \<open>
  The memory invariant the collectors share, and the steps both are made of: updating the
  meta word of one object, freeing a detached object (\<open>free_detached_heap\<close>), marking
  (\<open>mark_keeps_inv\<close>), and dropping one reference (\<open>decr_keeps_inv\<close>).
\<close>

section \<open>The invariant of memory\<close>

text \<open>The objects flagged as being on the tracing worklist.\<close>

definition traced :: "heap \<Rightarrow> u64 set" where
  "traced h = {p. \<exists>x. h p = Some x \<and> obj_flag Meta_Flags_Tracing x}"

text \<open>Exact counts, an intact registry, and a tracing worklist that holds every flagged object
  exactly once.\<close>

definition heap_inv :: "(u64 \<Rightarrow> nat) \<Rightarrow> u64 set \<Rightarrow> Syli_state \<Rightarrow> bool" where
  "heap_inv ext D s \<longleftrightarrow> heap_ok (gc_heap s) \<and> counts_ok ext D (gc_heap s)
     \<and> registry_inv (gc_heap s) (cyclic_candidates s)
     \<and> distinct (map syli_ownership_untag (tracing_worklist s))
     \<and> set (map syli_ownership_untag (tracing_worklist s)) = traced (gc_heap s)
     \<and> tracing_current_bit_mark s \<in> {0, MASK_MARKING_BIT}"

lemma heap_invD:
  assumes "heap_inv ext D s"
  shows "heap_ok (gc_heap s)" and "counts_ok ext D (gc_heap s)"
    and "registry_inv (gc_heap s) (cyclic_candidates s)"
    and "distinct (map syli_ownership_untag (tracing_worklist s))"
    and "set (map syli_ownership_untag (tracing_worklist s)) = traced (gc_heap s)"
    and "tracing_current_bit_mark s \<in> {0, MASK_MARKING_BIT}"
  using assms by (simp_all add: heap_inv_def)

lemma heap_okD: "heap_ok h \<Longrightarrow> h p = Some x \<Longrightarrow> p \<noteq> 0 \<and> untagged p \<and> obj_ok x \<and> obj_local x"
  by (auto simp: heap_ok_def obj_ok_def)

lemma traced_upd: "traced (h(p \<mapsto> y)) = (if obj_flag Meta_Flags_Tracing y then insert p (traced h) else traced h - {p})"
  by (auto simp: traced_def)

lemma traced_delete: "traced (h(p := None)) = traced h - {p}"
  by (auto simp: traced_def)

lemma traced_index: "same_but_index h h' \<Longrightarrow> traced h' = traced h"
proof (rule set_eqI)
  fix p
  assume s: "same_but_index h h'"
  show "p \<in> traced h' \<longleftrightarrow> p \<in> traced h"
  proof (cases "h' p")
    case None
    then show ?thesis using same_but_index_dom [OF s, of p] by (simp add: traced_def)
  next
    case (Some y)
    from same_index_flags [OF s Some] Some show ?thesis unfolding traced_def by fastforce
  qed
qed

lemma heap_inv_outside [simp]:
  "heap_inv ext D (s\<lparr>releasing_waitlist := w\<rparr>) = heap_inv ext D s"
  "heap_inv ext D (s\<lparr>releasing_worklist := w\<rparr>) = heap_inv ext D s"
  "heap_inv ext D (s\<lparr>lost_cycle_worklist := w\<rparr>) = heap_inv ext D s"
  "heap_inv ext D (s\<lparr>tracing_mutations_worklist := w\<rparr>) = heap_inv ext D s"
  "heap_inv ext D (s\<lparr>releasing_state := st\<rparr>) = heap_inv ext D s"
  "heap_inv ext D (s\<lparr>tracing_state := ts\<rparr>) = heap_inv ext D s"
  "heap_inv ext D (s\<lparr>releasing_budget := b\<rparr>) = heap_inv ext D s"
  "heap_inv ext D (s\<lparr>tracing_budget := b\<rparr>) = heap_inv ext D s"
  "heap_inv ext D (s\<lparr>checking_budget := b\<rparr>) = heap_inv ext D s"
  "heap_inv ext D (s\<lparr>releasing_steps := k\<rparr>) = heap_inv ext D s"
  "heap_inv ext D (s\<lparr>tracing_steps := k\<rparr>) = heap_inv ext D s"
  "heap_inv ext D (s\<lparr>mutation_steps := k\<rparr>) = heap_inv ext D s"
  "heap_inv ext D (s\<lparr>checking_steps := k\<rparr>) = heap_inv ext D s"
  "heap_inv ext D (s\<lparr>total_objects_traced := k\<rparr>) = heap_inv ext D s"
  "heap_inv ext D (s\<lparr>current_candidate_check_index := k\<rparr>) = heap_inv ext D s"
  by (simp_all add: heap_inv_def)

section \<open>Updating one object\<close>

text \<open>Replacing an object by one with the same references and another count or other flags keeps
  the invariant when the count and the worklist are accounted for.\<close>

lemma heap_inv_refs:
  assumes inv: "heap_inv ext D s" and c: "gc_heap s c = Some x" "own_refs y = own_refs x" "obj_ok y = obj_ok x"
    and flags: "obj_flag Meta_Flags_Waiting_Remove y = obj_flag Meta_Flags_Waiting_Remove x"
      "obj_flag Meta_Flags_Cyclic_Candidate y = obj_flag Meta_Flags_Cyclic_Candidate x"
    and idx: "obj_indexed y = obj_indexed x" "obj_index y = obj_index x"
    and cnt: "\<forall>p. p \<noteq> c \<longrightarrow> ext' p = ext p" "obj_rc y + ext c = obj_rc x + ext' c"
    and live: "\<not> obj_flag Meta_Flags_Waiting_Remove x"
    and tw: "distinct (map syli_ownership_untag tw)"
      "set (map syli_ownership_untag tw) = traced ((gc_heap s)(c \<mapsto> y))"
  shows "heap_inv ext' D (s\<lparr>gc_heap := (gc_heap s)(c \<mapsto> y), tracing_worklist := tw\<rparr>)"
    and "same_refs (gc_heap s) ((gc_heap s)(c \<mapsto> y))"
proof -
  let ?h = "gc_heap s" and ?h' = "(gc_heap s)(c \<mapsto> y)"
  show sr: "same_refs ?h ?h'"
    by (rule same_refs_upd [of ?h c x y, OF c flags(1)])
  have counts: "counts_ok ext' D ?h'"
    unfolding counts_ok_def
  proof (intro conjI allI)
    fix p
    have "rc_at ?h p = ext p + incoming D ?h p"
      using heap_invD(2) [OF inv] by (simp add: counts_ok_def)
    then show "rc_at ?h' p = ext' p + incoming D ?h' p"
      using cnt c(1) by (cases "p = c") (simp_all add: rc_at_upd rc_at_def same_refs_incoming [OF sr])
  next
    fix p z
    show "?h' p = Some z \<longrightarrow> obj_flag Meta_Flags_Waiting_Remove z \<longrightarrow> obj_rc z = 0
        \<and> obj_flag Meta_Flags_Tracing z \<and> \<not> obj_flag Meta_Flags_Cyclic_Candidate z"
      using live flags(1) heap_invD(2) [OF inv] by (auto simp: counts_ok_def split: if_splits)
  qed
  have reg: "registry_inv ?h' (cyclic_candidates s)"
    by (rule registry_inv_frame [OF heap_invD(3) [OF inv]])
      (use c(1) flags(2) idx in \<open>auto split: if_splits\<close>)
  show "heap_inv ext' D (s\<lparr>gc_heap := ?h', tracing_worklist := tw\<rparr>)"
    using counts reg same_refs_heap_ok [OF sr heap_invD(1) [OF inv]] tw heap_invD(6) [OF inv]
    by (simp add: heap_inv_def)
qed

text \<open>The same with the fields and the worklist flag unchanged.\<close>

lemma heap_inv_upd_same:
  assumes inv: "heap_inv ext D s" and c: "gc_heap s c = Some x" "same_fields x y"
    and flags: "\<And>f k. (f, k) \<in> meta_bits \<Longrightarrow> f \<noteq> MASK_MARKING_BIT \<Longrightarrow>
       f \<noteq> Meta_Flags_Children_Released \<Longrightarrow> obj_flag f y = obj_flag f x"
    and idx: "obj_indexed y = obj_indexed x" "obj_index y = obj_index x"
    and cnt: "\<forall>p. p \<noteq> c \<longrightarrow> ext' p = ext p" "obj_rc y + ext c = obj_rc x + ext' c"
    and live: "\<not> obj_flag Meta_Flags_Waiting_Remove x"
  shows "heap_inv ext' D (s\<lparr>gc_heap := (gc_heap s)(c \<mapsto> y)\<rparr>)"
    and "same_refs (gc_heap s) ((gc_heap s)(c \<mapsto> y))"
proof -
  have f: "obj_flag Meta_Flags_Waiting_Remove y = obj_flag Meta_Flags_Waiting_Remove x"
      "obj_flag Meta_Flags_Cyclic_Candidate y = obj_flag Meta_Flags_Cyclic_Candidate x"
      "obj_flag Meta_Flags_Tracing y = obj_flag Meta_Flags_Tracing x"
    using flags [OF waiting_bit_in] flags [OF tracing_bit_in] flags [OF candidate_bit_in]
      flags_distinct by auto
  have "traced ((gc_heap s)(c \<mapsto> y)) = traced (gc_heap s)"
    using c(1) f(3) by (auto simp: traced_upd) (auto simp: traced_def)
  then have "set (map syli_ownership_untag (tracing_worklist s)) = traced ((gc_heap s)(c \<mapsto> y))"
    using heap_invD(5) [OF inv] by simp
  from heap_inv_refs [OF inv c(1) same_fields_refs [OF c(2)] f(1,2) idx cnt live heap_invD(4) [OF inv] this]
  show "heap_inv ext' D (s\<lparr>gc_heap := (gc_heap s)(c \<mapsto> y)\<rparr>)"
    and "same_refs (gc_heap s) ((gc_heap s)(c \<mapsto> y))" by simp_all
qed

section \<open>Freeing a detached object\<close>

text \<open>What freeing leaves alone: the fields and flags of every other object.\<close>

definition frees :: "u64 \<Rightarrow> heap \<Rightarrow> heap \<Rightarrow> bool" where
  "frees q h h' \<longleftrightarrow> heap_shrinks h h' \<and> (\<forall>p. rc_at h' p = rc_at h p)
     \<and> (\<forall>p x. p \<noteq> q \<longrightarrow> h p = Some x \<longrightarrow> (\<exists>y. h' p = Some y
          \<and> meta_ref_count y = meta_ref_count x \<and> header_word y = header_word x \<and> own_refs y = own_refs x))
     \<and> q \<notin> holders {} h'"

lemma frees_kept: "frees q h h' \<Longrightarrow> p \<noteq> q \<Longrightarrow> h p \<noteq> None \<Longrightarrow> h' p \<noteq> None"
  unfolding frees_def by (metis not_None_eq)

text \<open>What \<open>free_released_object\<close> does to the object \<open>x\<close> at \<open>q\<close>, after its removal from the registry
  has changed indices only: it is freed, or kept for the tracer.\<close>

definition freed_or_waiting :: "u64 \<Rightarrow> gc_object \<Rightarrow> heap \<Rightarrow> heap \<Rightarrow> bool" where
  "freed_or_waiting q x h h' \<longleftrightarrow> (\<exists>h1. same_but_index h h1 \<and>
     (if obj_flag Meta_Flags_Tracing x
        then \<exists>y. h' = h1(q \<mapsto> y) \<and> obj_value y = obj_value x
               \<and> header_word y = header_word x \<and> obj_rc y = obj_rc x
               \<and> \<not> obj_flag Meta_Flags_Cyclic_Candidate y \<and> obj_flag Meta_Flags_Waiting_Remove y
               \<and> obj_flag Meta_Flags_Tracing y
               \<and> obj_flag Meta_Flags_Children_Released y = obj_flag Meta_Flags_Children_Released x
        else h' = h1(q := None)))"

lemma freed_or_waiting_at:
  assumes "freed_or_waiting q x h h'" and "h q = Some x" and "obj_rc x = 0"
  obtains h1 where "same_but_index h h1" and "\<And>p. p \<noteq> q \<Longrightarrow> h' p = h1 p"
    and "h' q = None \<or> (\<exists>y. h' q = Some y \<and> obj_value y = obj_value x
      \<and> header_word y = header_word x \<and> obj_rc y = 0 \<and> obj_flag Meta_Flags_Waiting_Remove y
      \<and> obj_flag Meta_Flags_Tracing y \<and> \<not> obj_flag Meta_Flags_Cyclic_Candidate y)"
    and "heap_shrinks h h'" and "traced h' = traced h"
proof -
  obtain h1 where sbi: "same_but_index h h1" and cases: "if obj_flag Meta_Flags_Tracing x
        then \<exists>y. h' = h1(q \<mapsto> y) \<and> obj_value y = obj_value x
               \<and> header_word y = header_word x \<and> obj_rc y = obj_rc x
               \<and> \<not> obj_flag Meta_Flags_Cyclic_Candidate y \<and> obj_flag Meta_Flags_Waiting_Remove y
               \<and> obj_flag Meta_Flags_Tracing y
               \<and> obj_flag Meta_Flags_Children_Released y = obj_flag Meta_Flags_Children_Released x
        else h' = h1(q := None)"
    using assms(1) unfolding freed_or_waiting_def by blast
  note q = refl assms(2,3)
  have away: "h' p = h1 p" if "p \<noteq> q" for p using cases that by (auto split: if_splits)
  have at: "h' q = None \<or> (\<exists>y. h' q = Some y \<and> obj_value y = obj_value x
      \<and> header_word y = header_word x \<and> obj_rc y = 0 \<and> obj_flag Meta_Flags_Waiting_Remove y
      \<and> obj_flag Meta_Flags_Tracing y \<and> \<not> obj_flag Meta_Flags_Cyclic_Candidate y)"
    using cases q(3) by (auto split: if_splits)
  have shrink: "heap_shrinks h h'"
    using cases heap_shrinks_index [OF sbi] q(2)
    by (auto split: if_splits intro!: heap_shrinks_delete heap_shrinks_upd simp: same_fields_eq)
  have tr: "traced h' = traced h"
  proof (cases "obj_flag Meta_Flags_Tracing x")
    case True
    then have "q \<in> traced h" using q(2) by (simp add: traced_def)
    moreover obtain y where "h' = h1(q \<mapsto> y)" "obj_flag Meta_Flags_Tracing y" using cases True by auto
    ultimately show ?thesis using traced_index [OF sbi] by (simp add: traced_upd insert_absorb)
  next
    case False
    then have "q \<notin> traced h" using q(2) by (simp add: traced_def)
    moreover have "h' = h1(q := None)" using cases False by simp
    ultimately show ?thesis using traced_index [OF sbi] by (simp add: traced_delete)
  qed
  show thesis by (rule that [OF sbi away at shrink tr])
qed

lemma detached_heap:
  assumes f: "freed_or_waiting q x h h'" and q: "q \<in> D" "h q = Some x" "obj_rc x = 0"
    and ok: "heap_ok h" "counts_ok ext D h"
  shows "holders (D - {q}) h' = holders D h" and "incoming (D - {q}) h' p = incoming D h p"
    and "rc_at h' p = rc_at h p" and "heap_ok h'" and "counts_ok ext (D - {q}) h'" and "frees q h h'"
proof -
  obtain h1 where sbi: "same_but_index h h1" and away: "\<And>p. p \<noteq> q \<Longrightarrow> h' p = h1 p"
    and at: "h' q = None \<or> (\<exists>y. h' q = Some y \<and> obj_value y = obj_value x
      \<and> header_word y = header_word x \<and> obj_rc y = 0 \<and> obj_flag Meta_Flags_Waiting_Remove y
      \<and> obj_flag Meta_Flags_Tracing y \<and> \<not> obj_flag Meta_Flags_Cyclic_Candidate y)"
    and shrink: "heap_shrinks h h'"
    by (rule freed_or_waiting_at [OF f q(2,3)]) blast
  note refs = same_refs_index [OF sbi]
  show hold: "holders (D - {q}) h' = holders D h"
  proof (rule set_eqI)
    fix p
    show "p \<in> holders (D - {q}) h' \<longleftrightarrow> p \<in> holders D h"
      using q(1) at away same_refs_holders [OF refs, of D]
      by (cases "p = q") (auto simp: holders_def set_eq_iff)
  qed
  have qh: "q \<notin> holders D h" using q(1) by (simp add: holders_def)
  show inc: "incoming (D - {q}) h' p = incoming D h p" for p
  proof -
    have "incoming (D - {q}) h' p = incoming D h1 p"
      unfolding incoming_def hold same_refs_holders [OF refs]
      by (rule sum.cong [OF refl]) (use qh away in metis)
    then show ?thesis by (simp add: same_refs_incoming [OF refs])
  qed
  show rc: "rc_at h' p = rc_at h p" for p
    using at away [of p] rc_at_index [OF sbi, of p] q(2,3) by (cases "p = q") (auto simp: rc_at_def)
  show "heap_ok h'"
  proof -
    have "heap_ok h1" by (rule same_refs_heap_ok [OF refs ok(1)])
    moreover have "obj_ok y" if "h' q = Some y" for y
      using at that own_refs_cong(2) [of y x] heap_okD [OF ok(1) q(2)] by auto
    moreover have "finite (dom h')"
      using finite_subset [OF heap_shrinks_dom [OF shrink]] ok(1) by (simp add: heap_ok_def)
    ultimately show ?thesis using away q(2) ok(1) unfolding heap_ok_def by metis
  qed
  have waits: "obj_rc z = 0 \<and> obj_flag Meta_Flags_Tracing z \<and> \<not> obj_flag Meta_Flags_Cyclic_Candidate z"
    if z: "h' p = Some z" "obj_flag Meta_Flags_Waiting_Remove z" for p z
  proof (cases "p = q")
    case True
    with at z show ?thesis by auto
  next
    case False
    with away z have "h1 p = Some z" by simp
    from same_index_flags [OF sbi this] ok(2) z(2) show ?thesis unfolding counts_ok_def by metis
  qed
  then show "counts_ok ext (D - {q}) h'" using ok(2) by (simp add: counts_ok_def rc inc)
  have same: "\<exists>y. h' p = Some y \<and> meta_ref_count y = meta_ref_count z \<and> header_word y = header_word z
      \<and> own_refs y = own_refs z" if p: "p \<noteq> q" "h p = Some z" for p z
  proof -
    have "h1 p = Some z \<or> (\<exists>i. h1 p = Some (set_index i z))"
      using sbi p(2) unfolding same_but_index_def by blast
    then show ?thesis using away [OF p(1)] by auto
  qed
  have "q \<notin> holders {} h'" using at by (auto simp: holders_def)
  then show "frees q h h'" unfolding frees_def using shrink rc same by blast
qed

lemma free_detached_heap:
  assumes inv: "heap_inv ext D s" and q: "q \<in> D" "gc_heap s q = Some x" "obj_rc x = 0"
  shows "\<exists>h' cs t m n. free_released_object q s
       = Inr (s\<lparr>gc_heap := h', cyclic_candidates := cs, total_objects_freed := t,
               cyclic_mem_dealloc := m, cyclic_obj_dealloc := n\<rparr>)
     \<and> heap_inv ext (D - {q}) (s\<lparr>gc_heap := h', cyclic_candidates := cs, total_objects_freed := t,
               cyclic_mem_dealloc := m, cyclic_obj_dealloc := n\<rparr>)
     \<and> frees q (gc_heap s) h' \<and> holders (D - {q}) h' = holders D (gc_heap s)"
proof -
  note I = heap_invD [OF inv]
  have qx: "q \<noteq> 0" "obj_local x" using heap_okD [OF I(1) q(2)] by auto
  obtain h1 h' cs t m n where r: "free_released_object q s
        = Inr (s\<lparr>gc_heap := h', cyclic_candidates := cs, total_objects_freed := t,
                cyclic_mem_dealloc := m, cyclic_obj_dealloc := n\<rparr>)"
    and sbi: "same_but_index (gc_heap s) h1" and reg: "registry_inv h' cs"
    and cases: "if obj_flag Meta_Flags_Tracing x
        then t = total_objects_freed s \<and> (\<exists>y. h' = h1(q \<mapsto> y) \<and> obj_value y = obj_value x
               \<and> header_word y = header_word x \<and> obj_rc y = obj_rc x
               \<and> \<not> obj_flag Meta_Flags_Cyclic_Candidate y \<and> obj_flag Meta_Flags_Waiting_Remove y
               \<and> obj_flag Meta_Flags_Tracing y
               \<and> obj_flag Meta_Flags_Children_Released y = obj_flag Meta_Flags_Children_Released x)
        else t = total_objects_freed s + 1 \<and> h' = h1(q := None)"
    using free_released_object_spec [OF I(3) qx(1) q(2) qx(2)] by blast
  have f: "freed_or_waiting q x (gc_heap s) h'"
    unfolding freed_or_waiting_def using sbi cases by (intro exI [of _ h1]) (auto split: if_splits)
  note D = detached_heap [OF f q I(1,2)]
  have tr: "traced h' = traced (gc_heap s)" by (rule freed_or_waiting_at [OF f q(2,3)])
  have "heap_inv ext (D - {q}) (s\<lparr>gc_heap := h', cyclic_candidates := cs, total_objects_freed := t,
               cyclic_mem_dealloc := m, cyclic_obj_dealloc := n\<rparr>)"
    using D(4,5) reg tr I(4,5,6) by (simp add: heap_inv_def)
  with r D(1,6) show ?thesis by blast
qed

text \<open>An object without references may leave the holders.\<close>

lemma detach_childless:
  assumes inv: "heap_inv ext D s" and y: "gc_heap s c = Some y" "own_refs y = []"
  shows "heap_inv ext (insert c D) s"
proof -
  have "incoming (insert c D) (gc_heap s) p = incoming D (gc_heap s) p" for p
  proof (cases "c \<in> holders D (gc_heap s)")
    case True
    from incoming_detach [OF heap_invD(1) [OF inv] True, of p] y show ?thesis by simp
  qed (rule incoming_nonholder)
  with inv show ?thesis by (simp add: heap_inv_def counts_ok_def)
qed

section \<open>Marking an object\<close>

lemma mark_mask_cases: "m AND MASK_MARKING_BIT \<in> {0, MASK_MARKING_BIT}" for m :: u64
proof -
  have "bit (m AND push_bit 63 1) n \<longleftrightarrow> bit (0 :: u64) n" if "\<not> bit m 63" for n
    using that mark_bit.set_bit_iff [of 0 n] by (metis bit_0_eq bit_and_iff bot_apply bot_bool_def or.left_neutral)
  then have "\<not> bit m 63 \<Longrightarrow> m AND push_bit 63 1 = 0" by (intro bit_word_eqI) blast
  moreover have "MASK_MARKING_BIT = push_bit 63 1" by (simp add: MASK_MARKING_BIT_def)
  ultimately show ?thesis using mark_bit.has_iff [of m] by auto
qed

lemma obj_marked_flag: "b \<in> {0, MASK_MARKING_BIT} \<Longrightarrow>
  obj_marked b x \<longleftrightarrow> (obj_flag MASK_MARKING_BIT x \<longleftrightarrow> b = MASK_MARKING_BIT)"
  using mark_mask_cases [of "meta_ref_count x"] by (auto simp: obj_marked_def obj_flag_def MASK_MARKING_BIT_def)

lemma obj_marked_cong:
  "heap_inv ext D s \<Longrightarrow> obj_flag MASK_MARKING_BIT y = obj_flag MASK_MARKING_BIT x
   \<Longrightarrow> obj_marked (tracing_current_bit_mark s) y = obj_marked (tracing_current_bit_mark s) x"
  using heap_invD(6) [of ext D s] by (simp add: obj_marked_flag)

lemma gc_mark_tag_object_spec:
  assumes "p \<noteq> 0" and "gc_heap s p = Some x" and "tracing_current_bit_mark s \<in> {0, MASK_MARKING_BIT}"
  shows "\<exists>m. gc_mark_tag_object p s = Inr (s\<lparr>gc_heap := (gc_heap s)(p \<mapsto> set_meta m x)\<rparr>)
     \<and> obj_rc (set_meta m x) = obj_rc x
     \<and> (\<forall>(f, k) \<in> meta_bits. f \<noteq> MASK_MARKING_BIT \<longrightarrow> obj_flag f (set_meta m x) = obj_flag f x)
     \<and> obj_marked (tracing_current_bit_mark s) (set_meta m x)"
proof -
  let ?c = "meta_ref_count x AND NOT MASK_MARKING_BIT"
  let ?m = "?c OR tracing_current_bit_mark s"
  have run: "gc_mark_tag_object p s = Inr (s\<lparr>gc_heap := (gc_heap s)(p \<mapsto> set_meta ?m x)\<rparr>)"
    using assms(1,2) by (simp add: gc_mark_tag_object_def deref_live on_heap_def write_meta_live)
  have c: "obj_rc (set_meta ?c x) = obj_rc x"
    "\<forall>(f, k) \<in> meta_bits. f \<noteq> MASK_MARKING_BIT \<longrightarrow> obj_flag f (set_meta ?c x) = obj_flag f x"
    using obj_rc_set_flag(2) [OF mark_in_meta_bits] obj_flag_set_flag(2) [OF mark_in_meta_bits]
    by fastforce+
  have m: "obj_rc (set_meta ?m x) = obj_rc x"
    "\<forall>(f, k) \<in> meta_bits. f \<noteq> MASK_MARKING_BIT \<longrightarrow> obj_flag f (set_meta ?m x) = obj_flag f x"
  proof -
    have "?m = ?c \<or> ?m = ?c OR MASK_MARKING_BIT" using assms(3) by auto
    then show "obj_rc (set_meta ?m x) = obj_rc x"
      "\<forall>(f, k) \<in> meta_bits. f \<noteq> MASK_MARKING_BIT \<longrightarrow> obj_flag f (set_meta ?m x) = obj_flag f x"
      using c obj_rc_set_flag(1) [OF mark_in_meta_bits, of "set_meta ?c x"]
        obj_flag_set_flag(1) [OF mark_in_meta_bits, of _ _ "set_meta ?c x"]
      by fastforce+
  qed
  have "?m AND MASK_MARKING_BIT = tracing_current_bit_mark s"
    using assms(3) by (auto simp: bit.conj_disj_distrib2 and.assoc)
  then have "obj_marked (tracing_current_bit_mark s) (set_meta ?m x)" by (simp add: obj_marked_def)
  with run m show ?thesis by blast
qed

lemma is_mark_tagged:
  "p \<noteq> 0 \<Longrightarrow> gc_heap s p = Some x \<Longrightarrow>
   gc_is_object_mark_tagged p s = Inr (obj_marked (tracing_current_bit_mark s) x)"
  by (simp add: gc_is_object_mark_tagged_def deref_live obj_marked_def)

lemma mark_keeps_inv:
  assumes inv: "heap_inv ext D s" and c: "gc_heap s c = Some x" and live: "\<not> obj_flag Meta_Flags_Waiting_Remove x"
  shows "\<exists>y. gc_mark_tag_object c s = Inr (s\<lparr>gc_heap := (gc_heap s)(c \<mapsto> y)\<rparr>)
     \<and> heap_inv ext D (s\<lparr>gc_heap := (gc_heap s)(c \<mapsto> y)\<rparr>)
     \<and> same_refs (gc_heap s) ((gc_heap s)(c \<mapsto> y)) \<and> same_fields x y \<and> obj_rc y = obj_rc x
     \<and> (\<forall>(f, k) \<in> meta_bits. f \<noteq> MASK_MARKING_BIT \<longrightarrow> obj_flag f y = obj_flag f x)
     \<and> obj_marked (tracing_current_bit_mark s) y"
proof -
  have c0: "c \<noteq> 0" using heap_okD [OF heap_invD(1) [OF inv] c] by blast
  obtain m where m: "gc_mark_tag_object c s = Inr (s\<lparr>gc_heap := (gc_heap s)(c \<mapsto> set_meta m x)\<rparr>)"
    "obj_rc (set_meta m x) = obj_rc x"
    "\<forall>(f, k) \<in> meta_bits. f \<noteq> MASK_MARKING_BIT \<longrightarrow> obj_flag f (set_meta m x) = obj_flag f x"
    "obj_marked (tracing_current_bit_mark s) (set_meta m x)"
    using gc_mark_tag_object_spec [of c s x] c c0 heap_invD(6) [OF inv] by blast
  have "heap_inv ext D (s\<lparr>gc_heap := (gc_heap s)(c \<mapsto> set_meta m x)\<rparr>)"
    "same_refs (gc_heap s) ((gc_heap s)(c \<mapsto> set_meta m x))"
    by (rule heap_inv_upd_same [OF inv c, of _ ext]; use m(2,3) live in auto)+
  with m show ?thesis by (intro exI [of _ "set_meta m x"]) simp
qed

section \<open>Dropping one reference\<close>

text \<open>The count of the object at \<open>c\<close> goes down by one, from \<open>x\<close> to \<open>y\<close>: what holds afterwards.\<close>

definition lowered ::
    "(u64 \<Rightarrow> nat) \<Rightarrow> u64 set \<Rightarrow> Syli_state \<Rightarrow> u64 \<Rightarrow> gc_object \<Rightarrow> gc_object \<Rightarrow> bool" where
  "lowered ext D s c x y \<longleftrightarrow>
     gc_heap s c = Some x \<and> 0 < obj_rc x \<and> c \<noteq> 0 \<and> obj_local x \<and> obj_ok x
     \<and> \<not> obj_flag Meta_Flags_Waiting_Remove x
     \<and> on_heap (syli_object_decr_local c) s = Inr (s\<lparr>gc_heap := (gc_heap s)(c \<mapsto> y)\<rparr>)
     \<and> heap_inv ext D (s\<lparr>gc_heap := (gc_heap s)(c \<mapsto> y)\<rparr>)
     \<and> same_refs (gc_heap s) ((gc_heap s)(c \<mapsto> y)) \<and> same_fields x y
     \<and> obj_rc y = obj_rc x - 1 \<and> (\<forall>(f, k) \<in> meta_bits. obj_flag f y = obj_flag f x)
     \<and> syli_object_refcount c ((gc_heap s)(c \<mapsto> y)) = Inr (meta_ref_count y AND REFCOUNT_MASK)
     \<and> (meta_ref_count y AND REFCOUNT_MASK = 0 \<longleftrightarrow> obj_rc y = 0)
     \<and> heap_shrinks (gc_heap s) ((gc_heap s)(c \<mapsto> y))
     \<and> (\<forall>p. rc_at ((gc_heap s)(c \<mapsto> y)) p = rc_at (gc_heap s) p - (if p = c then 1 else 0))
     \<and> dead D ((gc_heap s)(c \<mapsto> y))
         = (if obj_rc y = 0 \<and> c \<notin> D then insert c (dead D (gc_heap s)) else dead D (gc_heap s))
     \<and> c \<notin> dead D (gc_heap s)"

lemma loweredD:
  assumes "lowered ext D s c x y"
  shows "gc_heap s c = Some x" and "0 < obj_rc x" and "c \<noteq> 0" and "obj_local x" and "obj_ok x"
    and "\<not> obj_flag Meta_Flags_Waiting_Remove x"
    and "on_heap (syli_object_decr_local c) s = Inr (s\<lparr>gc_heap := (gc_heap s)(c \<mapsto> y)\<rparr>)"
    and "heap_inv ext D (s\<lparr>gc_heap := (gc_heap s)(c \<mapsto> y)\<rparr>)"
    and "same_refs (gc_heap s) ((gc_heap s)(c \<mapsto> y))" and "same_fields x y"
    and "obj_rc y = obj_rc x - 1" and "\<forall>(f, k) \<in> meta_bits. obj_flag f y = obj_flag f x"
    and "syli_object_refcount c ((gc_heap s)(c \<mapsto> y)) = Inr (meta_ref_count y AND REFCOUNT_MASK)"
    and "meta_ref_count y AND REFCOUNT_MASK = 0 \<longleftrightarrow> obj_rc y = 0"
    and "heap_shrinks (gc_heap s) ((gc_heap s)(c \<mapsto> y))"
    and "\<forall>p. rc_at ((gc_heap s)(c \<mapsto> y)) p = rc_at (gc_heap s) p - (if p = c then 1 else 0)"
    and "dead D ((gc_heap s)(c \<mapsto> y))
       = (if obj_rc y = 0 \<and> c \<notin> D then insert c (dead D (gc_heap s)) else dead D (gc_heap s))"
    and "c \<notin> dead D (gc_heap s)"
  using assms unfolding lowered_def by - (elim conjE, assumption)+

lemma lowered_same:
  assumes "lowered ext D s c x y"
  shows "header_word y = header_word x" and "own_refs y = own_refs x" and "\<not> obj_flag Meta_Flags_Waiting_Remove y"
    and "obj_flag Meta_Flags_Children_Released y = obj_flag Meta_Flags_Children_Released x"
    and "obj_flag Meta_Flags_Tracing y = obj_flag Meta_Flags_Tracing x"
    and "obj_flag Meta_Flags_Cyclic_Candidate y = obj_flag Meta_Flags_Cyclic_Candidate x"
proof -
  note L = loweredD [OF assms]
  show "header_word y = header_word x" "own_refs y = own_refs x"
    using L(10) same_fields_refs(1) [OF L(10)] by (simp_all add: same_fields_def)
  show "\<not> obj_flag Meta_Flags_Waiting_Remove y"
    and "obj_flag Meta_Flags_Children_Released y = obj_flag Meta_Flags_Children_Released x"
    and "obj_flag Meta_Flags_Tracing y = obj_flag Meta_Flags_Tracing x"
    and "obj_flag Meta_Flags_Cyclic_Candidate y = obj_flag Meta_Flags_Cyclic_Candidate x"
    using L(6,12) waiting_bit_in released_bit_in tracing_bit_in candidate_bit_in by fastforce+
qed

lemma decr_keeps_inv:
  assumes inv: "heap_inv (\<lambda>r. ext r + (if r = c then 1 else 0)) D s"
  shows "\<exists>x y. lowered ext D s c x y"
proof -
  let ?h = "gc_heap s"
  note I = heap_invD [OF inv]
  obtain x where x: "?h c = Some x" "0 < obj_rc x" "\<not> obj_flag Meta_Flags_Waiting_Remove x"
    using counts_ok_live [OF I(2), of c] by auto
  have cx: "c \<noteq> 0" "obj_local x" "obj_ok x" using heap_okD [OF I(1) x(1)] by auto
  define y where "y = set_meta (meta_ref_count x - 1) x"
  have y: "obj_rc y = obj_rc x - 1" "\<And>f k. (f, k) \<in> meta_bits \<Longrightarrow> obj_flag f y = obj_flag f x"
    using obj_rc_minus [of 1 x] obj_flag_minus [of _ _ 1 x] x(2) by (simp_all add: y_def)
  have sf: "same_fields x y" "obj_indexed y = obj_indexed x" "obj_index y = obj_index x" "obj_local y"
    using cx(2) by (simp_all add: y_def)
  have u: "heap_inv ext D (s\<lparr>gc_heap := ?h(c \<mapsto> y)\<rparr>)" "same_refs ?h (?h(c \<mapsto> y))"
    by (rule heap_inv_upd_same [OF inv x(1), of _ ext]; use y x sf in auto)+
  have decr: "on_heap (syli_object_decr_local c) s = Inr (s\<lparr>gc_heap := ?h(c \<mapsto> y)\<rparr>)"
    using object_ops_local(6) [of c ?h x] x cx by (simp add: on_heap_def y_def)
  have ref: "syli_object_refcount c (?h(c \<mapsto> y)) = Inr (meta_ref_count y AND REFCOUNT_MASK)"
    using object_ops_local(4) [of c "?h(c \<mapsto> y)" y] cx(1) sf(4) by simp
  have rcw: "meta_ref_count y AND REFCOUNT_MASK = 0 \<longleftrightarrow> obj_rc y = 0" by (simp add: obj_rc_def unat_eq_0)
  have shrink: "heap_shrinks ?h (?h(c \<mapsto> y))"
    using x(1) sf(1) y(2) [OF waiting_bit_in] by (intro heap_shrinks_upd [where x = x]) auto
  have hold: "holders D (?h(c \<mapsto> y)) = holders D ?h" by (rule same_refs_holders [OF u(2)])
  have cd: "c \<notin> dead D ?h" using x(1,2) by (simp add: dead_def rc_at_def)
  have rc1: "\<forall>p. rc_at (?h(c \<mapsto> y)) p = rc_at ?h p - (if p = c then 1 else 0)"
    using x(1) y(1) by (simp add: rc_at_upd) (simp add: rc_at_def)
  have dead1: "dead D (?h(c \<mapsto> y)) = (if obj_rc y = 0 \<and> c \<notin> D then insert c (dead D ?h) else dead D ?h)"
    using x cd unfolding dead_def hold by (auto simp: rc_at_upd holders_def)
  have flags: "\<forall>(f, k) \<in> meta_bits. obj_flag f y = obj_flag f x" using y(2) by blast
  have "lowered ext D s c x y"
    unfolding lowered_def by (intro conjI) (rule x cx decr u sf(1) y(1) flags ref rcw shrink rc1 dead1 cd)+
  then show ?thesis by blast
qed

end
