(* ===== verification/GcReleasing.thy ===== *)
theory GcReleasing
  imports CollectorInv
begin

text \<open>
  The deferred releasing collector of \<open>runtime/src/syli_state_gc_releasing.c\<close>: an object whose
  count has reached zero waits in a queue, is torn down by dropping its references one by
  one, and freed; a budget bounds a call. The main invariant \<open>rel_inv ext D s\<close> says that
  every reference count is exactly the number of references to the object (\<open>ext\<close> from
  outside the heap, the rest from objects) and that the queues hold exactly the objects with
  count zero. The loop is \<open>run_loop\<close>: that it returns is part of the theorems.
\<close>

section \<open>Releasing one reference, one object\<close>

definition child_release_object :: "obj_ptr \<Rightarrow> Syli_state \<Rightarrow> Syli_state result" where
  "child_release_object ptr s =
     check (ptr \<noteq> 0)
     (let obj = syli_object_of_obj_ptr ptr in
      and_then (on_heap (syli_object_decr_local obj) s) (\<lambda>s.
      and_then (syli_object_refcount obj (gc_heap s)) (\<lambda>rc.
      if 0 < rc then Inr s
      else and_then (deref obj (gc_heap s)) (\<lambda>x.
        if \<not> syli_object_has_pointers (header_word x) then free_released_object obj s
        else and_then (syli_object_refcount obj (gc_heap s)) (\<lambda>rc.
          check (rc = 0) (gc_releasing_worklist_push ptr s))))))"

text \<open>The three loops over the fields, by shape; \<open>obj\<close> has the header \<open>hw\<close>.\<close>

definition release_children :: "u64 \<Rightarrow> u64 \<Rightarrow> Syli_state \<Rightarrow> Syli_state result" where
  "release_children obj hw s =
     (if syli_object_is_mono_ref hw then
        and_then (syli_object_length hw) (\<lambda>len.
        let s = s\<lparr>releasing_budget := releasing_budget s - ucast len\<rparr> in
        scan_fields obj (\<lambda>_. True) (unat len) child_release_object s)
      else if syli_object_is_mixed_bitmap hw then
        and_then (syli_object_length hw) (\<lambda>len.
        and_then (syli_object_bitmap_bits hw) (\<lambda>bitmap.
        let s = s\<lparr>releasing_budget := releasing_budget s - ucast len\<rparr> in
        scan_fields obj (syli_bitmap_is_ref bitmap) (unat len) child_release_object s))
      else if syli_object_is_mixed_order hw then
        and_then (syli_object_order_ptr_count hw) (\<lambda>ptr_count.
        let s = s\<lparr>releasing_budget := releasing_budget s - ucast ptr_count\<rparr> in
        scan_fields obj (\<lambda>_. True) (unat ptr_count) child_release_object s)
      else Inr s)"

definition gc_one_step_releasing :: "Syli_state \<Rightarrow> Syli_state result" where
  "gc_one_step_releasing s =
     (let s = s\<lparr>releasing_budget := releasing_budget s - 1\<rparr> in
      and_then (gc_vector_pop_back (releasing_worklist s)) (\<lambda>(tagged_ptr, rest).
      let s = s\<lparr>releasing_worklist := rest\<rparr>;
          obj = syli_object_of_obj_ptr tagged_ptr in
      check (obj \<noteq> 0)
      (and_then (deref obj (gc_heap s)) (\<lambda>x.
       and_then (release_children obj (header_word x) s) (\<lambda>s.
       and_then (syli_object_refcount obj (gc_heap s)) (\<lambda>rc.
       check (rc = 0) (free_released_object obj s)))))))"

section \<open>The releasing state machine\<close>

definition set_releasing_working :: "Syli_state \<Rightarrow> Syli_state" where
  "set_releasing_working s =
     s\<lparr>releasing_worklist := releasing_waitlist s, releasing_waitlist := []\<rparr>"

text \<open>One round of the \<open>while (1)\<close> loop.\<close>

definition releasing_round :: "Syli_state \<Rightarrow> Syli_state loop_ctl result" where
  "releasing_round s =
     (if sint (releasing_budget s) \<le> 0 then Inr (Return s)
      else case releasing_state s of
        Releasing_Idle \<Rightarrow>
          if length (releasing_waitlist s) < unat (THRESHOLD_RELEASING_BUCKET s)
             \<or> length (releasing_waitlist s) = 0
          then Inr (Return s)
          else Inr (Continue ((set_releasing_working s)\<lparr>releasing_state := Releasing\<rparr>))
      | Releasing \<Rightarrow>
          and_then (gc_one_step_releasing s) (\<lambda>s.
            let s = s\<lparr>releasing_steps := releasing_steps s + 1\<rparr> in
            Inr (Continue (if length (releasing_worklist s) = 0
                           then s\<lparr>releasing_state := Releasing_Idle\<rparr> else s))))"

definition syli_state_gc_releasing :: "Syli_state \<Rightarrow> Syli_state result option" where
  "syli_state_gc_releasing s = run_loop releasing_round s"

section \<open>The registry while objects are freed\<close>

text \<open>Removing an entry by swapping with the last one only shrinks every suffix of the registry,
  which is why the scan of the candidates goes from the top down.\<close>

definition suffix_shrinks :: "obj_ptr list \<Rightarrow> obj_ptr list \<Rightarrow> bool" where
  "suffix_shrinks cs cs' \<longleftrightarrow> (\<forall>k. set (drop k cs') \<subseteq> set (drop k cs))"

lemma suffix_shrinks_refl [simp]: "suffix_shrinks cs cs"
  by (simp add: suffix_shrinks_def)

lemma suffix_shrinks_trans: "suffix_shrinks as bs \<Longrightarrow> suffix_shrinks bs cs \<Longrightarrow> suffix_shrinks as cs"
  unfolding suffix_shrinks_def by blast

lemma gc_remove_candidate_at_suffix:
  assumes "gc_remove_candidate_at i s = Inr s'" and "length (cyclic_candidates s) < 2 ^ 64"
  shows "suffix_shrinks (cyclic_candidates s) (cyclic_candidates s')"
proof -
  let ?cs = "cyclic_candidates s" and ?l = "of_nat (length (cyclic_candidates s)) - 1 :: u64"
  show ?thesis
  proof (cases "i = ?l")
    case True
    with assms(1) have "cyclic_candidates s' = butlast ?cs" by (auto simp: gc_remove_candidate_at_def Let_def)
    then show ?thesis by (auto simp: suffix_shrinks_def drop_butlast dest: in_set_butlastD)
  next
    case False
    with assms(1) have i: "unat i < length ?cs" and l: "unat ?l < length ?cs"
      and s': "cyclic_candidates s' = butlast (?cs[unat i := ?cs ! unat ?l])"
      by (auto simp: gc_remove_candidate_at_def Let_def and_then_eq_Inr candidate_at_def on_heap_eq_Inr
          split: if_splits)
    have last: "unat ?l = length ?cs - 1"
      using i assms(2) of_nat_last_index [of "length ?cs - 1"] by (cases "length ?cs") simp_all
    have "x \<in> set (drop k ?cs)" if x: "x \<in> set (drop k (?cs[unat i := ?cs ! unat ?l]))" for k x
    proof (cases "k \<le> unat i")
      case True
      then have "?cs ! unat ?l \<in> set (drop k ?cs)"
        using i l last unfolding in_set_conv_nth by (intro exI [of _ "unat ?l - k"]) auto
      moreover have "drop k (?cs[unat i := ?cs ! unat ?l]) = (drop k ?cs)[unat i - k := ?cs ! unat ?l]"
        using True by (rule drop_update_swap)
      ultimately show ?thesis using x set_update_subset_insert by fastforce
    next
      case False
      with x show ?thesis by simp
    qed
    then show ?thesis by (auto simp: suffix_shrinks_def s' drop_butlast dest: in_set_butlastD)
  qed
qed

lemma free_released_suffix:
  assumes "free_released_object q s = Inr s'" and "length (cyclic_candidates s) < 2 ^ 64"
  shows "suffix_shrinks (cyclic_candidates s) (cyclic_candidates s')"
proof -
  have acc: "cyclic_candidates t' = cyclic_candidates t" if "gc_account_cyclic_free q t = Inr t'" for t t'
    using that by (auto simp: gc_account_cyclic_free_def and_then_eq_Inr split: if_splits)
  from assms show ?thesis
    unfolding free_released_object_def Let_def
    by (auto simp: and_then_eq_Inr on_heap_eq_Inr dest!: acc split: if_splits
        dest: gc_remove_candidate_at_suffix)
qed

section \<open>The invariant of the releasing collector\<close>

definition rel_queue :: "Syli_state \<Rightarrow> obj_ptr list" where
  "rel_queue s = releasing_worklist s @ releasing_waitlist s"

text \<open>The objects waiting to be torn down are exactly those whose count is zero, each once.\<close>

definition rel_inv :: "(u64 \<Rightarrow> nat) \<Rightarrow> u64 set \<Rightarrow> Syli_state \<Rightarrow> bool" where
  "rel_inv ext D s \<longleftrightarrow> heap_inv ext D s \<and> (\<forall>p \<in> D. rc_at (gc_heap s) p = 0)
     \<and> distinct (map syli_ownership_untag (rel_queue s))
     \<and> set (map syli_ownership_untag (rel_queue s)) = dead D (gc_heap s)"

text \<open>What the releasing collector leaves to the tracer as it was: the flags of the objects it does
  not free, which it may only mark when their count is zero, and the state of the tracer.\<close>

definition obj_kept :: "u64 \<Rightarrow> gc_object \<Rightarrow> gc_object \<Rightarrow> bool" where
  "obj_kept b x y \<longleftrightarrow>
     obj_flag Meta_Flags_Children_Released y = obj_flag Meta_Flags_Children_Released x
     \<and> obj_flag Meta_Flags_Cyclic_Candidate y = obj_flag Meta_Flags_Cyclic_Candidate x
     \<and> obj_flag Meta_Flags_Tracing y = obj_flag Meta_Flags_Tracing x
     \<and> (obj_marked b x \<longrightarrow> obj_marked b y)
     \<and> (0 < obj_rc y \<longrightarrow> 0 < obj_rc x \<and> (obj_marked b y \<longrightarrow> obj_marked b x))"

definition objects_kept :: "u64 \<Rightarrow> heap \<Rightarrow> heap \<Rightarrow> bool" where
  "objects_kept b h h' \<longleftrightarrow>
     (\<forall>p x y. h p = Some x \<longrightarrow> h' p = Some y \<longrightarrow> \<not> obj_flag Meta_Flags_Waiting_Remove y \<longrightarrow> obj_kept b x y)"

definition tracer_kept :: "Syli_state \<Rightarrow> Syli_state \<Rightarrow> bool" where
  "tracer_kept s s' \<longleftrightarrow> tracing_state s' = tracing_state s
     \<and> tracing_current_bit_mark s' = tracing_current_bit_mark s
     \<and> tracing_mutations_worklist s' = tracing_mutations_worklist s
     \<and> lost_cycle_worklist s' = lost_cycle_worklist s \<and> tracing_budget s' = tracing_budget s
     \<and> gc_settings s' = gc_settings s
     \<and> current_candidate_check_index s' = current_candidate_check_index s
     \<and> suffix_shrinks (cyclic_candidates s) (cyclic_candidates s')
     \<and> objects_kept (tracing_current_bit_mark s) (gc_heap s) (gc_heap s')"

lemma obj_kept_refl [simp]: "obj_kept b x x"
  by (simp add: obj_kept_def)

lemma obj_kept_trans: "obj_kept b x y \<Longrightarrow> obj_kept b y z \<Longrightarrow> obj_kept b x z"
  unfolding obj_kept_def by argo

lemma objects_kept_refl [simp]: "objects_kept b h h"
  by (simp add: objects_kept_def)

lemma objects_kept_trans:
  assumes "objects_kept b h1 h2" and "objects_kept b h2 h3" and "heap_shrinks h2 h3"
  shows "objects_kept b h1 h3"
  unfolding objects_kept_def
proof (intro allI impI)
  fix p x z
  assume x: "h1 p = Some x" and z: "h3 p = Some z" "\<not> obj_flag Meta_Flags_Waiting_Remove z"
  obtain y where y: "h2 p = Some y" "\<not> obj_flag Meta_Flags_Waiting_Remove y"
    using assms(3) z unfolding heap_shrinks_def by blast
  have "obj_kept b x y" "obj_kept b y z" using assms(1,2) x y z unfolding objects_kept_def by blast+
  then show "obj_kept b x z" by (rule obj_kept_trans)
qed

lemma tracer_kept_refl [simp]: "tracer_kept s s"
  by (simp add: tracer_kept_def)

lemma tracer_kept_trans:
  assumes "tracer_kept s1 s2" and "tracer_kept s2 s3" and "heap_shrinks (gc_heap s2) (gc_heap s3)"
  shows "tracer_kept s1 s3"
  using assms objects_kept_trans [OF _ _ assms(3)]
    suffix_shrinks_trans [of "cyclic_candidates s1" "cyclic_candidates s2" "cyclic_candidates s3"]
  by (simp add: tracer_kept_def)

text \<open>A change of one object that keeps its fields and flags, and does not bring it back to life.\<close>

lemma tracer_kept_upd:
  assumes "heap_inv ext D s" and "gc_heap s c = Some x" and "0 < obj_rc x"
    and "\<forall>(f, k) \<in> meta_bits. obj_flag f y = obj_flag f x"
  shows "tracer_kept s (s\<lparr>gc_heap := (gc_heap s)(c \<mapsto> y)\<rparr>)"
proof -
  have fl: "obj_flag MASK_MARKING_BIT y = obj_flag MASK_MARKING_BIT x"
    "obj_flag Meta_Flags_Children_Released y = obj_flag Meta_Flags_Children_Released x"
    "obj_flag Meta_Flags_Cyclic_Candidate y = obj_flag Meta_Flags_Cyclic_Candidate x"
    "obj_flag Meta_Flags_Tracing y = obj_flag Meta_Flags_Tracing x"
    using assms(4) mark_in_meta_bits released_bit_in candidate_bit_in tracing_bit_in by fastforce+
  from assms(2,3) fl obj_marked_cong [OF assms(1) fl(1)] show ?thesis
    by (simp add: tracer_kept_def objects_kept_def obj_kept_def)
qed

text \<open>What a step of the teardown leaves alone: the tags of the other objects' meta words up to
  the count and the mark, and all but the memory and the waitlist.\<close>

definition rel_frame :: "u64 set \<Rightarrow> Syli_state \<Rightarrow> Syli_state \<Rightarrow> bool" where
  "rel_frame D s s' \<longleftrightarrow> heap_shrinks (gc_heap s) (gc_heap s')
     \<and> (\<forall>p \<in> D. gc_heap s p \<noteq> None \<longrightarrow> gc_heap s' p \<noteq> None)
     \<and> releasing_worklist s' = releasing_worklist s
     \<and> releasing_state s' = releasing_state s
     \<and> tracing_worklist s' = tracing_worklist s
     \<and> THRESHOLD_RELEASING_BUCKET s' = THRESHOLD_RELEASING_BUCKET s
     \<and> tracer_kept s s'"

lemma rel_frame_refl [simp]: "rel_frame D s s"
  by (simp add: rel_frame_def)

lemma rel_frame_trans: "rel_frame D s1 s2 \<Longrightarrow> rel_frame D s2 s3 \<Longrightarrow> rel_frame D s1 s3"
  unfolding rel_frame_def by (auto intro: heap_shrinks_trans tracer_kept_trans)

lemma rel_inv_outside [simp]:
  "rel_inv ext D (s\<lparr>releasing_budget := b\<rparr>) = rel_inv ext D s"
  "rel_inv ext D (s\<lparr>releasing_steps := k\<rparr>) = rel_inv ext D s"
  "rel_inv ext D (s\<lparr>releasing_state := st\<rparr>) = rel_inv ext D s"
  by (simp_all add: rel_inv_def rel_queue_def)

text \<open>An unreferenced object of the teardown is freed, or left to the tracer.\<close>

lemma free_detached:
  assumes inv: "rel_inv ext D s" and q: "q \<in> D" "gc_heap s q = Some x"
  shows "\<exists>s'. free_released_object q s = Inr s' \<and> rel_inv ext (D - {q}) s'
     \<and> rel_frame (D - {q}) s s' \<and> q \<notin> holders {} (gc_heap s')
     \<and> (\<forall>p. rc_at (gc_heap s') p = rc_at (gc_heap s) p)"
proof -
  have hinv: "heap_inv ext D s" and zero: "\<forall>p \<in> D. rc_at (gc_heap s) p = 0"
    using inv by (simp_all add: rel_inv_def)
  have "obj_rc x = 0" using zero q by (auto simp: rc_at_def)
  from free_detached_heap [OF hinv q this] obtain h' cs t m n where
    r: "free_released_object q s = Inr (s\<lparr>gc_heap := h', cyclic_candidates := cs,
         total_objects_freed := t, cyclic_mem_dealloc := m, cyclic_obj_dealloc := n\<rparr>)"
    and k: "heap_inv ext (D - {q}) (s\<lparr>gc_heap := h', cyclic_candidates := cs,
         total_objects_freed := t, cyclic_mem_dealloc := m, cyclic_obj_dealloc := n\<rparr>)"
    and f: "frees q (gc_heap s) h'" and hold: "holders (D - {q}) h' = holders D (gc_heap s)"
    by (elim exE conjE)
  let ?s' = "s\<lparr>gc_heap := h', cyclic_candidates := cs,
         total_objects_freed := t, cyclic_mem_dealloc := m, cyclic_obj_dealloc := n\<rparr>"
  have rc: "rc_at h' p = rc_at (gc_heap s) p" for p using f by (simp add: frees_def)
  have "dead (D - {q}) h' = dead D (gc_heap s)" by (simp add: dead_def hold rc)
  with inv k have "rel_inv ext (D - {q}) ?s'" by (simp add: rel_inv_def rel_queue_def rc)
  moreover have tr: "tracer_kept s ?s'"
  proof -
    have "length (cyclic_candidates s) < 2 ^ 64" using heap_invD(3) [OF hinv] by (simp add: registry_inv_def)
    then have suffix: "suffix_shrinks (cyclic_candidates s) cs" using free_released_suffix [OF r] by simp
    have "obj_flag Meta_Flags_Waiting_Remove y \<or> meta_ref_count y = meta_ref_count x"
      if "gc_heap s p = Some x" "h' p = Some y" for p x y
    proof (cases "p = q")
      case True
      with f that(2) show ?thesis by (auto simp: frees_def holders_def)
    next
      case False
      with f that show ?thesis unfolding frees_def by (metis option.inject)
    qed
    then have same: "obj_flag Meta_Flags_Waiting_Remove y \<or> (\<forall>g. obj_flag g y = obj_flag g x)
        \<and> (\<forall>b. obj_marked b y = obj_marked b x)"
      if "gc_heap s p = Some x" "h' p = Some y" for p x y
      using that by (fastforce simp: obj_flag_def obj_marked_def)
    show ?thesis
      unfolding tracer_kept_def objects_kept_def obj_kept_def
    proof (intro conjI allI impI)
      fix p x y
      assume a: "gc_heap s p = Some x" "gc_heap ?s' p = Some y" "\<not> obj_flag Meta_Flags_Waiting_Remove y"
      with same [of p x y]
      show "obj_flag Meta_Flags_Children_Released y = obj_flag Meta_Flags_Children_Released x"
        "obj_flag Meta_Flags_Cyclic_Candidate y = obj_flag Meta_Flags_Cyclic_Candidate x"
        "obj_flag Meta_Flags_Tracing y = obj_flag Meta_Flags_Tracing x"
        "obj_marked (tracing_current_bit_mark s) x \<Longrightarrow> obj_marked (tracing_current_bit_mark s) y"
        "obj_marked (tracing_current_bit_mark s) y \<Longrightarrow> obj_marked (tracing_current_bit_mark s) x"
        by simp_all
      show "0 < obj_rc x" if "0 < obj_rc y" using rc [of p] a that by (simp add: rc_at_def)
    qed (use suffix in simp_all)
  qed
  moreover have "rel_frame (D - {q}) s ?s'"
    using frees_kept [OF f] f tr unfolding rel_frame_def frees_def by simp
  ultimately show ?thesis using r f rc by (intro exI [of _ ?s']) (simp add: frees_def)
qed

section \<open>Dropping one reference\<close>

text \<open>An object whose count has just reached zero, with children: it is marked and queued.\<close>

lemma release_push_spec:
  assumes inv: "heap_inv ext D s" and zero: "\<forall>p \<in> D. rc_at (gc_heap s) p = 0"
    and c: "gc_heap s c = Some x" "c = syli_ownership_untag v"
    and rc: "obj_rc x = 0" and live: "c \<notin> D" "\<not> obj_flag Meta_Flags_Waiting_Remove x"
    and queue: "distinct (map syli_ownership_untag (rel_queue s))"
      "set (map syli_ownership_untag (rel_queue s)) = dead D (gc_heap s) - {c}"
  shows "\<exists>s'. gc_releasing_worklist_push v s = Inr s' \<and> rel_inv ext D s' \<and> rel_frame D s s'
     \<and> (\<forall>p. rc_at (gc_heap s') p = rc_at (gc_heap s) p)"
proof -
  have cx: "c \<noteq> 0" "obj_local x" using heap_okD [OF heap_invD(1) [OF inv] c(1)] by auto
  have z: "syli_object_refcount c (gc_heap s) = Inr 0"
    using object_ops_local(4) [of c "gc_heap s" x] c(1) cx rc by (simp add: obj_rc_def unat_eq_0)
  obtain s1 where s1: "when_r (syli_object_is_cyclic_mutable (header_word x)) (gc_mark_tag_object c) s = Inr s1"
    and s1_inv: "heap_inv ext D s1" and s1_refs: "same_refs (gc_heap s) (gc_heap s1)"
    and s1_rc: "\<And>p. rc_at (gc_heap s1) p = rc_at (gc_heap s) p"
    and s1_shrink: "heap_shrinks (gc_heap s) (gc_heap s1)" and s1_eq: "\<exists>h. s1 = s\<lparr>gc_heap := h\<rparr>"
    and s1_tr: "tracer_kept s s1"
  proof (cases "syli_object_is_cyclic_mutable (header_word x)")
    case False
    have "same_refs (gc_heap s) (gc_heap s)" by (auto simp: same_refs_def)
    moreover have "\<exists>h. s = s\<lparr>gc_heap := h\<rparr>" by (rule exI [of _ "gc_heap s"]) simp
    ultimately show thesis using False inv by (intro that [of s]) simp_all
  next
    case True
    obtain y where y: "gc_mark_tag_object c s = Inr (s\<lparr>gc_heap := (gc_heap s)(c \<mapsto> y)\<rparr>)"
      "heap_inv ext D (s\<lparr>gc_heap := (gc_heap s)(c \<mapsto> y)\<rparr>)"
      "same_refs (gc_heap s) ((gc_heap s)(c \<mapsto> y))" "same_fields x y" "obj_rc y = obj_rc x"
      "\<forall>(f, k) \<in> meta_bits. f \<noteq> MASK_MARKING_BIT \<longrightarrow> obj_flag f y = obj_flag f x"
      "obj_marked (tracing_current_bit_mark s) y"
      using mark_keeps_inv [OF inv c(1) live(2)] by blast
    have w: "obj_flag Meta_Flags_Waiting_Remove y = obj_flag Meta_Flags_Waiting_Remove x"
      "obj_flag Meta_Flags_Children_Released y = obj_flag Meta_Flags_Children_Released x"
      "obj_flag Meta_Flags_Cyclic_Candidate y = obj_flag Meta_Flags_Cyclic_Candidate x"
      "obj_flag Meta_Flags_Tracing y = obj_flag Meta_Flags_Tracing x"
      using y(6) waiting_bit_in released_bit_in candidate_bit_in tracing_bit_in flags_distinct by fastforce+
    have tk: "tracer_kept s (s\<lparr>gc_heap := (gc_heap s)(c \<mapsto> y)\<rparr>)"
      using c(1) w(2-4) y(5,7) rc by (simp add: tracer_kept_def objects_kept_def obj_kept_def)
    show thesis
    proof (rule that)
      show "when_r (syli_object_is_cyclic_mutable (header_word x)) (gc_mark_tag_object c) s
          = Inr (s\<lparr>gc_heap := (gc_heap s)(c \<mapsto> y)\<rparr>)" using True y(1) by simp
    qed (use y(2-5) c(1) w(1) tk in \<open>auto simp: rc_at_upd rc_at_def intro!: heap_shrinks_upd\<close>)
  qed
  let ?s' = "s1\<lparr>releasing_waitlist := releasing_waitlist s1 @ [v]\<rparr>"
  have run: "gc_releasing_worklist_push v s = Inr ?s'"
    using z s1 c cx(1)
    by (simp add: gc_releasing_worklist_push_def syli_object_of_obj_ptr_def deref_live
        gc_vector_push_back_def)
  have q: "rel_queue ?s' = rel_queue s @ [v]" using s1_eq by (auto simp: rel_queue_def)
  have "dead D (gc_heap s1) = dead D (gc_heap s)"
    by (simp add: dead_def same_refs_holders [OF s1_refs] s1_rc)
  moreover have "c \<in> dead D (gc_heap s)"
    using c(1) live rc by (simp add: dead_def holders_def rc_at_def)
  ultimately have "rel_inv ext D ?s'"
    using s1_inv queue c(2) zero unfolding rel_inv_def q by (auto simp: s1_rc)
  moreover have "rel_frame D s ?s'"
    using s1_shrink s1_refs s1_eq s1_tr by (auto simp: rel_frame_def same_refs_def tracer_kept_def)
  ultimately show ?thesis using run s1_rc by auto
qed

text \<open>A count that has just gone down keeps everything else; at zero, the object is queued, or freed
  when it has no references.\<close>

lemma lowered_frame:
  assumes "heap_inv ext' D' s" and "lowered ext D s c x y"
  shows "rel_frame D s (s\<lparr>gc_heap := (gc_heap s)(c \<mapsto> y)\<rparr>)"
proof -
  note L = loweredD [OF assms(2)]
  have "tracer_kept s (s\<lparr>gc_heap := (gc_heap s)(c \<mapsto> y)\<rparr>)" by (rule tracer_kept_upd [OF assms(1) L(1,2,12)])
  with L(15,16) show ?thesis by (auto simp: rel_frame_def)
qed

lemma lowered_queued:
  assumes inv: "rel_inv ext' D s" and low: "lowered ext D s c x y" and c: "c = syli_ownership_untag v"
    and zero: "obj_rc y = 0" and live: "c \<notin> D"
  shows "\<exists>s'. gc_releasing_worklist_push v (s\<lparr>gc_heap := (gc_heap s)(c \<mapsto> y)\<rparr>) = Inr s' \<and> rel_inv ext D s'
     \<and> rel_frame D s s' \<and> (\<forall>p. rc_at (gc_heap s') p = rc_at (gc_heap s) p - (if p = c then 1 else 0))"
proof -
  let ?s1 = "s\<lparr>gc_heap := (gc_heap s)(c \<mapsto> y)\<rparr>"
  note L = loweredD [OF low]
  have "heap_inv ext' D s" and D: "\<forall>p \<in> D. rc_at ((gc_heap s)(c \<mapsto> y)) p = 0"
    using inv live by (auto simp: rel_inv_def rc_at_upd)
  note frame = lowered_frame [OF this(1) low]
  have "\<exists>s'. gc_releasing_worklist_push v ?s1 = Inr s' \<and> rel_inv ext D s' \<and> rel_frame D ?s1 s'
      \<and> (\<forall>p. rc_at (gc_heap s') p = rc_at (gc_heap ?s1) p)"
    by (rule release_push_spec [OF L(8), where c = c and x = y])
      (use D live zero lowered_same(3) [OF low] inv L(17,18) c in \<open>auto simp: rel_inv_def rel_queue_def\<close>)
  then show ?thesis using L(16) rel_frame_trans [OF frame] by auto
qed

lemma lowered_freed:
  assumes inv: "rel_inv ext' D s" and low: "lowered ext D s c x y" and zero: "obj_rc y = 0" and live: "c \<notin> D"
    and refs: "own_refs y = []"
  shows "\<exists>s'. free_released_object c (s\<lparr>gc_heap := (gc_heap s)(c \<mapsto> y)\<rparr>) = Inr s' \<and> rel_inv ext D s'
     \<and> rel_frame D s s' \<and> (\<forall>p. rc_at (gc_heap s') p = rc_at (gc_heap s) p - (if p = c then 1 else 0))"
proof -
  let ?h = "(gc_heap s)(c \<mapsto> y)"
  let ?s1 = "s\<lparr>gc_heap := ?h\<rparr>"
  note L = loweredD [OF low]
  have "heap_inv ext' D s" using inv by (simp add: rel_inv_def)
  note frame = lowered_frame [OF this low]
  have "heap_inv ext (insert c D) ?s1" by (rule detach_childless [OF L(8), where y = y]) (simp_all add: refs)
  moreover have "dead (insert c D) ?h = dead D (gc_heap s)" unfolding dead_insert L(17) using zero L(18) live by simp
  moreover have "\<forall>p \<in> insert c D. rc_at ?h p = 0" using inv live zero by (auto simp: rel_inv_def rc_at_upd)
  ultimately have "rel_inv ext (insert c D) ?s1" using inv by (simp add: rel_inv_def rel_queue_def)
  from free_detached [OF this, of c y] live
  obtain s' where "free_released_object c ?s1 = Inr s'" "rel_inv ext D s'" "rel_frame D ?s1 s'"
    "\<forall>p. rc_at (gc_heap s') p = rc_at ?h p" by auto
  then show ?thesis using L(16) rel_frame_trans [OF frame] by auto
qed

lemma child_release_ok:
  assumes inv: "rel_inv (\<lambda>r. ext r + (if r = syli_ownership_untag v then 1 else 0)) D s"
    and v: "v \<noteq> 0"
  shows "\<exists>s'. child_release_object v s = Inr s' \<and> rel_inv ext D s' \<and> rel_frame D s s'
     \<and> (\<forall>p. rc_at (gc_heap s') p
             = rc_at (gc_heap s) p - (if p = syli_ownership_untag v then 1 else 0))"
proof -
  let ?c = "syli_ownership_untag v"
  have hinv: "heap_inv (\<lambda>r. ext r + (if r = ?c then 1 else 0)) D s"
    and D0: "\<forall>p \<in> D. rc_at (gc_heap s) p = 0" using inv by (simp_all add: rel_inv_def)
  obtain x y where low: "lowered ext D s ?c x y" using decr_keeps_inv [OF hinv] by blast
  note L = loweredD [OF low] and same = lowered_same [OF low]
  let ?s1 = "s\<lparr>gc_heap := (gc_heap s)(?c \<mapsto> y)\<rparr>"
  have cD: "?c \<notin> D" using D0 L(1,2) by (auto simp: rc_at_def)
  have run: "child_release_object v s = (if obj_rc y = 0 then
      if syli_object_has_pointers (header_word x) then gc_releasing_worklist_push v ?s1
      else free_released_object ?c ?s1
      else Inr ?s1)"
    using L(3,7,13,14) v same(1)
    by (simp add: child_release_object_def syli_object_of_obj_ptr_def deref_live word_gt_0 Let_def cong: if_cong)
  consider (alive) "obj_rc y \<noteq> 0" | (queued) "obj_rc y = 0" "syli_object_has_pointers (header_word x)"
    | (plain) "obj_rc y = 0" "\<not> syli_object_has_pointers (header_word x)" by blast
  then show ?thesis
  proof cases
    case alive
    have "rel_inv ext D ?s1"
      using L(8,17) inv alive D0 cD by (auto simp: rel_inv_def rel_queue_def rc_at_upd)
    with run alive lowered_frame [OF hinv low] L(16) show ?thesis by simp
  next
    case queued
    with run lowered_queued [OF inv low refl queued(1) cD] show ?thesis by simp
  next
    case plain
    then have "own_refs y = []" using L(5) same(2) by (simp add: obj_ok_def)
    with run plain lowered_freed [OF inv low plain(1) cD] show ?thesis by simp
  qed
qed

section \<open>Tearing one object down\<close>

text \<open>The visitor contract for the release of children: the references still to be dropped
  count as external ones, and the object itself is detached.\<close>

definition release_inv ::
    "(u64 \<Rightarrow> nat) \<Rightarrow> u64 \<Rightarrow> gc_object \<Rightarrow> Syli_state \<Rightarrow> obj_ptr list \<Rightarrow> Syli_state \<Rightarrow> bool" where
  "release_inv ext p x s0 rs s \<longleftrightarrow>
     rel_inv (\<lambda>r. ext r + refs_to r rs) {p} s \<and> rel_frame {p} s0 s
     \<and> (\<exists>y. gc_heap s p = Some y \<and> same_fields x y)"

lemma rel_frame_outside [simp]:
  "rel_frame D s0 (s\<lparr>releasing_budget := b\<rparr>) = rel_frame D s0 s"
  by (simp add: rel_frame_def tracer_kept_def)

interpretation release: field_visitor child_release_object "release_inv ext p x s0" p x
  for ext p x s0
proof
  fix v rs s
  assume inv: "release_inv ext p x s0 (v # rs) s" and own: "is_own_field v"
  have "(\<lambda>r. ext r + refs_to r (v # rs))
      = (\<lambda>r. (ext r + refs_to r rs) + (if r = syli_ownership_untag v then 1 else 0))" by auto
  with inv have "rel_inv (\<lambda>r. (ext r + refs_to r rs)
      + (if r = syli_ownership_untag v then 1 else 0)) {p} s" by (simp add: release_inv_def)
  from child_release_ok [OF this] own
  obtain s' where s': "child_release_object v s = Inr s'" "rel_inv (\<lambda>r. ext r + refs_to r rs) {p} s'"
    "rel_frame {p} s s'" by (auto simp: is_own_field_def)
  obtain y where y: "gc_heap s p = Some y" "same_fields x y" using inv by (auto simp: release_inv_def)
  then obtain y' where y': "gc_heap s' p = Some y'" using s'(3) by (auto simp: rel_frame_def)
  with s'(3) y have "same_fields y y'" by (auto simp: rel_frame_def dest: heap_shrinksD)
  with y(2) have "same_fields x y'" by (rule same_fields_trans)
  with s' y' inv rel_frame_trans show "\<exists>s'. child_release_object v s = Inr s' \<and> release_inv ext p x s0 rs s'"
    unfolding release_inv_def by blast
next
  fix rs s i
  assume inv: "release_inv ext p x s0 rs s" and i: "i \<in> set (ref_slots (header_word x))"
  obtain y where y: "gc_heap s p = Some y" "same_fields x y" using inv by (auto simp: release_inv_def)
  have "heap_ok (gc_heap s)" using inv by (simp add: release_inv_def rel_inv_def heap_inv_def)
  from read_same_slot [OF this y i] show "read_field p i (gc_heap s) = Inr (obj_value x ! i)" .
qed

lemma release_children_ok:
  assumes "release_inv ext p x s0 (own_refs x) s"
  shows "\<exists>s'. release_children p (header_word x) s = Inr s' \<and> release_inv ext p x s0 [] s'"
proof -
  have inv: "release_inv ext p x s0 (own_refs x) (s\<lparr>releasing_budget := b\<rparr>)" for b
    using assms by (simp add: release_inv_def)
  obtain len where len: "syli_object_length (header_word x) = Inr len"
    by (rule syli_object_length_total)
  consider "syli_object_is_mono_ref (header_word x)" | "syli_object_is_mixed_bitmap (header_word x)"
    | "syli_object_is_mixed_order (header_word x)" | "syli_object_is_mono_imm (header_word x)"
    by (cases "syli_object_type (header_word x)") (simp_all add: type_predicates)
  then show ?thesis
  proof cases
    case 1
    then show ?thesis using release.scan_mono_ref [OF inv 1 len] len
      by (simp add: release_children_def Let_def)
  next
    case 2
    then obtain bits where bits: "syli_object_bitmap_bits (header_word x) = Inr bits"
      using shape_accessors(2) by blast
    from 2 release.scan_mixed_bitmap [OF inv 2 len bits] len bits show ?thesis
      by (simp add: release_children_def Let_def type_predicates)
  next
    case 3
    then obtain n where n: "syli_object_order_ptr_count (header_word x) = Inr n"
      using shape_accessors(3) by blast
    from 3 release.scan_mixed_order [OF inv 3 n] n show ?thesis
      by (simp add: release_children_def Let_def type_predicates)
  next
    case 4
    then show ?thesis using assms own_refs_mono_imm [OF 4]
      by (simp add: release_children_def type_predicates)
  qed
qed

text \<open>Detaching the object at the end of the worklist.\<close>

lemma detach_last:
  assumes inv: "rel_inv ext {} s" and ne: "releasing_worklist s \<noteq> []"
    and p: "p = syli_ownership_untag (last (releasing_worklist s))"
  obtains x where "gc_heap s p = Some x" and "p \<noteq> 0" and "obj_rc x = 0"
    and "p \<in> holders {} (gc_heap s)"
    and "rel_inv (\<lambda>r. ext r + refs_to r (own_refs x)) {p}
           (s\<lparr>releasing_worklist := butlast (releasing_worklist s)\<rparr>)"
proof -
  let ?h = "gc_heap s" and ?w = "releasing_worklist s"
  have hinv: "heap_inv ext {} s" using inv by (simp add: rel_inv_def)
  note I = heap_invD [OF hinv]
  have q: "rel_queue s = butlast ?w @ [last ?w] @ releasing_waitlist s"
    using ne by (simp add: rel_queue_def)
  have dist: "distinct (map syli_ownership_untag (rel_queue s))"
    and dead: "set (map syli_ownership_untag (rel_queue s)) = dead {} ?h"
    using inv by (simp_all add: rel_inv_def)
  have pd: "p \<in> dead {} ?h" using dead unfolding q p by auto
  then obtain x where x: "?h p = Some x" "obj_rc x = 0" and ph: "p \<in> holders {} ?h"
    by (auto simp: dead_def holders_def rc_at_def)
  have p0: "p \<noteq> 0" using heap_okD [OF I(1) x(1)] by blast
  have inc: "incoming {} ?h r = refs_to r (own_refs x) + incoming {p} ?h r" for r
    using incoming_detach [OF I(1) ph] x(1) by simp
  have "counts_ok (\<lambda>r. ext r + refs_to r (own_refs x)) {p} ?h"
    using I(2) unfolding counts_ok_def inc by auto
  then have "heap_inv (\<lambda>r. ext r + refs_to r (own_refs x)) {p} s"
    using hinv by (simp add: heap_inv_def)
  moreover have "\<forall>p' \<in> {p}. rc_at ?h p' = 0" using x by (simp add: rc_at_def)
  moreover have "distinct (map syli_ownership_untag (butlast ?w @ releasing_waitlist s))"
    and "set (map syli_ownership_untag (butlast ?w @ releasing_waitlist s)) = dead {p} ?h"
    using dist dead unfolding q dead_insert p by auto
  ultimately have "rel_inv (\<lambda>r. ext r + refs_to r (own_refs x)) {p} (s\<lparr>releasing_worklist := butlast ?w\<rparr>)"
    by (simp add: rel_inv_def rel_queue_def)
  then show thesis by (rule that [OF x(1) p0 x(2) ph])
qed

text \<open>One step: it succeeds, keeps the invariant, and one holder fewer is left.\<close>

lemma gc_one_step_releasing_ok:
  assumes inv: "rel_inv ext {} s" and ne: "releasing_worklist s \<noteq> []"
  shows "\<exists>s'. gc_one_step_releasing s = Inr s' \<and> rel_inv ext {} s'
     \<and> heap_shrinks (gc_heap s) (gc_heap s') \<and> holders {} (gc_heap s') \<subset> holders {} (gc_heap s)
     \<and> releasing_state s' = releasing_state s \<and> tracing_worklist s' = tracing_worklist s
     \<and> releasing_worklist s' = butlast (releasing_worklist s)
     \<and> THRESHOLD_RELEASING_BUCKET s' = THRESHOLD_RELEASING_BUCKET s \<and> tracer_kept s s'"
proof -
  define p where "p = syli_ownership_untag (last (releasing_worklist s))"
  obtain x where x: "gc_heap s p = Some x" "p \<noteq> 0" "obj_rc x = 0" "p \<in> holders {} (gc_heap s)"
    and det: "rel_inv (\<lambda>r. ext r + refs_to r (own_refs x)) {p}
           (s\<lparr>releasing_worklist := butlast (releasing_worklist s)\<rparr>)"
    by (rule detach_last [OF inv ne p_def])
  let ?s1 = "s\<lparr>releasing_budget := releasing_budget s - 1,
               releasing_worklist := butlast (releasing_worklist s)\<rparr>"
  have "rel_inv (\<lambda>r. ext r + refs_to r (own_refs x)) {p} ?s1"
    using det by (simp add: rel_inv_def heap_inv_def rel_queue_def)
  then have "release_inv ext p x ?s1 (own_refs x) ?s1"
    using x(1) by (simp add: release_inv_def)
  from release_children_ok [OF this] obtain s2 where
    s2: "release_children p (header_word x) ?s1 = Inr s2" and inv2: "release_inv ext p x ?s1 [] s2"
    by blast
  obtain y where y: "gc_heap s2 p = Some y" using inv2 by (auto simp: release_inv_def)
  have rel2: "rel_inv ext {p} s2" and fr2: "rel_frame {p} ?s1 s2"
    using inv2 by (simp_all add: release_inv_def)
  have hok2: "heap_inv ext {p} s2" "rc_at (gc_heap s2) p = 0" using rel2 by (simp_all add: rel_inv_def)
  have y0: "obj_rc y = 0" "obj_local y"
    using hok2(2) heap_okD [OF heap_invD(1) [OF hok2(1)] y] y by (auto simp: rc_at_def)
  have ref: "syli_object_refcount p (gc_heap s2) = Inr 0"
    using object_ops_local(4) [of p "gc_heap s2" y] y x(2) y0 by (simp add: obj_rc_def unat_eq_0)
  obtain s3 where s3: "free_released_object p s2 = Inr s3" "rel_inv ext {} s3" "rel_frame {} s2 s3"
    "p \<notin> holders {} (gc_heap s3)"
    using free_detached [OF rel2 _ y] by auto
  have "gc_one_step_releasing s = Inr s3"
    using ne x(1,2) s2 ref s3(1)
    by (simp add: gc_one_step_releasing_def gc_vector_pop_back_def Let_def syli_object_of_obj_ptr_def
        deref_live flip: p_def)
  moreover have shrink: "heap_shrinks (gc_heap s) (gc_heap s3)"
    using fr2 s3(3) heap_shrinks_trans by (auto simp: rel_frame_def)
  moreover have "holders {} (gc_heap s3) \<subset> holders {} (gc_heap s)"
    using heap_shrinks_holders [OF shrink, of "{}"] x(4) s3(4) by blast
  moreover have "tracer_kept s ?s1" by (simp add: tracer_kept_def)
  then have "tracer_kept s s3"
    using fr2 s3(3) tracer_kept_trans unfolding rel_frame_def by blast
  ultimately show ?thesis using s3(2,3) fr2 by (auto simp: rel_frame_def)
qed

section \<open>The loop\<close>

text \<open>The state machine works exactly while it has a worklist, so no step pops an empty one.\<close>

definition releasing_sm_ok :: "Syli_state \<Rightarrow> bool" where
  "releasing_sm_ok s \<longleftrightarrow> (releasing_state s = Releasing \<longleftrightarrow> releasing_worklist s \<noteq> [])"

definition releasing_done :: "Syli_state \<Rightarrow> bool" where
  "releasing_done s \<longleftrightarrow> sint (releasing_budget s) \<le> 0
     \<or> (releasing_state s = Releasing_Idle
        \<and> (length (releasing_waitlist s) < unat (THRESHOLD_RELEASING_BUCKET s)
           \<or> releasing_waitlist s = []))"

definition releasing_measure :: "Syli_state \<Rightarrow> nat" where
  "releasing_measure s = 2 * card (holders {} (gc_heap s))
     + (if releasing_state s = Releasing_Idle then 1 else 0)"

definition releasing_loop_inv :: "(u64 \<Rightarrow> nat) \<Rightarrow> Syli_state \<Rightarrow> Syli_state \<Rightarrow> bool" where
  "releasing_loop_inv ext s0 s \<longleftrightarrow> rel_inv ext {} s \<and> releasing_sm_ok s
     \<and> heap_shrinks (gc_heap s0) (gc_heap s) \<and> tracing_worklist s = tracing_worklist s0
     \<and> THRESHOLD_RELEASING_BUCKET s = THRESHOLD_RELEASING_BUCKET s0 \<and> tracer_kept s0 s"

lemma releasing_return:
  assumes "releasing_done s"
  shows "releasing_round s = Inr (Return s)"
  using assms by (auto simp: releasing_round_def releasing_done_def)

lemma releasing_start:
  assumes inv: "releasing_loop_inv ext s0 s" and more: "\<not> releasing_done s" and idle: "releasing_state s = Releasing_Idle"
  shows "\<exists>u. releasing_round s = Inr (Continue u) \<and> releasing_loop_inv ext s0 u \<and> (u, s) \<in> measure releasing_measure"
proof -
  let ?u = "(set_releasing_working s)\<lparr>releasing_state := Releasing\<rparr>"
  have w: "releasing_worklist s = []" using inv idle by (simp add: releasing_loop_inv_def releasing_sm_ok_def)
  have ne: "releasing_waitlist s \<noteq> []"
    and "\<not> length (releasing_waitlist s) < unat (THRESHOLD_RELEASING_BUCKET s)" "\<not> sint (releasing_budget s) \<le> 0"
    using more idle by (auto simp: releasing_done_def)
  then have "releasing_round s = Inr (Continue ?u)" using idle by (simp add: releasing_round_def)
  moreover have "releasing_loop_inv ext s0 ?u"
    using inv ne w
    by (simp add: releasing_loop_inv_def rel_inv_def rel_queue_def releasing_sm_ok_def set_releasing_working_def
        tracer_kept_def)
  moreover have "(?u, s) \<in> measure releasing_measure"
    using idle by (simp add: releasing_measure_def set_releasing_working_def)
  ultimately show ?thesis by blast
qed

lemma releasing_work:
  assumes inv: "releasing_loop_inv ext s0 s" and budget: "\<not> sint (releasing_budget s) \<le> 0"
    and work: "releasing_state s = Releasing"
  shows "\<exists>u. releasing_round s = Inr (Continue u) \<and> releasing_loop_inv ext s0 u \<and> (u, s) \<in> measure releasing_measure"
proof -
  note I = inv [unfolded releasing_loop_inv_def]
  have rel: "rel_inv ext {} s" and ne: "releasing_worklist s \<noteq> []" using I work by (simp_all add: releasing_sm_ok_def)
  obtain s' where s': "gc_one_step_releasing s = Inr s'" "rel_inv ext {} s'"
    "heap_shrinks (gc_heap s) (gc_heap s')" "holders {} (gc_heap s') \<subset> holders {} (gc_heap s)"
    "releasing_state s' = releasing_state s" "tracing_worklist s' = tracing_worklist s"
    "THRESHOLD_RELEASING_BUCKET s' = THRESHOLD_RELEASING_BUCKET s" "tracer_kept s s'"
    using gc_one_step_releasing_ok [OF rel ne] by blast
  let ?t = "s'\<lparr>releasing_steps := releasing_steps s' + 1\<rparr>"
  let ?u = "if length (releasing_worklist ?t) = 0 then ?t\<lparr>releasing_state := Releasing_Idle\<rparr> else ?t"
  have "releasing_round s = Inr (Continue ?u)"
    using budget work s'(1) by (simp add: releasing_round_def Let_def)
  moreover have "heap_shrinks (gc_heap s0) (gc_heap s')" "tracer_kept s0 s'"
    using I heap_shrinks_trans [OF _ s'(3)] tracer_kept_trans [OF _ s'(8,3)] by blast+
  then have "releasing_loop_inv ext s0 ?u"
    using s' work I by (simp add: releasing_loop_inv_def releasing_sm_ok_def tracer_kept_def)
  moreover have "finite (holders {} (gc_heap s))"
    using rel holders_subset [of "{}" "gc_heap s"]
    by (auto simp: rel_inv_def heap_inv_def heap_ok_def intro: finite_subset)
  from psubset_card_mono [OF this s'(4)] have "(?u, s) \<in> measure releasing_measure"
    using work s'(5) by (simp add: releasing_measure_def)
  ultimately show ?thesis by blast
qed

lemma releasing_round_ok:
  assumes inv: "releasing_loop_inv ext s0 s"
  shows "(\<exists>u. releasing_round s = Inr (Return u) \<and> releasing_loop_inv ext s0 u \<and> releasing_done u)
    \<or> (\<exists>u. releasing_round s = Inr (Continue u) \<and> releasing_loop_inv ext s0 u
          \<and> (u, s) \<in> measure releasing_measure)"
proof (cases "releasing_done s")
  case True
  with inv releasing_return show ?thesis by blast
next
  case False
  then have "\<not> sint (releasing_budget s) \<le> 0" by (simp add: releasing_done_def)
  with releasing_start [OF inv False] releasing_work [OF inv] show ?thesis by (cases "releasing_state s") blast+
qed

lemma releasing_total:
  assumes "rel_inv ext {} s" and "releasing_sm_ok s"
  shows "\<exists>s'. syli_state_gc_releasing s = Some (Inr s') \<and> releasing_loop_inv ext s s' \<and> releasing_done s'"
  unfolding syli_state_gc_releasing_def
proof (rule run_loop_total [where P = "releasing_loop_inv ext s" and r = "measure releasing_measure"])
  show "wf (measure releasing_measure)" by simp
  show "releasing_loop_inv ext s s" using assms by (simp add: releasing_loop_inv_def)
qed (use releasing_round_ok in blast)

section \<open>Properties\<close>

text \<open>A leaf object at 16, and an object at 8 that holds the only reference to it; no variable
  refers to the object at 8, which waits to be torn down.\<close>

definition leaf_object :: gc_object where
  "leaf_object = \<lparr>header_word = push_bit 43 3 OR 1, meta_ref_count = 1, obj_value = [5]\<rparr>"

definition parent_object :: gc_object where
  "parent_object = \<lparr>header_word = type_bits Type_MonoRef OR Flag_HasPointers OR push_bit 43 3 OR 1,
     meta_ref_count = 0, obj_value = [17]\<rparr>"

definition leaf_state :: Syli_state where
  "leaf_state = zero_state [16 \<mapsto> leaf_object]"

definition chain_state :: Syli_state where
  "chain_state = (zero_state [8 \<mapsto> parent_object, 16 \<mapsto> leaf_object])
     \<lparr>releasing_waitlist := [9], releasing_budget := 5000\<rparr>"

lemma sample_untag: "syli_ownership_untag 17 = 16" "syli_ownership_untag 9 = 8"
  "untagged 8" "untagged 16" "syli_ownership_is_own_ref 17"
  by (simp_all add: syli_ownership_untag_def untagged_def syli_ownership_is_own_ref_def tag_defs)

lemma leaf_facts:
  "obj_ok leaf_object" "own_refs leaf_object = []" "obj_rc leaf_object = 1"
  "\<not> obj_flag Meta_Flags_Cyclic_Candidate leaf_object"
  "\<not> obj_flag Meta_Flags_Waiting_Remove leaf_object" "\<not> obj_flag Meta_Flags_Tracing leaf_object"
  by (simp_all add: leaf_object_def obj_ok_def own_refs_def obj_local_def ref_slots_def ref_count_def
      header_accessor_defs header_mask_defs type_of_bits_def zone_of_bits_def obj_rc_def obj_flag_def
      REFCOUNT_MASK_def Meta_Flags_Cyclic_Candidate_def Meta_Flags_Waiting_Remove_def
      Meta_Flags_Tracing_def)

lemma parent_facts:
  "obj_ok parent_object" "own_refs parent_object = [17]" "obj_rc parent_object = 0"
  "\<not> obj_flag Meta_Flags_Cyclic_Candidate parent_object"
  "\<not> obj_flag Meta_Flags_Waiting_Remove parent_object" "\<not> obj_flag Meta_Flags_Tracing parent_object"
  using sample_untag(5)
  by (simp_all add: parent_object_def obj_ok_def own_refs_def obj_local_def ref_slots_def ref_count_def
      is_ref_slot_def is_own_field_def imm_flag_defs
      header_accessor_defs header_mask_defs type_of_bits_def zone_of_bits_def obj_rc_def obj_flag_def
      REFCOUNT_MASK_def Meta_Flags_Cyclic_Candidate_def Meta_Flags_Waiting_Remove_def
      Meta_Flags_Tracing_def)

lemma leaf_state_inv:
  "rel_inv (\<lambda>r. 0 + (if r = syli_ownership_untag 17 then 1 else 0)) {} leaf_state"
proof -
  have "holders {} [16 \<mapsto> leaf_object] = {16}" using leaf_facts by (auto simp: holders_def)
  then show ?thesis
    using leaf_facts sample_untag
    by (auto simp: rel_inv_def heap_inv_def leaf_state_def zero_state_def heap_ok_def counts_ok_def
        incoming_def rc_at_def registry_inv_def rel_queue_def dead_def traced_def split: if_splits)
qed

lemma chain_state_inv: "rel_inv (\<lambda>_. 0) {} chain_state" and chain_state_sm: "releasing_sm_ok chain_state"
proof -
  have "holders {} [8 \<mapsto> parent_object, 16 \<mapsto> leaf_object] = {8, 16}"
    using leaf_facts parent_facts by (auto simp: holders_def)
  then show "rel_inv (\<lambda>_. 0) {} chain_state"
    using leaf_facts parent_facts sample_untag
    by (auto simp: rel_inv_def heap_inv_def chain_state_def zero_state_def heap_ok_def counts_ok_def
        incoming_def rc_at_def registry_inv_def rel_queue_def dead_def traced_def split: if_splits)
  show "releasing_sm_ok chain_state"
    by (simp add: releasing_sm_ok_def chain_state_def zero_state_def)
qed

text \<open>C21: dropping a reference to an object (the release of a child) never fails when the counts
  are exact, and keeps them exact: the object's count goes down by one, no other count
  changes, and at zero the object is freed or queued for teardown (the queue stays exactly
  the set of objects with count zero).\<close>

theorem child_release_keeps_counts:
  assumes "rel_inv (\<lambda>r. ext r + (if r = syli_ownership_untag v then 1 else 0)) {} s" and "v \<noteq> 0"
  shows "\<exists>s'. child_release_object v s = Inr s' \<and> rel_inv ext {} s'
     \<and> heap_shrinks (gc_heap s) (gc_heap s')
     \<and> 0 < rc_at (gc_heap s) (syli_ownership_untag v)
     \<and> (\<forall>p. rc_at (gc_heap s') p
             = rc_at (gc_heap s) p - (if p = syli_ownership_untag v then 1 else 0))"
proof -
  have "counts_ok (\<lambda>r. ext r + (if r = syli_ownership_untag v then 1 else 0)) {} (gc_heap s)"
    using assms(1) by (simp add: rel_inv_def heap_inv_def)
  then have "0 < rc_at (gc_heap s) (syli_ownership_untag v)" by (simp add: counts_ok_def)
  with child_release_ok [OF assms] show ?thesis by (auto simp: rel_frame_def)
qed

theorem child_release_keeps_counts_witness:
  "\<exists>s'. child_release_object 17 leaf_state = Inr s' \<and> rc_at (gc_heap s') 16 = 0"
proof -
  have "rc_at (gc_heap leaf_state) 16 = 1"
    by (simp add: leaf_state_def zero_state_def rc_at_def leaf_facts)
  with child_release_keeps_counts [OF leaf_state_inv] show ?thesis by (auto simp: sample_untag)
qed

text \<open>C8: with exact counts, a call of the releasing collector returns (whatever its budget and
  threshold), without a failed assertion and without touching freed memory; the counts and
  the queue stay exact, the objects on the tracing worklist stay allocated, everything the
  program can reach stays allocated with a positive count, and it stops because the
  budget is used up or because the state machine is idle with too short a waitlist.\<close>

theorem gc_releasing_safe:
  assumes "rel_inv ext {} s" and "releasing_sm_ok s"
  shows "\<exists>s'. syli_state_gc_releasing s = Some (Inr s') \<and> rel_inv ext {} s' \<and> releasing_sm_ok s'
     \<and> (\<forall>p. reachable ext (gc_heap s) p \<longrightarrow> (\<exists>x. gc_heap s' p = Some x \<and> 0 < obj_rc x))
     \<and> (\<forall>r \<in> set (tracing_worklist s). gc_heap s' (syli_ownership_untag r) \<noteq> None)
     \<and> heap_shrinks (gc_heap s) (gc_heap s')
     \<and> (sint (releasing_budget s') \<le> 0
        \<or> (releasing_state s' = Releasing_Idle
           \<and> (length (releasing_waitlist s') < unat (THRESHOLD_RELEASING_BUCKET s')
              \<or> releasing_waitlist s' = [])))"
proof -
  obtain s' where s': "syli_state_gc_releasing s = Some (Inr s')" "releasing_loop_inv ext s s'"
    "releasing_done s'"
    using releasing_total [OF assms] by blast
  then have inv: "heap_inv ext {} s'" "heap_shrinks (gc_heap s) (gc_heap s')"
    by (simp_all add: releasing_loop_inv_def rel_inv_def)
  have "\<exists>x. gc_heap s' p = Some x \<and> 0 < obj_rc x" if "reachable ext (gc_heap s) p" for p
    using reachable_kept [OF that inv(2) heap_invD(2,1) [OF inv(1)]] by blast
  moreover have "\<forall>r \<in> set (tracing_worklist s). gc_heap s' (syli_ownership_untag r) \<noteq> None"
  proof
    fix r
    assume "r \<in> set (tracing_worklist s)"
    then have "syli_ownership_untag r \<in> traced (gc_heap s')"
      using heap_invD(5) [OF inv(1)] s'(2) by (auto simp: releasing_loop_inv_def)
    then show "gc_heap s' (syli_ownership_untag r) \<noteq> None" by (auto simp: traced_def)
  qed
  ultimately show ?thesis using s' unfolding releasing_loop_inv_def releasing_done_def by blast
qed

theorem gc_releasing_safe_witness:
  "\<exists>s'. syli_state_gc_releasing chain_state = Some (Inr s') \<and> rel_inv (\<lambda>_. 0) {} s'"
  using gc_releasing_safe [OF chain_state_inv chain_state_sm] by blast

text \<open>C9: when the threshold is zero (the default) and a call returns with budget left, every object left
  has a positive count, but for those that wait for the tracer to take them off its worklist;
  and when moreover the own references of the heap go down in some order, so that there are no
  cycles, all of these objects are reachable: the garbage has been reclaimed.\<close>

theorem gc_releasing_complete:
  assumes "rel_inv ext {} s" and "releasing_sm_ok s" and "THRESHOLD_RELEASING_BUCKET s = 0"
    and "syli_state_gc_releasing s = Some (Inr s')" and "0 < sint (releasing_budget s')"
  shows "(\<forall>p x. gc_heap s' p = Some x \<longrightarrow> \<not> obj_flag Meta_Flags_Waiting_Remove x \<longrightarrow> 0 < obj_rc x)
     \<and> (\<forall>p x. gc_heap s' p = Some x \<longrightarrow> obj_flag Meta_Flags_Waiting_Remove x \<longrightarrow>
          p \<in> syli_ownership_untag ` set (tracing_worklist s'))
     \<and> (\<forall>rank. (\<forall>q x v. gc_heap s q = Some x \<longrightarrow> v \<in> set (own_refs x) \<longrightarrow>
            rank (syli_ownership_untag v) < (rank q :: nat)) \<longrightarrow>
          (\<forall>p x. gc_heap s' p = Some x \<longrightarrow> \<not> obj_flag Meta_Flags_Waiting_Remove x \<longrightarrow> reachable ext (gc_heap s') p))"
proof -
  from releasing_total [OF assms(1,2)] assms(4)
  have inv: "releasing_loop_inv ext s s'" and fin: "releasing_done s'" by auto
  then have "releasing_waitlist s' = []" "releasing_worklist s' = []"
    using assms(3,5) by (auto simp: releasing_done_def releasing_loop_inv_def releasing_sm_ok_def)
  then have dead: "dead {} (gc_heap s') = {}"
    using inv by (simp add: releasing_loop_inv_def rel_inv_def rel_queue_def)
  have hinv: "heap_inv ext {} s'" and shr: "heap_shrinks (gc_heap s) (gc_heap s')"
    using inv by (simp_all add: releasing_loop_inv_def rel_inv_def)
  have hold: "p \<in> holders {} (gc_heap s')" if "gc_heap s' p = Some x" "\<not> obj_flag Meta_Flags_Waiting_Remove x" for p x
    using that by (simp add: holders_def)
  have "0 < obj_rc x" if "gc_heap s' p = Some x" "\<not> obj_flag Meta_Flags_Waiting_Remove x" for p x
    using hold [OF that] dead that(1) by (auto simp: dead_def rc_at_def)
  moreover have "p \<in> syli_ownership_untag ` set (tracing_worklist s')"
    if "gc_heap s' p = Some x" "obj_flag Meta_Flags_Waiting_Remove x" for p x
  proof -
    have "obj_flag Meta_Flags_Tracing x" using heap_invD(2) [OF hinv] that unfolding counts_ok_def by blast
    with that(1) heap_invD(5) [OF hinv] show ?thesis by (simp add: traced_def flip: set_map)
  qed
  moreover have "reachable ext (gc_heap s') p"
    if rank: "\<forall>q x v. gc_heap s q = Some x \<longrightarrow> v \<in> set (own_refs x) \<longrightarrow> rank (syli_ownership_untag v) < (rank q :: nat)"
      and p: "gc_heap s' p = Some x" "\<not> obj_flag Meta_Flags_Waiting_Remove x" for rank p x
  proof (rule all_reachable [OF heap_invD(1,2) [OF hinv] dead _ hold [OF p]])
    fix q y v
    assume q: "gc_heap s' q = Some y" "v \<in> set (own_refs y)"
    obtain x where "gc_heap s q = Some x" "same_fields x y" using heap_shrinksD [OF shr q(1)] by blast
    with same_fields_refs(1) rank q(2) show "rank (syli_ownership_untag v) < rank q" by metis
  qed
  ultimately show ?thesis by blast
qed

text \<open>The teardown of the chain, computed: both objects are freed and 4998 units of budget are
  left.\<close>

lemma chain_header:
  "syli_object_is_mono_ref (header_word parent_object)"
  "syli_object_length (header_word parent_object) = Inr 1"
  "obj_value parent_object = [17]" "\<not> syli_object_has_pointers (header_word leaf_object)"
  "\<not> syli_object_is_cyclic (header_word leaf_object)"
  "\<not> syli_object_is_cyclic (header_word parent_object)"
  "obj_local leaf_object" "obj_local parent_object"
  "\<not> obj_flag Meta_Flags_Tracing leaf_object" "\<not> obj_flag Meta_Flags_Tracing parent_object"
  using leaf_facts parent_facts
  by (simp_all add: parent_object_def leaf_object_def imm_flag_defs header_accessor_defs
      header_mask_defs type_of_bits_def obj_ok_def obj_flag_def Meta_Flags_Tracing_def)

lemma free_plain_object:
  assumes "q \<noteq> 0" and "gc_heap s q = Some x" and "obj_local x"
    and "\<not> obj_flag Meta_Flags_Cyclic_Candidate x" and "\<not> obj_flag Meta_Flags_Tracing x"
    and "\<not> syli_object_is_cyclic (header_word x)"
  shows "free_released_object q s = Inr (s\<lparr>total_objects_freed := total_objects_freed s + 1,
           gc_heap := (gc_heap s)(q := None)\<rparr>)"
proof -
  have "syli_object_has_flags q Meta_Flags_Cyclic_Candidate (gc_heap s) = Inr False"
    and "syli_object_has_flags q Meta_Flags_Tracing (gc_heap s) = Inr False"
    using object_ops_local(3) [of q "gc_heap s" x] assms by simp_all
  with assms show ?thesis
    by (simp add: free_released_object_def gc_account_cyclic_free_def deref_live on_heap_def
        free_block_def Let_def)
qed

lemma chain_child:
  assumes h: "gc_heap s = [8 \<mapsto> parent_object, 16 \<mapsto> leaf_object]"
  shows "child_release_object 17 s
      = Inr (s\<lparr>total_objects_freed := total_objects_freed s + 1, gc_heap := [8 \<mapsto> parent_object]\<rparr>)"
proof -
  let ?leaf = "set_meta (meta_ref_count leaf_object - 1) leaf_object"
  have leaf: "obj_rc ?leaf = 0" "\<not> obj_flag Meta_Flags_Cyclic_Candidate ?leaf"
    "\<not> obj_flag Meta_Flags_Tracing ?leaf"
    using obj_rc_minus [of 1 leaf_object] obj_flag_minus [OF candidate_bit_in, of 1 leaf_object]
      obj_flag_minus [OF tracing_bit_in, of 1 leaf_object] leaf_facts chain_header by simp_all
  let ?h1 = "[(8 :: u64) \<mapsto> parent_object, 16 \<mapsto> ?leaf]"
  have "syli_object_decr_local 16 (gc_heap s) = Inr ?h1"
    using object_ops_local(6) [of 16 "gc_heap s" leaf_object] leaf_facts(3) chain_header(7)
    by (simp add: h)
  moreover have "syli_object_refcount 16 ?h1 = Inr 0"
    using object_ops_local(4) [of 16 ?h1 ?leaf] leaf(1) chain_header(7)
    by (simp add: obj_rc_def unat_eq_0)
  moreover have "?h1(16 := None) = [8 \<mapsto> parent_object]" by (simp add: fun_eq_iff)
  ultimately show ?thesis
    using chain_header(4,5,7) sample_untag(1) leaf free_plain_object [of 16 "s\<lparr>gc_heap := ?h1\<rparr>" ?leaf]
    by (simp add: child_release_object_def syli_object_of_obj_ptr_def on_heap_def deref_live Let_def)
qed

lemma chain_step:
  assumes h: "gc_heap s = [8 \<mapsto> parent_object, 16 \<mapsto> leaf_object]" and "releasing_worklist s = [9]"
  shows "\<exists>s'. gc_one_step_releasing s = Inr s' \<and> releasing_budget s' = releasing_budget s - 2
     \<and> gc_heap s' = Map.empty \<and> releasing_worklist s' = [] \<and> releasing_waitlist s' = releasing_waitlist s
     \<and> THRESHOLD_RELEASING_BUCKET s' = THRESHOLD_RELEASING_BUCKET s"
proof -
  have children: "release_children 8 (header_word parent_object) t
      = Inr (t\<lparr>releasing_budget := releasing_budget t - 1,
               total_objects_freed := total_objects_freed t + 1, gc_heap := [8 \<mapsto> parent_object]\<rparr>)"
    if "gc_heap t = [8 \<mapsto> parent_object, 16 \<mapsto> leaf_object]" for t
    using chain_header(1-3) sample_untag(5) chain_child [of "t\<lparr>releasing_budget := releasing_budget t - 1\<rparr>"] that
    by (simp add: release_children_def scan_fields_def for_range_step read_field_def deref_live)
  have "syli_object_refcount 8 [8 \<mapsto> parent_object] = Inr 0"
    using object_ops_local(4) [of 8 "[8 \<mapsto> parent_object]" parent_object] chain_header(8) parent_facts(3)
    by (simp add: obj_rc_def unat_eq_0)
  then show ?thesis
    using assms sample_untag(2) chain_header(6,8,10) parent_facts(4)
    by (simp add: gc_one_step_releasing_def gc_vector_pop_back_def Let_def syli_object_of_obj_ptr_def
        deref_live children free_plain_object [where x = parent_object])
qed

lemma chain_run:
  "\<exists>s'. syli_state_gc_releasing chain_state = Some (Inr s') \<and> releasing_budget s' = 4998
     \<and> gc_heap s' = Map.empty"
proof -
  let ?s1 = "(set_releasing_working chain_state)\<lparr>releasing_state := Releasing\<rparr>"
  have one: "gc_heap ?s1 = [8 \<mapsto> parent_object, 16 \<mapsto> leaf_object]" "releasing_worklist ?s1 = [9]"
    "releasing_budget ?s1 = 5000" "releasing_waitlist ?s1 = []" "THRESHOLD_RELEASING_BUCKET ?s1 = 0"
    by (simp_all add: chain_state_def zero_state_def set_releasing_working_def)
  obtain s2 where s2: "gc_one_step_releasing ?s1 = Inr s2" "releasing_budget s2 = 4998"
    "gc_heap s2 = Map.empty" "releasing_worklist s2 = []" "releasing_waitlist s2 = []"
    "THRESHOLD_RELEASING_BUCKET s2 = 0"
    using chain_step [OF one(1,2)] unfolding one by auto
  let ?s3 = "s2\<lparr>releasing_steps := releasing_steps s2 + 1, releasing_state := Releasing_Idle\<rparr>"
  have "releasing_round chain_state = Inr (Continue ?s1)"
    by (simp add: releasing_round_def chain_state_def zero_state_def)
  moreover have "releasing_round ?s1 = Inr (Continue ?s3)"
    using s2(1,4) one(3) by (simp add: releasing_round_def Let_def)
  moreover have "releasing_round ?s3 = Inr (Return ?s3)"
    using s2 by (simp add: releasing_round_def)
  ultimately show ?thesis using s2
    by (simp add: syli_state_gc_releasing_def run_loop_Continue run_loop_Return)
qed

theorem gc_releasing_complete_witness:
  "\<exists>s'. syli_state_gc_releasing chain_state = Some (Inr s')
     \<and> (\<forall>p x. gc_heap s' p = Some x \<longrightarrow> \<not> obj_flag Meta_Flags_Waiting_Remove x \<longrightarrow>
          0 < obj_rc x \<and> reachable (\<lambda>_. 0) (gc_heap s') p)"
proof -
  obtain s' where s': "syli_state_gc_releasing chain_state = Some (Inr s')" "releasing_budget s' = 4998"
    using chain_run by blast
  have "THRESHOLD_RELEASING_BUCKET chain_state = 0" "0 < sint (releasing_budget s')"
    using s'(2) by (simp_all add: chain_state_def zero_state_def)
  note complete = gc_releasing_complete [OF chain_state_inv chain_state_sm this(1) s'(1) this(2)]
  define rank where "rank q = (if q = 8 then 1 else (0 :: nat))" for q :: u64
  have "rank (syli_ownership_untag v) < rank q"
    if "gc_heap chain_state q = Some x" "v \<in> set (own_refs x)" for q x v
    using that sample_untag leaf_facts(2) parent_facts(2)
    by (auto simp: chain_state_def zero_state_def rank_def split: if_splits)
  then have "\<forall>q x v. gc_heap chain_state q = Some x \<longrightarrow> v \<in> set (own_refs x) \<longrightarrow> rank (syli_ownership_untag v) < rank q"
    by blast
  with complete s'(1) show ?thesis by blast
qed

end
