(* ===== verification/GcRoots.thy ===== *)
theory GcRoots
  imports GcReleasing
begin

text \<open>
  Collecting the roots of the stack frames, from \<open>runtime/src/syli_state_gc_roots.c\<close>. What the
  code gets from libunwind and from the stack is an argument, a record \<open>'c roots_env\<close>: the
  frames \<open>unw_step\<close> visits (the return address, \<open>None\<close> when \<open>unw_get_reg\<close> fails, and the
  cursor), the registers, and the words of stack memory. \<open>roots_env_null\<close> is the
  environment of a program with no stack map.
\<close>

record 'c roots_env =
  section_bytes :: "u8 list option"      \<comment> \<open>\<open>stackmap_bounds\<close>\<close>
  calloc_ok :: bool
  frames :: "(u64 option \<times> 'c) list"
  register_value :: "'c \<Rightarrow> u16 \<Rightarrow> u64"   \<comment> \<open>0 when \<open>unw_get_reg\<close> fails\<close>
  stack_word :: "u64 \<Rightarrow> u64"

definition roots_env_null :: "unit roots_env" where
  "roots_env_null = \<lparr>section_bytes = None, calloc_ok = True, frames = [],
     register_value = (\<lambda>_ _. 0), stack_word = (\<lambda>_. 0)\<rparr>"

definition LOC_REGISTER :: u8 where "LOC_REGISTER = 1"
definition LOC_DIRECT :: u8 where "LOC_DIRECT = 2"
definition LOC_INDIRECT :: u8 where "LOC_INDIRECT = 3"
definition LOC_CONSTANT :: u8 where "LOC_CONSTANT = 4"
definition LOC_CONSTANTINDEX :: u8 where "LOC_CONSTANTINDEX = 5"

lemmas loc_kinds = LOC_REGISTER_def LOC_DIRECT_def LOC_INDIRECT_def LOC_CONSTANT_def
  LOC_CONSTANTINDEX_def

definition get_register_value :: "'c roots_env \<Rightarrow> 'c \<Rightarrow> u16 \<Rightarrow> u64" where
  "get_register_value env cursor dwarf = register_value env cursor dwarf"

text \<open>\<open>loc.offset\<close> is an \<open>int32_t\<close>: it is sign-extended before the addition.\<close>

definition decode_location :: "'c roots_env \<Rightarrow> 'c \<Rightarrow> SyliStackMap_Location \<Rightarrow> u64" where
  "decode_location env cursor loc =
     (let base = get_register_value env cursor (dwarf_reg loc);
          offset = scast (loc_offset loc) :: u64 in
      if loc_kind loc = LOC_REGISTER then base
      else if loc_kind loc = LOC_DIRECT then (if base = 0 then 0 else base + offset)
      else if loc_kind loc = LOC_INDIRECT then (if base = 0 then 0 else stack_word env (base + offset))
      else 0)"

definition collect_frame ::
    "'c roots_env \<Rightarrow> u8 list \<Rightarrow> u64 \<Rightarrow> 'c \<Rightarrow> Syli_state \<Rightarrow> Syli_state result" where
  "collect_frame env sec ip cursor s =
     and_then (syli_lookup_record_entry (stackmap_record_entry s, stackmap_record_entry_len s) ip) (\<lambda>entry.
     case (entry_locations entry, entry_record entry) of
       (Some locations, Some rec) \<Rightarrow>
         and_then (read_record sec rec) (\<lambda>r.
         for_range 0 (unat (num_locations r)) (\<lambda>i s.
           and_then (read_location sec (locations + i * sizeof_Location)) (\<lambda>loc.
           let v = decode_location env cursor loc in
           if v = 0 then Inr s else gc_tracing_worklist_push v s)) s)
     | _ \<Rightarrow> Inr s)"

definition stack_roots_ready :: "'c roots_env \<Rightarrow> Syli_state \<Rightarrow> (bool \<times> Syli_state) result" where
  "stack_roots_ready env s =
     (if no_section (section_bytes env) then Inr (False, s)
      else and_then
        (if stackmap_record_entry s = No_table
         then syli_build_stackmap_record_entry (calloc_ok env) (the (section_bytes env))
                (stackmap_record_entry s, stackmap_record_entry_len s)
         else Inr (stackmap_record_entry s, stackmap_record_entry_len s))
        (\<lambda>(t, len). check (t \<noteq> No_table)
          (Inr (True, s\<lparr>stackmap_record_entry := t, stackmap_record_entry_len := len\<rparr>))))"

fun collect_frames ::
    "'c roots_env \<Rightarrow> u8 list \<Rightarrow> (u64 option \<times> 'c) list \<Rightarrow> Syli_state \<Rightarrow> Syli_state result" where
  "collect_frames env sec [] s = Inr s"
| "collect_frames env sec ((None, cursor) # fs) s = collect_frames env sec fs s"
| "collect_frames env sec ((Some ip, cursor) # fs) s =
     and_then (collect_frame env sec ip cursor s) (collect_frames env sec fs)"

definition syli_rt_collect_stack_roots :: "'c roots_env \<Rightarrow> Syli_state \<Rightarrow> Syli_state result" where
  "syli_rt_collect_stack_roots env s =
     and_then (stack_roots_ready env s) (\<lambda>(ready, s).
       if ready then collect_frames env (the (section_bytes env)) (frames env) s else Inr s)"

end
