(* ===== verification/GcTracing.thy ===== *)
theory GcTracing
  imports GcRoots
begin

text \<open>
  The incremental tracing collector, from \<open>runtime/src/syli_state_gc_tracing.c\<close>: marking
  from the tracing worklist, handling the mutations the program notified, the release of
  lost cycles found among the registered candidates, and the state machine
  \<open>syli_state_gc_tracing\<close> that runs them within a budget; then the composition
  \<open>syli_state_gc_cycle\<close> of \<open>syli_state.c\<close>. The theorems are in \<open>GcMarking\<close> and \<open>GcReclaim\<close>.
\<close>

section \<open>Marking\<close>

definition gc_one_step_tracing :: "Syli_state \<Rightarrow> Syli_state result" where
  "gc_one_step_tracing s =
     and_then (gc_vector_pop_back (tracing_worklist s)) (\<lambda>(popped, rest).
     let s = s\<lparr>tracing_worklist := rest\<rparr>; obj = syli_object_of_obj_ptr popped in
     check (obj \<noteq> 0)
     (and_then (on_heap (syli_object_clear_flags obj Meta_Flags_Tracing) s) (\<lambda>s.
      and_then (syli_object_has_flags obj Meta_Flags_Waiting_Remove (gc_heap s)) (\<lambda>waiting.
      if waiting then and_then (gc_account_cyclic_free obj s) (on_heap (free_block obj))
      else and_then (deref obj (gc_heap s)) (\<lambda>current.
        if meta_ref_count current AND REFCOUNT_MASK = 0 then Inr s
        else and_then (gc_is_object_mark_tagged obj s) (\<lambda>marked.
          if marked then Inr s
          else and_then (gc_mark_tag_object obj s) (\<lambda>s.
            let s = s\<lparr>total_objects_traced := total_objects_traced s + 1\<rparr>;
                hw = header_word current in
            if syli_object_is_mono_ref hw then
              and_then (syli_object_length hw) (\<lambda>len.
              let s = s\<lparr>tracing_budget := tracing_budget s - ucast len\<rparr> in
              scan_fields obj (\<lambda>_. True) (unat len) gc_tracing_worklist_push s)
            else if syli_object_is_mixed_bitmap hw then
              and_then (syli_object_bitmap_length hw) (\<lambda>len.
              and_then (syli_object_bitmap_bits hw) (\<lambda>bitmap.
              let s = s\<lparr>tracing_budget := tracing_budget s - ucast len\<rparr> in
              scan_fields obj (syli_bitmap_is_ref bitmap) (unat len) gc_tracing_worklist_push s))
            else if syli_object_is_mixed_order hw then
              and_then (syli_object_order_ptr_count hw) (\<lambda>ptr_count.
              let s = s\<lparr>tracing_budget := tracing_budget s - ucast ptr_count\<rparr> in
              scan_fields obj (\<lambda>_. True) (unat ptr_count) gc_tracing_worklist_push s)
            else Inr s)))))))"

definition gc_one_step_prepare_tracing_mutations :: "Syli_state \<Rightarrow> Syli_state result" where
  "gc_one_step_prepare_tracing_mutations s =
     and_then (gc_vector_pop_back (tracing_mutations_worklist s)) (\<lambda>(obj_p, rest).
     let s = s\<lparr>tracing_mutations_worklist := rest\<rparr> in
     check (syli_ownership_is_own_ref obj_p)
     (let obj = syli_object_of_obj_ptr obj_p in
      check (obj \<noteq> 0)
      (and_then (deref obj (gc_heap s)) (\<lambda>gc_obj.
       let hw = header_word gc_obj in
       check (syli_object_get_zone hw = Zone_GcLocal)
       (and_then (syli_object_has_flags obj Meta_Flags_Waiting_Remove (gc_heap s)) (\<lambda>waiting.
        if waiting then on_heap (free_block obj) s
        else if syli_object_is_mono_ref hw then
          and_then (syli_object_length hw) (\<lambda>len.
          let s = s\<lparr>tracing_budget := tracing_budget s - ucast len\<rparr> in
          scan_fields obj (\<lambda>_. True) (unat len) gc_tracing_worklist_push s)
        else if syli_object_is_mixed_bitmap hw then
          and_then (syli_object_bitmap_length hw) (\<lambda>len.
          and_then (syli_object_bitmap_bits hw) (\<lambda>bitmap.
          scan_fields obj (syli_bitmap_is_ref bitmap) (unat len) gc_tracing_worklist_push s))
        else if syli_object_is_mixed_order hw then
          and_then (syli_object_order_ptr_count hw) (\<lambda>ptr_count.
          let s = s\<lparr>tracing_budget := tracing_budget s - ucast ptr_count\<rparr> in
          scan_fields obj (\<lambda>_. True) (unat ptr_count) gc_tracing_worklist_push s)
        else Inr s))))))"

section \<open>Releasing a lost cycle\<close>

definition lost_cycle_enqueue_free :: "obj_ptr \<Rightarrow> Syli_state \<Rightarrow> Syli_state result" where
  "lost_cycle_enqueue_free obj_p s =
     and_then (syli_object_refcount (syli_object_of_obj_ptr obj_p) (gc_heap s)) (\<lambda>rc.
     check (rc = 0)
       (Inr (s\<lparr>lost_cycle_worklist := gc_vector_push_back (lost_cycle_worklist s) obj_p\<rparr>)))"

definition lost_cycle_child_decr :: "obj_ptr \<Rightarrow> Syli_state \<Rightarrow> Syli_state result" where
  "lost_cycle_child_decr obj_p s =
     (let obj = syli_object_of_obj_ptr obj_p in
      and_then (on_heap (syli_object_decr_local obj) s) (\<lambda>s.
      and_then (syli_object_refcount obj (gc_heap s)) (\<lambda>rc.
      if rc = 0 then
        and_then (deref obj (gc_heap s)) (\<lambda>x.
        if \<not> syli_object_has_pointers (header_word x) then free_released_object obj s
        else lost_cycle_enqueue_free obj_p s)
      else Inr s)))"

definition lost_cycle_release_children :: "u64 \<Rightarrow> Syli_state \<Rightarrow> Syli_state result" where
  "lost_cycle_release_children obj s =
     check (obj \<noteq> 0)
     (and_then (deref obj (gc_heap s)) (\<lambda>gc_obj.
      let hw = header_word gc_obj in
      if syli_object_is_mono_ref hw then
        and_then (syli_object_length hw) (\<lambda>len.
        let s = s\<lparr>checking_budget := checking_budget s - ucast len\<rparr> in
        scan_fields obj (\<lambda>_. True) (unat len) lost_cycle_child_decr s)
      else if syli_object_is_mixed_bitmap hw then
        and_then (syli_object_bitmap_length hw) (\<lambda>len.
        and_then (syli_object_bitmap_bits hw) (\<lambda>bitmap.
        let s = s\<lparr>checking_budget := checking_budget s - ucast len\<rparr> in
        scan_fields obj (syli_bitmap_is_ref bitmap) (unat len) lost_cycle_child_decr s))
      else if syli_object_is_mixed_order hw then
        and_then (syli_object_order_ptr_count hw) (\<lambda>ptr_count.
        let s = s\<lparr>checking_budget := checking_budget s - ucast ptr_count\<rparr> in
        scan_fields obj (\<lambda>_. True) (unat ptr_count) lost_cycle_child_decr s)
      else Inr s))"

definition gc_one_step_scan :: "Syli_state \<Rightarrow> Syli_state result" where
  "gc_one_step_scan s =
     (let reg_size = of_nat (length (cyclic_candidates s));
          s = (if reg_size < current_candidate_check_index s
               then s\<lparr>current_candidate_check_index := reg_size\<rparr> else s) in
      if current_candidate_check_index s = 0 then Inr s
      else
        let index = current_candidate_check_index s - 1 in
        and_then (candidate_at index s) (\<lambda>obj_p.
        let obj = syli_object_of_obj_ptr obj_p;
            s = s\<lparr>current_candidate_check_index := index\<rparr> in
        and_then (gc_is_object_mark_tagged obj s) (\<lambda>marked.
        if marked then Inr s
        else
          and_then (syli_object_has_flags obj Meta_Flags_Children_Released (gc_heap s)) (\<lambda>released.
          and_then (when_r (\<not> released) (\<lambda>s.
              and_then (on_heap (syli_object_set_flags obj Meta_Flags_Children_Released) s)
                (lost_cycle_release_children obj)) s) (\<lambda>s.
          and_then (syli_object_refcount obj (gc_heap s)) (\<lambda>rc.
          if rc = 0 then lost_cycle_enqueue_free obj_p s else Inr s))))))"

definition gc_one_step_free_unreachable :: "Syli_state \<Rightarrow> Syli_state result" where
  "gc_one_step_free_unreachable s =
     and_then (gc_vector_pop_back (lost_cycle_worklist s)) (\<lambda>(obj_p, rest).
     let s = s\<lparr>lost_cycle_worklist := rest\<rparr>; obj = syli_object_of_obj_ptr obj_p in
     and_then (syli_object_has_flags obj Meta_Flags_Children_Released (gc_heap s)) (\<lambda>released.
     and_then (when_r (\<not> released) (\<lambda>s.
         and_then (on_heap (syli_object_set_flags obj Meta_Flags_Children_Released) s)
           (lost_cycle_release_children obj)) s)
       (free_released_object obj)))"

section \<open>The state machine\<close>

definition candidates_ratio :: "Syli_state \<Rightarrow> rat" where
  "candidates_ratio s =
     (if gc_current_cyclic_obj s = 0 then 0
      else of_nat (unat (gc_cyclic_candidate_count s)) / of_nat (unat (gc_current_cyclic_obj s)))"

definition tracing_triggered :: "Syli_state \<Rightarrow> bool" where
  "tracing_triggered s \<longleftrightarrow> THRESHOLD_MEM_CYCLIC_OBJ s < gc_current_cyclic_mem s
     \<and> THRESHOLD_CANDIDATES_RATIO s < candidates_ratio s
     \<and> cyclic_obj_alloc_at_trace s < cyclic_obj_alloc s"

text \<open>One round of the \<open>while (1)\<close> loop.\<close>

definition tracing_round :: "'c roots_env \<Rightarrow> Syli_state \<Rightarrow> Syli_state loop_ctl result" where
  "tracing_round env s =
     (if sint (tracing_budget s) \<le> 0 then Inr (Return s)
      else case tracing_state s of
        Tracing_Idle \<Rightarrow>
          if tracing_triggered s then
            let s = gc_next_marking_generation
                      (s\<lparr>tracing_state := Tracing, cyclic_obj_alloc_at_trace := cyclic_obj_alloc s,
                         current_candidate_check_index := gc_cyclic_candidate_count s\<rparr>) in
            and_then (syli_rt_collect_stack_roots env s) (\<lambda>s.
            Inr (Continue
              (if length (tracing_worklist s) = 0 \<and> length (tracing_mutations_worklist s) = 0
               then s\<lparr>tracing_state := Reclaiming_Cyclic_Candidates\<rparr> else s)))
          else Inr (Return s)
      | Tracing \<Rightarrow>
          and_then (gc_one_step_tracing s) (\<lambda>s.
          let s = s\<lparr>tracing_steps := tracing_steps s + 1\<rparr> in
          Inr (Continue
            (if length (tracing_worklist s) = 0 \<and> length (tracing_mutations_worklist s) = 0
             then s\<lparr>tracing_state := Reclaiming_Cyclic_Candidates\<rparr>
             else if 0 < length (tracing_mutations_worklist s)
             then s\<lparr>tracing_state := Mutation_Prepare\<rparr> else s)))
      | Mutation_Prepare \<Rightarrow>
          if length (tracing_mutations_worklist s) = 0 then
            Inr (Continue (s\<lparr>tracing_state :=
              (if 0 < length (tracing_worklist s) then Tracing else Reclaiming_Cyclic_Candidates)\<rparr>))
          else and_then (gc_one_step_prepare_tracing_mutations s) (\<lambda>s.
            Inr (Continue (s\<lparr>mutation_steps := mutation_steps s + 1\<rparr>)))
      | Reclaiming_Cyclic_Candidates \<Rightarrow>
          let s = s\<lparr>checking_budget := checking_budget s - 1\<rparr> in
          and_then
            (if 0 < length (lost_cycle_worklist s) then gc_one_step_free_unreachable s
             else if current_candidate_check_index s = 0
             then Inr (s\<lparr>tracing_state := Tracing_Idle\<rparr>)
             else gc_one_step_scan s)
            (\<lambda>s. Inr (Continue (s\<lparr>checking_steps := checking_steps s + 1\<rparr>))))"

definition syli_state_gc_tracing :: "'c roots_env \<Rightarrow> Syli_state \<Rightarrow> Syli_state result option" where
  "syli_state_gc_tracing env s = run_loop (tracing_round env) s"

text \<open>\<open>syli_state_gc_cycle\<close>: new budgets, then the releasing collector, then the tracer.
  \<open>None\<close> when one of the loops does not return.\<close>

definition syli_state_gc_cycle :: "'c roots_env \<Rightarrow> Syli_state \<Rightarrow> Syli_state result option" where
  "syli_state_gc_cycle env s =
     (let s = s\<lparr>tracing_budget := ucast (BUDGET_GC_TRACING s),
                releasing_budget := ucast (BUDGET_GC_RELEASING s),
                checking_budget := ucast (BUDGET_GC_CHECKING s)\<rparr> in
      case syli_state_gc_releasing s of
        None \<Rightarrow> None
      | Some (Inl e) \<Rightarrow> Some (Inl e)
      | Some (Inr s) \<Rightarrow> syli_state_gc_tracing env s)"

end
