(* ===== verification/GcMarking.thy ===== *)
theory GcMarking
  imports GcTracing
begin

text \<open>
  The marking half of the tracing collector, proved: pushing a reference only greys its
  object (\<open>greyed\<close>), the scans of an object satisfy the contract \<open>field_visitor\<close>, every step
  keeps the tri-colour invariant \<open>marking_inv\<close> and decreases \<open>phase_measure\<close>, and the rounds
  of the state machine reach the end of the phase or of the budget. The collection of the
  roots and the start of a cycle establish the invariant.
\<close>

section \<open>Pushing a reference to the tracing worklist\<close>

text \<open>How marking changes memory: the worklist flag is set on some objects, nothing else.\<close>

definition greyed :: "heap \<Rightarrow> heap \<Rightarrow> bool" where
  "greyed h h' \<longleftrightarrow> dom h' = dom h \<and> (\<forall>p x y. h p = Some x \<longrightarrow> h' p = Some y \<longrightarrow>
     same_fields x y \<and> obj_rc y = obj_rc x
     \<and> (\<forall>(f, k) \<in> meta_bits. f \<noteq> Meta_Flags_Tracing \<longrightarrow> obj_flag f y = obj_flag f x)
     \<and> (obj_flag Meta_Flags_Tracing x \<longrightarrow> obj_flag Meta_Flags_Tracing y))"

lemma greyed_refl [simp]: "greyed h h"
  by (simp add: greyed_def)

lemma greyedD:
  assumes "greyed h h'" and "h' p = Some y"
  obtains x where "h p = Some x" and "same_fields x y" and "obj_rc y = obj_rc x"
    and "\<And>f k. (f, k) \<in> meta_bits \<Longrightarrow> f \<noteq> Meta_Flags_Tracing \<Longrightarrow> obj_flag f y = obj_flag f x"
    and "obj_flag Meta_Flags_Tracing x \<Longrightarrow> obj_flag Meta_Flags_Tracing y"
proof -
  have "p \<in> dom h" using assms unfolding greyed_def by (metis domI)
  then obtain x where "h p = Some x" by blast
  with assms that show thesis unfolding greyed_def by blast
qed

lemma greyed_some:
  assumes "greyed h h'" and "h p = Some x"
  obtains y where "h' p = Some y"
  using assms unfolding greyed_def by (metis domD domI)

lemma greyed_trans:
  assumes "greyed h1 h2" and "greyed h2 h3"
  shows "greyed h1 h3"
  unfolding greyed_def
proof (intro conjI allI impI)
  show "dom h3 = dom h1" using assms by (simp add: greyed_def)
next
  fix p x z
  assume x: "h1 p = Some x" and z: "h3 p = Some z"
  obtain y where y: "h2 p = Some y" by (rule greyed_some [OF assms(1) x])
  show "same_fields x z" "obj_rc z = obj_rc x"
    "\<forall>(f, k)\<in>meta_bits. f \<noteq> Meta_Flags_Tracing \<longrightarrow> obj_flag f z = obj_flag f x"
    "obj_flag Meta_Flags_Tracing x \<Longrightarrow> obj_flag Meta_Flags_Tracing z"
    using assms x y z unfolding greyed_def by (fastforce intro: same_fields_trans)+
qed

lemma greyed_marked:
  assumes "greyed h h'" and "h p = Some x" and "h' p = Some y" and "b \<in> {0, MASK_MARKING_BIT}"
  shows "obj_marked b y = obj_marked b x"
proof -
  have "obj_flag MASK_MARKING_BIT y = obj_flag MASK_MARKING_BIT x"
    using assms(1-3) mark_in_meta_bits flags_distinct(8) unfolding greyed_def by fastforce
  with assms(4) show ?thesis by (simp add: obj_marked_flag)
qed

lemma greyed_shrinks: "greyed h h' \<Longrightarrow> heap_shrinks h h'"
proof (rule heap_shrinksI)
  fix p y
  assume g: "greyed h h'" and y: "h' p = Some y"
  obtain x where "h p = Some x" "same_fields x y"
    "\<And>f k. (f, k) \<in> meta_bits \<Longrightarrow> f \<noteq> Meta_Flags_Tracing \<Longrightarrow> obj_flag f y = obj_flag f x"
    by (rule greyedD [OF g y]) blast
  with waiting_bit_in flags_distinct(4) show "\<exists>x. h p = Some x \<and> same_fields x y
      \<and> (obj_flag Meta_Flags_Waiting_Remove x \<longrightarrow> obj_flag Meta_Flags_Waiting_Remove y)" by metis
qed

lemma tracing_push_spec:
  assumes inv: "heap_inv ext D s" and v: "syli_ownership_is_own_ref v"
    and c: "gc_heap s (syli_ownership_untag v) = Some x" and live: "\<not> obj_flag Meta_Flags_Waiting_Remove x"
  shows "\<exists>h w. gc_tracing_worklist_push v s = Inr (s\<lparr>gc_heap := h, tracing_worklist := w\<rparr>)
     \<and> heap_inv ext D (s\<lparr>gc_heap := h, tracing_worklist := w\<rparr>) \<and> greyed (gc_heap s) h
     \<and> traced h = insert (syli_ownership_untag v) (traced (gc_heap s))"
proof -
  let ?c = "syli_ownership_untag v" and ?h = "gc_heap s"
  note I = heap_invD [OF inv]
  have cx: "?c \<noteq> 0" "obj_local x" using heap_okD [OF I(1) c] by auto
  have has: "syli_object_has_flags ?c Meta_Flags_Tracing ?h = Inr (obj_flag Meta_Flags_Tracing x)"
    using object_ops_local(3) [of ?c ?h x] c cx by simp
  show ?thesis
  proof (cases "obj_flag Meta_Flags_Tracing x")
    case True
    have "gc_tracing_worklist_push v s = Inr (s\<lparr>gc_heap := ?h, tracing_worklist := tracing_worklist s\<rparr>)"
      using v has True by (simp add: gc_tracing_worklist_push_def syli_object_of_obj_ptr_def)
    moreover have "traced ?h = insert ?c (traced ?h)" using c True by (auto simp: traced_def)
    ultimately show ?thesis using inv
      by (intro exI [of _ ?h] exI [of _ "tracing_worklist s"]) simp
  next
    case False
    let ?y = "set_meta (meta_ref_count x OR Meta_Flags_Tracing) x" and ?w = "tracing_worklist s @ [v]"
    have y: "obj_flag Meta_Flags_Tracing ?y" "obj_rc ?y = obj_rc x"
      "\<forall>(f, k) \<in> meta_bits. f \<noteq> Meta_Flags_Tracing \<longrightarrow> obj_flag f ?y = obj_flag f x"
      using obj_flag_set_flag(1) [OF tracing_bit_in, of _ _ x] obj_rc_set_flag(1) [OF tracing_bit_in, of x]
        tracing_bit_in by auto
    have "syli_object_set_flags ?c Meta_Flags_Tracing ?h = Inr (?h(?c \<mapsto> ?y))"
      using object_ops_local(1) [of ?c ?h x] c cx by simp
    then have run: "gc_tracing_worklist_push v s = Inr (s\<lparr>gc_heap := ?h(?c \<mapsto> ?y), tracing_worklist := ?w\<rparr>)"
      using v has False
      by (simp add: gc_tracing_worklist_push_def syli_object_of_obj_ptr_def on_heap_def
          gc_vector_push_back_def)
    have new: "?c \<notin> traced ?h" using c False by (simp add: traced_def)
    have wf: "obj_flag Meta_Flags_Waiting_Remove ?y = obj_flag Meta_Flags_Waiting_Remove x"
      using y(3) waiting_bit_in flags_distinct by fastforce
    have cf: "obj_flag Meta_Flags_Cyclic_Candidate ?y = obj_flag Meta_Flags_Cyclic_Candidate x"
      using y(3) candidate_bit_in flags_distinct by fastforce
    have kept: "heap_inv ext D (s\<lparr>gc_heap := ?h(?c \<mapsto> ?y), tracing_worklist := ?w\<rparr>)"
    proof (rule heap_inv_refs(1) [OF inv c, of _ ext])
      show "distinct (map syli_ownership_untag ?w)" using I(4,5) new by auto
      show "set (map syli_ownership_untag ?w) = traced (?h(?c \<mapsto> ?y))"
        using I(5) y(1) by (simp add: traced_upd)
    qed (use wf cf y(2) live in \<open>auto\<close>)
    have gr: "greyed ?h (?h(?c \<mapsto> ?y))" using c y unfolding greyed_def by auto
    have "traced (?h(?c \<mapsto> ?y)) = insert ?c (traced ?h)" using y(1) by (simp add: traced_upd)
    with run kept gr show ?thesis
      by (intro exI [of _ "?h(?c \<mapsto> ?y)"] exI [of _ ?w]) simp
  qed
qed

section \<open>Scanning an object\<close>

text \<open>The visitor contract for marking: the references already visited are on the worklist.\<close>

definition trace_inv ::
    "(u64 \<Rightarrow> nat) \<Rightarrow> u64 \<Rightarrow> gc_object \<Rightarrow> Syli_state \<Rightarrow> obj_ptr list \<Rightarrow> Syli_state \<Rightarrow> bool" where
  "trace_inv ext p x s0 rs s \<longleftrightarrow>
     (\<exists>h w. s = s0\<lparr>gc_heap := h, tracing_worklist := w\<rparr> \<and> heap_inv ext {} s \<and> greyed (gc_heap s0) h
        \<and> (\<exists>y. h p = Some y \<and> same_fields x y)
        \<and> (\<forall>v \<in> set rs. \<exists>y. h (syli_ownership_untag v) = Some y \<and> \<not> obj_flag Meta_Flags_Waiting_Remove y)
        \<and> (\<exists>vs. own_refs x = vs @ rs
             \<and> traced h = syli_ownership_untag ` set vs \<union> traced (gc_heap s0)))"

lemma greyed_traced: "greyed h h' \<Longrightarrow> p \<in> traced h \<Longrightarrow> p \<in> traced h'"
proof -
  assume g: "greyed h h'" and p: "p \<in> traced h"
  then obtain x where x: "h p = Some x" "obj_flag Meta_Flags_Tracing x" by (auto simp: traced_def)
  obtain y where y: "h' p = Some y" by (rule greyed_some [OF g x(1)])
  with g x have "obj_flag Meta_Flags_Tracing y" unfolding greyed_def by blast
  with y show ?thesis by (simp add: traced_def)
qed

lemma greyed_waiting:
  "greyed h h' \<Longrightarrow> h p = Some x \<Longrightarrow> h' p = Some y \<Longrightarrow>
   obj_flag Meta_Flags_Waiting_Remove y = obj_flag Meta_Flags_Waiting_Remove x"
  using waiting_bit_in flags_distinct(4) unfolding greyed_def by fastforce

lemma greyed_released:
  "greyed h h' \<Longrightarrow> h p = Some x \<Longrightarrow> h' p = Some y \<Longrightarrow>
   obj_flag Meta_Flags_Children_Released y = obj_flag Meta_Flags_Children_Released x"
  using released_bit_in flags_distinct(5) unfolding greyed_def by fastforce

interpretation trace: field_visitor gc_tracing_worklist_push "trace_inv ext p x s0" p x
  for ext p x s0
proof
  fix v rs s
  assume inv: "trace_inv ext p x s0 (v # rs) s" and own: "is_own_field v"
  then obtain h w vs y where s: "s = s0\<lparr>gc_heap := h, tracing_worklist := w\<rparr>" "heap_inv ext {} s"
    "greyed (gc_heap s0) h" "h p = Some y" "same_fields x y"
    and live: "\<forall>v \<in> set (v # rs). \<exists>y. h (syli_ownership_untag v) = Some y \<and> \<not> obj_flag Meta_Flags_Waiting_Remove y"
    and vs: "own_refs x = vs @ v # rs" "traced h = syli_ownership_untag ` set vs \<union> traced (gc_heap s0)"
    unfolding trace_inv_def by blast
  obtain z where z: "gc_heap s (syli_ownership_untag v) = Some z" "\<not> obj_flag Meta_Flags_Waiting_Remove z"
    using live s(1) by auto
  from tracing_push_spec [OF s(2) _ z] own obtain h' w' where
    n: "gc_tracing_worklist_push v s = Inr (s\<lparr>gc_heap := h', tracing_worklist := w'\<rparr>)"
    "heap_inv ext {} (s\<lparr>gc_heap := h', tracing_worklist := w'\<rparr>)" "greyed (gc_heap s) h'"
    "traced h' = insert (syli_ownership_untag v) (traced (gc_heap s))"
    by (auto simp: is_own_field_def)
  have g: "greyed h h'" using n(3) s(1) by simp
  have st: "s\<lparr>gc_heap := h', tracing_worklist := w'\<rparr> = s0\<lparr>gc_heap := h', tracing_worklist := w'\<rparr>"
    using s(1) by simp
  obtain y' where y': "h' p = Some y'" by (rule greyed_some [OF g s(4)])
  have "same_fields y y'" using g s(4) y' unfolding greyed_def by blast
  then have sf: "same_fields x y'" using s(5) same_fields_trans by blast
  have live': "\<exists>y. h' (syli_ownership_untag u) = Some y \<and> \<not> obj_flag Meta_Flags_Waiting_Remove y"
    if u: "u \<in> set rs" for u
  proof -
    obtain a where a: "h (syli_ownership_untag u) = Some a" "\<not> obj_flag Meta_Flags_Waiting_Remove a"
      using live u by auto
    obtain b where "h' (syli_ownership_untag u) = Some b" by (rule greyed_some [OF g a(1)])
    with greyed_waiting [OF g a(1)] a(2) show ?thesis by auto
  qed
  have vs': "own_refs x = (vs @ [v]) @ rs"
    "traced h' = syli_ownership_untag ` set (vs @ [v]) \<union> traced (gc_heap s0)"
    using vs n(4) s(1) by auto
  have "trace_inv ext p x s0 rs (s\<lparr>gc_heap := h', tracing_worklist := w'\<rparr>)"
    unfolding trace_inv_def
    by (rule exI [of _ h'], rule exI [of _ w'])
      (use st n(2) greyed_trans [OF s(3) g] y' sf live' vs' in blast)
  with n(1) show "\<exists>s'. gc_tracing_worklist_push v s = Inr s' \<and> trace_inv ext p x s0 rs s'" by blast
next
  fix rs s i
  assume inv: "trace_inv ext p x s0 rs s" and i: "i \<in> set (ref_slots (header_word x))"
  then obtain y where y: "gc_heap s p = Some y" "same_fields x y" and h: "heap_inv ext {} s"
    unfolding trace_inv_def by auto
  then show "read_field p i (gc_heap s) = Inr (obj_value x ! i)"
    using read_same_slot [OF heap_invD(1) [OF h]] i by blast
qed

section \<open>The tri-colour invariant\<close>

text \<open>An object is grey or black when it is on the tracing worklist or has the mark of the
  current generation. \<open>pending\<close> are the marked objects whose children are still to be
  pushed because the program stored into them.\<close>

definition shaded :: "Syli_state \<Rightarrow> u64 \<Rightarrow> bool" where
  "shaded s p \<longleftrightarrow> (\<exists>x. gc_heap s p = Some x
     \<and> (obj_marked (tracing_current_bit_mark s) x \<or> obj_flag Meta_Flags_Tracing x))"

definition pending :: "Syli_state \<Rightarrow> u64 set" where
  "pending s = syli_ownership_untag ` set (tracing_mutations_worklist s)"

definition tricolour :: "(u64 \<Rightarrow> nat) \<Rightarrow> Syli_state \<Rightarrow> bool" where
  "tricolour ext s \<longleftrightarrow> (\<forall>p. 0 < ext p \<longrightarrow> shaded s p)
     \<and> (\<forall>p x v. gc_heap s p = Some x \<longrightarrow> 0 < obj_rc x
          \<longrightarrow> obj_marked (tracing_current_bit_mark s) x \<longrightarrow> p \<notin> pending s \<longrightarrow> v \<in> set (own_refs x)
          \<longrightarrow> shaded s (syli_ownership_untag v))"

definition mutations_ok :: "Syli_state \<Rightarrow> bool" where
  "mutations_ok s \<longleftrightarrow> (\<forall>v \<in> set (tracing_mutations_worklist s). syli_ownership_is_own_ref v
     \<and> (\<exists>x. gc_heap s (syli_ownership_untag v) = Some x \<and> \<not> obj_flag Meta_Flags_Waiting_Remove x))"

definition marking_inv :: "(u64 \<Rightarrow> nat) \<Rightarrow> Syli_state \<Rightarrow> bool" where
  "marking_inv ext s \<longleftrightarrow> heap_inv ext {} s \<and> tricolour ext s \<and> mutations_ok s"

lemma reachable_live:
  assumes "heap_inv ext {} s" and "reachable ext (gc_heap s) p"
  shows "\<exists>x. gc_heap s p = Some x \<and> 0 < obj_rc x \<and> \<not> obj_flag Meta_Flags_Waiting_Remove x"
  by (rule reachable_kept [OF assms(2) heap_shrinks_refl heap_invD(2,1) [OF assms(1)]])

text \<open>With nothing grey or pending, everything reachable is marked.\<close>

lemma tricolour_closed:
  assumes inv: "heap_inv ext {} s" and tri: "tricolour ext s" and none: "tracing_worklist s = []" "tracing_mutations_worklist s = []"
  shows "0 < ext p \<Longrightarrow> \<exists>x. gc_heap s p = Some x \<and> obj_marked (tracing_current_bit_mark s) x"
    and "gc_heap s q = Some x \<Longrightarrow> 0 < obj_rc x \<Longrightarrow> obj_marked (tracing_current_bit_mark s) x \<Longrightarrow> v \<in> set (own_refs x)
       \<Longrightarrow> \<exists>y. gc_heap s (syli_ownership_untag v) = Some y \<and> obj_marked (tracing_current_bit_mark s) y"
proof -
  have "traced (gc_heap s) = {}" using heap_invD(5) [OF inv] none(1) by simp
  then have shade: "shaded s p \<longleftrightarrow> (\<exists>x. gc_heap s p = Some x \<and> obj_marked (tracing_current_bit_mark s) x)" for p
    by (auto simp: shaded_def traced_def)
  have pend: "pending s = {}" using none(2) by (simp add: pending_def)
  show "0 < ext p \<Longrightarrow> \<exists>x. gc_heap s p = Some x \<and> obj_marked (tracing_current_bit_mark s) x"
    using tri by (simp add: tricolour_def shade)
  show "gc_heap s q = Some x \<Longrightarrow> 0 < obj_rc x \<Longrightarrow> obj_marked (tracing_current_bit_mark s) x \<Longrightarrow> v \<in> set (own_refs x)
       \<Longrightarrow> \<exists>y. gc_heap s (syli_ownership_untag v) = Some y \<and> obj_marked (tracing_current_bit_mark s) y"
    using tri pend unfolding tricolour_def shade by blast
qed

lemma tricolour_done:
  assumes inv: "heap_inv ext {} s" and tri: "tricolour ext s" and none: "tracing_worklist s = []" "tracing_mutations_worklist s = []"
    and r: "reachable ext (gc_heap s) p"
  shows "\<exists>x. gc_heap s p = Some x \<and> obj_marked (tracing_current_bit_mark s) x"
  using r
proof induction
  case (root p)
  then show ?case by (rule tricolour_closed(1) [OF inv tri none])
next
  case (step q x v)
  have "0 < obj_rc x" using reachable_live [OF inv step.hyps(1)] step.hyps(2) by simp
  with step tricolour_closed(2) [OF inv tri none, of q x v] show ?case by simp
qed

text \<open>How the invariant moves from one state to the next: the objects \<open>new\<close> have had
  their references pushed.\<close>

lemma reachable_back:
  assumes "reachable ext h' p" and "\<And>q y. h' q = Some y \<Longrightarrow> \<exists>x. h q = Some x \<and> own_refs y = own_refs x"
  shows "reachable ext h p"
  using assms(1)
proof induction
  case (root p)
  then show ?case by (rule reachable.root)
next
  case (step q y v)
  obtain x where "h q = Some x" "own_refs y = own_refs x" using assms(2) [OF step.hyps(2)] by blast
  with step.hyps(3) reachable.step [OF step.IH, of x v] show ?case by simp
qed

lemma holder_child_live:
  assumes inv: "heap_inv ext {} s" and x: "gc_heap s p = Some x" "\<not> obj_flag Meta_Flags_Waiting_Remove x"
    and v: "v \<in> set (own_refs x)"
  shows "\<exists>y. gc_heap s (syli_ownership_untag v) = Some y \<and> 0 < obj_rc y \<and> \<not> obj_flag Meta_Flags_Waiting_Remove y"
proof -
  have "p \<in> holders {} (gc_heap s)" using x by (simp add: holders_def)
  with incoming_pos [OF heap_invD(1) [OF inv], of p "{}" v] v x(1)
  have "0 < ext (syli_ownership_untag v) + incoming {} (gc_heap s) (syli_ownership_untag v)" by simp
  from counts_ok_live [OF heap_invD(2) [OF inv] this] show ?thesis by blast
qed

lemma tricolour_transfer:
  assumes inv: "heap_inv ext {} s" and tri: "tricolour ext s" and b: "tracing_current_bit_mark s' = tracing_current_bit_mark s"
    and old: "\<And>p y. gc_heap s' p = Some y \<Longrightarrow> \<exists>x. gc_heap s p = Some x \<and> own_refs y = own_refs x \<and> (0 < obj_rc y \<longrightarrow> 0 < obj_rc x)
        \<and> (obj_marked (tracing_current_bit_mark s) y \<longrightarrow> obj_marked (tracing_current_bit_mark s) x \<or> p \<in> new \<or> obj_rc y = 0)"
    and shade: "\<And>p x. gc_heap s p = Some x \<Longrightarrow> 0 < obj_rc x \<Longrightarrow> shaded s p \<Longrightarrow> shaded s' p"
    and scanned: "\<And>p y v. p \<in> new \<Longrightarrow> gc_heap s' p = Some y \<Longrightarrow> v \<in> set (own_refs y) \<Longrightarrow> shaded s' (syli_ownership_untag v)"
    and pend: "pending s \<subseteq> pending s' \<union> new"
  shows "tricolour ext s'"
proof -
  have "shaded s' p" if "0 < ext p" for p
    using shade [of p] reachable_live [OF inv reachable.root [of ext p]] that tri by (auto simp: tricolour_def)
  moreover have "shaded s' (syli_ownership_untag v)"
    if y: "gc_heap s' p = Some y" "0 < obj_rc y"
      "obj_marked (tracing_current_bit_mark s') y" and np: "p \<notin> pending s'" and v: "v \<in> set (own_refs y)"
    for p y v
  proof (cases "p \<in> new")
    case True
    then show ?thesis by (rule scanned [OF _ y(1) v])
  next
    case False
    obtain x where x: "gc_heap s p = Some x" "own_refs y = own_refs x"
      "obj_marked (tracing_current_bit_mark s) x" "0 < obj_rc x"
      using old [OF y(1)] y(2,3) False b by auto
    have "shaded s (syli_ownership_untag v)"
      using tri x v np pend False unfolding tricolour_def by (metis (no_types) UnE subsetD)
    moreover have "\<not> obj_flag Meta_Flags_Waiting_Remove x"
      using heap_invD(2) [OF inv] x(1,4) unfolding counts_ok_def by auto
    then have "\<exists>z. gc_heap s (syli_ownership_untag v) = Some z \<and> 0 < obj_rc z"
      using holder_child_live [OF inv x(1), of v] x(2) v by auto
    ultimately show ?thesis using shade by blast
  qed
  ultimately show ?thesis by (simp add: tricolour_def)
qed

section \<open>Pushing the children of an object\<close>

definition pushed :: "(u64 \<Rightarrow> nat) \<Rightarrow> gc_object \<Rightarrow> Syli_state \<Rightarrow> Syli_state \<Rightarrow> bool" where
  "pushed ext x s s' \<longleftrightarrow> (\<exists>h w c. s' = s\<lparr>tracing_budget := c, gc_heap := h, tracing_worklist := w\<rparr>
     \<and> heap_inv ext {} s' \<and> greyed (gc_heap s) h
     \<and> traced h = syli_ownership_untag ` set (own_refs x) \<union> traced (gc_heap s))"

lemma trace_start:
  assumes "heap_inv ext {} s" and "gc_heap s p = Some x" and "\<not> obj_flag Meta_Flags_Waiting_Remove x"
  shows "trace_inv ext p x (s\<lparr>tracing_budget := c\<rparr>) (own_refs x) (s\<lparr>tracing_budget := c\<rparr>)"
  unfolding trace_inv_def
  by (rule exI [of _ "gc_heap s"], rule exI [of _ "tracing_worklist s"])
    (use assms holder_child_live [OF assms] in \<open>auto intro!: exI [of _ "[]"]\<close>)

lemma trace_end: "trace_inv ext p x (s\<lparr>tracing_budget := c\<rparr>) [] s' \<Longrightarrow> pushed ext x s s'"
  unfolding trace_inv_def pushed_def by force

lemma object_shape:
  obtains "syli_object_is_mono_ref hw" | "syli_object_is_mixed_bitmap hw"
  | "syli_object_is_mixed_order hw" | "syli_object_is_mono_imm hw"
  by (cases "syli_object_type hw") (simp_all add: type_predicates)

lemma push_children:
  assumes inv: "heap_inv ext {} s" and x: "gc_heap s p = Some x" "\<not> obj_flag Meta_Flags_Waiting_Remove x"
  shows "\<exists>s'. (if syli_object_is_mono_ref (header_word x) then
              and_then (syli_object_length (header_word x)) (\<lambda>len.
                scan_fields p (\<lambda>_. True) (unat len) gc_tracing_worklist_push (s\<lparr>tracing_budget := a len\<rparr>))
            else if syli_object_is_mixed_bitmap (header_word x) then
              and_then (syli_object_bitmap_length (header_word x)) (\<lambda>len.
              and_then (syli_object_bitmap_bits (header_word x)) (\<lambda>bitmap.
                scan_fields p (syli_bitmap_is_ref bitmap) (unat len) gc_tracing_worklist_push
                  (s\<lparr>tracing_budget := b len\<rparr>)))
            else if syli_object_is_mixed_order (header_word x) then
              and_then (syli_object_order_ptr_count (header_word x)) (\<lambda>ptr_count.
                scan_fields p (\<lambda>_. True) (unat ptr_count) gc_tracing_worklist_push
                  (s\<lparr>tracing_budget := c ptr_count\<rparr>))
            else Inr s) = Inr s' \<and> pushed ext x s s'"
proof -
  note start = trace_start [OF inv x]
  obtain len where len: "syli_object_length (header_word x) = Inr len"
    by (rule syli_object_length_total)
  show ?thesis
  proof (cases rule: object_shape [of "header_word x"])
    case 1
    obtain s' where "scan_fields p (\<lambda>_. True) (unat len) gc_tracing_worklist_push (s\<lparr>tracing_budget := a len\<rparr>) = Inr s'"
      "pushed ext x s s'"
      using trace.scan_mono_ref [OF start 1 len] trace_end by blast
    with 1 len show ?thesis by simp
  next
    case 2
    then obtain bits where bits: "syli_object_bitmap_bits (header_word x) = Inr bits"
      using shape_accessors(2) by blast
    obtain s' where "scan_fields p (syli_bitmap_is_ref bits) (unat len) gc_tracing_worklist_push
        (s\<lparr>tracing_budget := b len\<rparr>) = Inr s'" "pushed ext x s s'"
      using trace.scan_mixed_bitmap [OF start 2 len bits] trace_end by blast
    with 2 len bits shape_accessors(1) [OF 2] show ?thesis by (simp add: type_predicates)
  next
    case 3
    then obtain n where n: "syli_object_order_ptr_count (header_word x) = Inr n"
      using shape_accessors(3) by blast
    obtain s' where "scan_fields p (\<lambda>_. True) (unat n) gc_tracing_worklist_push (s\<lparr>tracing_budget := c n\<rparr>) = Inr s'"
      "pushed ext x s s'"
      using trace.scan_mixed_order [OF start 3 n] trace_end by blast
    with 3 n show ?thesis by (simp add: type_predicates)
  next
    case 4
    then have "pushed ext x s s"
      unfolding pushed_def
      by (intro exI [of _ "gc_heap s"] exI [of _ "tracing_worklist s"] exI [of _ "tracing_budget s"])
        (simp add: inv own_refs_mono_imm)
    with 4 show ?thesis by (simp add: type_predicates)
  qed
qed

section \<open>A step of marking\<close>

definition whites :: "Syli_state \<Rightarrow> u64 set" where
  "whites s = {p. \<exists>x. gc_heap s p = Some x \<and> \<not> obj_marked (tracing_current_bit_mark s) x}"

text \<open>What marking leaves alone.\<close>

definition trace_frame :: "Syli_state \<Rightarrow> Syli_state \<Rightarrow> bool" where
  "trace_frame s s' \<longleftrightarrow> heap_shrinks (gc_heap s) (gc_heap s')
     \<and> (\<forall>p x. gc_heap s p = Some x \<longrightarrow> \<not> obj_flag Meta_Flags_Waiting_Remove x \<longrightarrow>
          (\<exists>y. gc_heap s' p = Some y \<and> obj_rc y = obj_rc x \<and> \<not> obj_flag Meta_Flags_Waiting_Remove y
             \<and> obj_flag Meta_Flags_Children_Released y = obj_flag Meta_Flags_Children_Released x))
     \<and> tracing_current_bit_mark s' = tracing_current_bit_mark s \<and> tracing_state s' = tracing_state s
     \<and> cyclic_candidates s' = cyclic_candidates s \<and> lost_cycle_worklist s' = lost_cycle_worklist s
     \<and> current_candidate_check_index s' = current_candidate_check_index s
     \<and> cyclic_obj_alloc s' = cyclic_obj_alloc s \<and> cyclic_obj_alloc_at_trace s' = cyclic_obj_alloc_at_trace s
     \<and> releasing_waitlist s' = releasing_waitlist s \<and> releasing_worklist s' = releasing_worklist s
     \<and> releasing_state s' = releasing_state s \<and> gc_settings s' = gc_settings s"

lemma popped_worklist:
  assumes "distinct (map f w)" and "w \<noteq> []"
  shows "distinct (map f (butlast w))" and "f ` set (butlast w) = f ` set w - {f (last w)}"
proof -
  have "distinct (map f (butlast w @ [last w]))" using assms by simp
  then have d: "distinct (map f (butlast w))" "f (last w) \<notin> f ` set (butlast w)" by auto
  have "set w = insert (last w) (set (butlast w))"
    using arg_cong [OF append_butlast_last_id [OF assms(2)], of set] by auto
  with d show "distinct (map f (butlast w))" "f ` set (butlast w) = f ` set w - {f (last w)}" by auto
qed

text \<open>The object at the end of the worklist, with its worklist flag cleared.\<close>

lemma tracing_pop:
  assumes inv: "heap_inv ext D s" and w: "tracing_worklist s \<noteq> []"
  defines "p \<equiv> syli_ownership_untag (last (tracing_worklist s))"
  obtains x y where "gc_heap s p = Some x" and "p \<noteq> 0" and "obj_local x" and "same_fields x y"
    and "syli_object_clear_flags p Meta_Flags_Tracing (gc_heap s) = Inr ((gc_heap s)(p \<mapsto> y))"
    and "obj_local y" and "obj_rc y = obj_rc x" and "obj_indexed y = obj_indexed x" and "obj_index y = obj_index x"
    and "\<not> obj_flag Meta_Flags_Tracing y" and "obj_flag Meta_Flags_Tracing x"
    and "\<forall>(f, k) \<in> meta_bits. f \<noteq> Meta_Flags_Tracing \<longrightarrow> obj_flag f y = obj_flag f x"
    and "distinct (map syli_ownership_untag (butlast (tracing_worklist s)))"
    and "set (map syli_ownership_untag (butlast (tracing_worklist s))) = traced (gc_heap s) - {p}"
proof -
  note I = heap_invD [OF inv]
  have "p \<in> set (map syli_ownership_untag (tracing_worklist s))" using w by (simp add: p_def)
  then obtain x where x: "gc_heap s p = Some x" "obj_flag Meta_Flags_Tracing x"
    using I(5) by (auto simp: traced_def)
  have px: "p \<noteq> 0" "obj_local x" using heap_okD [OF I(1) x(1)] by auto
  let ?y = "set_meta (meta_ref_count x AND NOT Meta_Flags_Tracing) x"
  have y: "obj_rc ?y = obj_rc x" "\<not> obj_flag Meta_Flags_Tracing ?y"
    "\<forall>(f, k) \<in> meta_bits. f \<noteq> Meta_Flags_Tracing \<longrightarrow> obj_flag f ?y = obj_flag f x"
    using obj_rc_set_flag(2) [OF tracing_bit_in, of x] obj_flag_set_flag(2) [OF tracing_bit_in, of _ _ x]
      tracing_bit_in by auto
  have clear: "syli_object_clear_flags p Meta_Flags_Tracing (gc_heap s) = Inr ((gc_heap s)(p \<mapsto> ?y))"
    using object_ops_local(2) [of p "gc_heap s" x] x(1) px by simp
  have pop: "distinct (map syli_ownership_untag (butlast (tracing_worklist s)))"
    "set (map syli_ownership_untag (butlast (tracing_worklist s))) = traced (gc_heap s) - {p}"
    using popped_worklist [OF I(4) w] I(5) by (simp_all add: p_def)
  have sf: "same_fields x ?y" "obj_local ?y" "obj_indexed ?y = obj_indexed x" "obj_index ?y = obj_index x"
    using px(2) by simp_all
  show thesis by (rule that [OF x(1) px sf(1) clear sf(2) y(1) sf(3,4) y(2) x(2) y(3) pop])
qed

text \<open>A popped object that awaits removal is freed: no reference leads to it.\<close>

lemma free_waiting_inv:
  assumes inv: "heap_inv ext {} s" and x: "gc_heap s p = Some x" "obj_flag Meta_Flags_Waiting_Remove x"
    and w: "distinct (map syli_ownership_untag w)" "set (map syli_ownership_untag w) = traced (gc_heap s) - {p}"
  shows "heap_inv ext {} (s\<lparr>gc_heap := (gc_heap s)(p := None), tracing_worklist := w\<rparr>)"
proof -
  let ?h = "gc_heap s" and ?h' = "(gc_heap s)(p := None)"
  note I = heap_invD [OF inv]
  have rc: "obj_rc x = 0" "\<not> obj_flag Meta_Flags_Cyclic_Candidate x"
    using I(2) x unfolding counts_ok_def by blast+
  have hold: "holders {} ?h' = holders {} ?h" "p \<notin> holders {} ?h" using x by (auto simp: holders_def)
  have inc: "incoming {} ?h' q = incoming {} ?h q" for q
    unfolding incoming_def hold(1) using hold(2) by (intro sum.cong refl) auto
  have rca: "rc_at ?h' q = rc_at ?h q" for q using x(1) rc(1) by (simp add: rc_at_def)
  have "counts_ok ext {} ?h'" using I(2) by (auto simp: counts_ok_def inc rca)
  moreover have "heap_ok ?h'" using I(1) by (auto simp: heap_ok_def)
  moreover have "registry_inv ?h' (cyclic_candidates s)"
    by (rule registry_inv_frame [OF I(3)]) (use x rc(2) in \<open>auto split: if_splits\<close>)
  ultimately show ?thesis using w I(6) by (simp add: heap_inv_def traced_delete)
qed

text \<open>No garbage is marked or on the worklist.\<close>

definition exact_marks :: "(u64 \<Rightarrow> nat) \<Rightarrow> Syli_state \<Rightarrow> bool" where
  "exact_marks ext s \<longleftrightarrow> (\<forall>p x. gc_heap s p = Some x \<longrightarrow>
     obj_marked (tracing_current_bit_mark s) x \<or> obj_flag Meta_Flags_Tracing x \<longrightarrow> reachable ext (gc_heap s) p)"

lemma reachable_forward:
  assumes "reachable ext h p" and "\<And>q x. reachable ext h q \<Longrightarrow> h q = Some x \<Longrightarrow> \<exists>y. h' q = Some y \<and> own_refs y = own_refs x"
  shows "reachable ext h' p"
  using assms(1)
proof induction
  case (root p)
  then show ?case by (rule reachable.root)
next
  case (step q x v)
  obtain y where "h' q = Some y" "own_refs y = own_refs x" using assms(2) [OF step.hyps(1,2)] by blast
  with step.hyps(3) reachable.step [OF step.IH, of y v] show ?case by simp
qed

lemma exact_transfer:
  assumes "exact_marks ext s" and "tracing_current_bit_mark s' = tracing_current_bit_mark s"
    and kept: "\<And>q x. reachable ext (gc_heap s) q \<Longrightarrow> gc_heap s q = Some x
        \<Longrightarrow> \<exists>y. gc_heap s' q = Some y \<and> own_refs y = own_refs x"
    and new: "\<And>p y. gc_heap s' p = Some y \<Longrightarrow> obj_marked (tracing_current_bit_mark s) y \<or> obj_flag Meta_Flags_Tracing y
        \<Longrightarrow> reachable ext (gc_heap s) p \<or> (\<exists>x. gc_heap s p = Some x
              \<and> (obj_marked (tracing_current_bit_mark s) x \<or> obj_flag Meta_Flags_Tracing x))"
  shows "exact_marks ext s'"
  unfolding exact_marks_def
proof (intro allI impI)
  fix p y
  assume "gc_heap s' p = Some y" "obj_marked (tracing_current_bit_mark s') y \<or> obj_flag Meta_Flags_Tracing y"
  with new assms(1,2) have "reachable ext (gc_heap s) p" unfolding exact_marks_def by metis
  then show "reachable ext (gc_heap s') p" by (rule reachable_forward) (rule kept)
qed

definition marked_less :: "Syli_state \<Rightarrow> Syli_state \<Rightarrow> bool" where
  "marked_less s' s \<longleftrightarrow> whites s' \<subset> whites s
     \<or> (whites s' \<subseteq> whites s \<and> length (tracing_worklist s') < length (tracing_worklist s))"

lemma marked_waiting_step:
  assumes inv: "marking_inv ext s" and w: "tracing_worklist s \<noteq> []"
  defines "p \<equiv> syli_ownership_untag (last (tracing_worklist s))"
  assumes x: "gc_heap s p = Some x" "obj_flag Meta_Flags_Waiting_Remove x"
  shows "\<exists>s'. gc_one_step_tracing s = Inr s' \<and> marking_inv ext s' \<and> trace_frame s s'
     \<and> tracing_mutations_worklist s' = tracing_mutations_worklist s \<and> marked_less s' s
     \<and> (exact_marks ext s \<longrightarrow> exact_marks ext s')"
proof -
  have H: "heap_inv ext {} s" and tri: "tricolour ext s" and mut: "mutations_ok s"
    using inv by (simp_all add: marking_inv_def)
  obtain x0 y where y: "gc_heap s p = Some x0" "p \<noteq> 0" "obj_local x0" "same_fields x0 y"
    "syli_object_clear_flags p Meta_Flags_Tracing (gc_heap s) = Inr ((gc_heap s)(p \<mapsto> y))"
    "obj_local y" "obj_flag Meta_Flags_Tracing x0" "\<forall>(f, k) \<in> meta_bits. f \<noteq> Meta_Flags_Tracing \<longrightarrow> obj_flag f y = obj_flag f x0"
    and ws: "distinct (map syli_ownership_untag (butlast (tracing_worklist s)))"
    "set (map syli_ownership_untag (butlast (tracing_worklist s))) = traced (gc_heap s) - {p}"
    by (rule tracing_pop [OF H w, folded p_def])
  have wy: "obj_flag Meta_Flags_Waiting_Remove y"
    using y(1,8) x waiting_bit_in flags_distinct by fastforce
  let ?h = "(gc_heap s)(p := None)" and ?w = "butlast (tracing_worklist s)"
  let ?s1 = "s\<lparr>tracing_worklist := ?w, gc_heap := (gc_heap s)(p \<mapsto> y)\<rparr>"
  obtain m n where acc: "gc_account_cyclic_free p ?s1 = Inr (?s1\<lparr>cyclic_mem_dealloc := m, cyclic_obj_dealloc := n\<rparr>)"
    using gc_account_cyclic_free_spec [of p ?s1 y] y(2) by auto
  define s' where "s' = s\<lparr>tracing_worklist := ?w, cyclic_mem_dealloc := m, cyclic_obj_dealloc := n, gc_heap := ?h\<rparr>"
  have "syli_object_has_flags p Meta_Flags_Waiting_Remove ((gc_heap s)(p \<mapsto> y)) = Inr True"
    using object_ops_local(3) [of p "(gc_heap s)(p \<mapsto> y)" y] y(2,6) wy by simp
  then have run: "gc_one_step_tracing s = Inr s'"
    using w y(2,5) acc
    by (simp add: gc_one_step_tracing_def gc_vector_pop_back_def syli_object_of_obj_ptr_def p_def
        on_heap_def free_block_def s'_def)
  have hs': "gc_heap s' = ?h" "tracing_worklist s' = ?w" "tracing_mutations_worklist s' = tracing_mutations_worklist s"
    "tracing_current_bit_mark s' = tracing_current_bit_mark s"
    by (simp_all add: s'_def)
  have H': "heap_inv ext {} s'"
    using free_waiting_inv [OF H x ws] by (simp add: heap_inv_def s'_def)
  have tri': "tricolour ext s'"
  proof (rule tricolour_transfer [OF H tri, where new = "{}"])
    fix q a
    assume a: "gc_heap s q = Some a" "0 < obj_rc a" and sh: "shaded s q"
    have "q \<noteq> p" using heap_invD(2) [OF H] x a unfolding counts_ok_def by auto
    with sh show "shaded s' q" by (simp add: shaded_def hs')
  qed (auto simp: hs' pending_def split: if_splits)
  have "mutations_ok s'"
    using mut x unfolding mutations_ok_def hs' by fastforce
  moreover have "trace_frame s s'"
    using x heap_shrinks_delete [OF heap_shrinks_refl, of "gc_heap s" p]
    by (auto simp: trace_frame_def s'_def)
  moreover have "marked_less s' s"
    using w by (auto simp: marked_less_def whites_def hs')
  moreover have "\<not> exact_marks ext s"
  proof
    assume "exact_marks ext s"
    with y(1,7) have "reachable ext (gc_heap s) p" unfolding exact_marks_def by blast
    from reachable_live [OF H this] x show False by auto
  qed
  ultimately show ?thesis using run H' tri' hs'(3) by (auto simp: marking_inv_def)
qed

text \<open>A live object that needs no scan.\<close>

lemma marking_popped:
  assumes inv: "marking_inv ext s" and w: "tracing_worklist s \<noteq> []"
  defines "p \<equiv> syli_ownership_untag (last (tracing_worklist s))"
  assumes x: "gc_heap s p = Some x" and live: "\<not> obj_flag Meta_Flags_Waiting_Remove x"
  obtains y s1 where "s1 = s\<lparr>tracing_worklist := butlast (tracing_worklist s), gc_heap := (gc_heap s)(p \<mapsto> y)\<rparr>"
    and "on_heap (syli_object_clear_flags p Meta_Flags_Tracing)
           (s\<lparr>tracing_worklist := butlast (tracing_worklist s)\<rparr>) = Inr s1"
    and "heap_inv ext {} s1" and "same_fields x y" and "obj_local y" and "p \<noteq> 0" and "obj_rc y = obj_rc x"
    and "\<not> obj_flag Meta_Flags_Waiting_Remove y" and "obj_flag MASK_MARKING_BIT y = obj_flag MASK_MARKING_BIT x"
    and "mutations_ok s1" and "trace_frame s s1" and "\<not> obj_flag Meta_Flags_Tracing y"
    and "obj_flag Meta_Flags_Tracing x"
proof -
  have H: "heap_inv ext {} s" and mut: "mutations_ok s" using inv by (simp_all add: marking_inv_def)
  obtain x0 y where y: "gc_heap s p = Some x0" "p \<noteq> 0" "same_fields x0 y"
    "syli_object_clear_flags p Meta_Flags_Tracing (gc_heap s) = Inr ((gc_heap s)(p \<mapsto> y))"
    "obj_local y" "obj_rc y = obj_rc x0" "obj_indexed y = obj_indexed x0" "obj_index y = obj_index x0"
    "\<not> obj_flag Meta_Flags_Tracing y" "obj_flag Meta_Flags_Tracing x0"
    "\<forall>(f, k) \<in> meta_bits. f \<noteq> Meta_Flags_Tracing \<longrightarrow> obj_flag f y = obj_flag f x0"
    and ws: "distinct (map syli_ownership_untag (butlast (tracing_worklist s)))"
    "set (map syli_ownership_untag (butlast (tracing_worklist s))) = traced (gc_heap s) - {p}"
    by (rule tracing_pop [OF H w, folded p_def])
  have x0: "x0 = x" using x y(1) by simp
  have f: "obj_flag Meta_Flags_Waiting_Remove y = obj_flag Meta_Flags_Waiting_Remove x"
    "obj_flag Meta_Flags_Cyclic_Candidate y = obj_flag Meta_Flags_Cyclic_Candidate x"
    "obj_flag MASK_MARKING_BIT y = obj_flag MASK_MARKING_BIT x"
    "obj_flag Meta_Flags_Children_Released y = obj_flag Meta_Flags_Children_Released x"
    using y(11) x0 released_bit_in waiting_bit_in candidate_bit_in mark_in_meta_bits flags_distinct by fastforce+
  define s1 where "s1 = s\<lparr>tracing_worklist := butlast (tracing_worklist s), gc_heap := (gc_heap s)(p \<mapsto> y)\<rparr>"
  have "heap_inv ext {} (s\<lparr>gc_heap := (gc_heap s)(p \<mapsto> y), tracing_worklist := butlast (tracing_worklist s)\<rparr>)"
    by (rule heap_inv_refs(1) [OF H x _ _ f(1,2) y(7,8) [unfolded x0], of ext])
      (use same_fields_refs [OF y(3)] y(3,6,9) x0 live ws in \<open>simp_all add: traced_upd\<close>)
  then have H1: "heap_inv ext {} s1" by (simp add: s1_def heap_inv_def)
  have clear: "on_heap (syli_object_clear_flags p Meta_Flags_Tracing)
           (s\<lparr>tracing_worklist := butlast (tracing_worklist s)\<rparr>) = Inr s1"
    using y(4) by (simp add: on_heap_def s1_def)
  have m1: "mutations_ok s1" using mut live f(1) x unfolding mutations_ok_def s1_def by fastforce
  have "heap_shrinks (gc_heap s) ((gc_heap s)(p \<mapsto> y))"
    using x y(3) x0 f(1) by (intro heap_shrinks_upd [OF heap_shrinks_refl]) auto
  then have fr: "trace_frame s s1" using x y(6) x0 f(1,4) by (auto simp: trace_frame_def s1_def)
  have sf: "same_fields x y" "obj_rc y = obj_rc x" using y(3,6) x0 by simp_all
  have nw: "\<not> obj_flag Meta_Flags_Waiting_Remove y" using f(1) live by simp
  have tf: "\<not> obj_flag Meta_Flags_Tracing y" "obj_flag Meta_Flags_Tracing x" using y(9,10) x0 by simp_all
  show thesis by (rule that [OF s1_def clear H1 sf(1) y(5) y(2) sf(2) nw f(3) m1 fr tf])
qed

lemma trace_frame_kept:
  "trace_frame s s' \<Longrightarrow> gc_heap s p = Some x \<Longrightarrow> \<not> obj_flag Meta_Flags_Waiting_Remove x
   \<Longrightarrow> \<exists>y. gc_heap s' p = Some y \<and> obj_rc y = obj_rc x \<and> \<not> obj_flag Meta_Flags_Waiting_Remove y
      \<and> obj_flag Meta_Flags_Children_Released y = obj_flag Meta_Flags_Children_Released x"
  by (simp add: trace_frame_def)

lemma trace_frame_trans:
  assumes "trace_frame s1 s2" and "trace_frame s2 s3"
  shows "trace_frame s1 s3"
proof -
  have "\<exists>z. gc_heap s3 p = Some z \<and> obj_rc z = obj_rc x \<and> \<not> obj_flag Meta_Flags_Waiting_Remove z
      \<and> obj_flag Meta_Flags_Children_Released z = obj_flag Meta_Flags_Children_Released x"
    if x: "gc_heap s1 p = Some x" "\<not> obj_flag Meta_Flags_Waiting_Remove x" for p x
    using trace_frame_kept [OF assms(1) x] trace_frame_kept [OF assms(2)] by metis
  moreover have "heap_shrinks (gc_heap s1) (gc_heap s3)"
    using assms heap_shrinks_trans unfolding trace_frame_def by blast
  ultimately show ?thesis using assms unfolding trace_frame_def by simp
qed

lemma pushed_frame:
  assumes "pushed ext x s s'" and "heap_inv ext {} s" and "mutations_ok s"
  shows "trace_frame s s'" and "mutations_ok s'" and "whites s' = whites s"
    and "tracing_mutations_worklist s' = tracing_mutations_worklist s" and "heap_inv ext {} s'"
proof -
  obtain h w c where s': "s' = s\<lparr>tracing_budget := c, gc_heap := h, tracing_worklist := w\<rparr>"
    "heap_inv ext {} s'" "greyed (gc_heap s) h"
    using assms(1) unfolding pushed_def by blast
  have keep: "\<exists>y. h p = Some y \<and> obj_rc y = obj_rc x
      \<and> obj_flag Meta_Flags_Waiting_Remove y = obj_flag Meta_Flags_Waiting_Remove x
      \<and> obj_flag Meta_Flags_Children_Released y = obj_flag Meta_Flags_Children_Released x"
    if x: "gc_heap s p = Some x" for p x
  proof -
    obtain y where "h p = Some y" by (rule greyed_some [OF s'(3) x])
    with greyed_waiting [OF s'(3) x] greyed_released [OF s'(3) x] s'(3) x show ?thesis unfolding greyed_def by blast
  qed
  show "trace_frame s s'"
    using greyed_shrinks [OF s'(3)] keep by (fastforce simp: trace_frame_def s'(1))
  show "mutations_ok s'" using assms(3) keep unfolding mutations_ok_def s'(1) by fastforce
  show "tracing_mutations_worklist s' = tracing_mutations_worklist s" by (simp add: s'(1))
  show "heap_inv ext {} s'" by (rule s'(2))
  have m: "obj_marked (tracing_current_bit_mark s) y = obj_marked (tracing_current_bit_mark s) x"
    if "gc_heap s p = Some x" "h p = Some y" for p x y
    by (rule greyed_marked [OF s'(3) that heap_invD(6) [OF assms(2)]])
  show "whites s' = whites s"
  proof (rule set_eqI)
    fix p
    have "gc_heap s p = None \<longleftrightarrow> h p = None"
      using s'(3) unfolding greyed_def by (metis domIff)
    then consider "gc_heap s p = None" "h p = None" | a b where "gc_heap s p = Some a" "h p = Some b"
      by (cases "gc_heap s p"; cases "h p") auto
    then show "p \<in> whites s' \<longleftrightarrow> p \<in> whites s"
    proof cases
      case (2 a b)
      with m [OF 2] show ?thesis by (simp add: whites_def s'(1))
    qed (simp add: whites_def s'(1))
  qed
qed

text \<open>Pushing all children of an object keeps the invariant; the object needs no further
  attention.\<close>

lemma pushed_exact:
  assumes "pushed ext x s s'" and "heap_inv ext {} s" and "exact_marks ext s"
    and "reachable ext (gc_heap s) p" and "gc_heap s p = Some z" and "own_refs z = own_refs x"
  shows "exact_marks ext s'"
proof -
  obtain h w c where s': "s' = s\<lparr>tracing_budget := c, gc_heap := h, tracing_worklist := w\<rparr>"
    and g: "greyed (gc_heap s) h"
    and t: "traced h = syli_ownership_untag ` set (own_refs x) \<union> traced (gc_heap s)"
    using assms(1) unfolding pushed_def by blast
  show ?thesis
  proof (rule exact_transfer [OF assms(3)])
    fix q y
    assume y: "gc_heap s' q = Some y" "obj_marked (tracing_current_bit_mark s) y \<or> obj_flag Meta_Flags_Tracing y"
    then have hy: "h q = Some y" by (simp add: s')
    obtain a where a: "gc_heap s q = Some a" by (rule greyedD [OF g hy])
    have m: "obj_marked (tracing_current_bit_mark s) y = obj_marked (tracing_current_bit_mark s) a"
      by (rule greyed_marked [OF g a hy heap_invD(6) [OF assms(2)]])
    show "reachable ext (gc_heap s) q \<or> (\<exists>x. gc_heap s q = Some x
              \<and> (obj_marked (tracing_current_bit_mark s) x \<or> obj_flag Meta_Flags_Tracing x))"
    proof (cases "obj_flag Meta_Flags_Tracing y")
      case True
      then have "q \<in> traced h" using hy by (simp add: traced_def)
      then consider v where "v \<in> set (own_refs x)" "q = syli_ownership_untag v" | "q \<in> traced (gc_heap s)"
        using t by blast
      then show ?thesis
      proof cases
        case 1
        with reachable.step [OF assms(4,5), of v] assms(6) show ?thesis by simp
      next
        case 2
        then show ?thesis by (auto simp: traced_def)
      qed
    next
      case False
      with y(2) m a show ?thesis by auto
    qed
  next
    fix q a
    assume a: "gc_heap s q = Some a"
    obtain y where y: "h q = Some y" by (rule greyed_some [OF g a])
    with g a have "same_fields a y" unfolding greyed_def by blast
    with y same_fields_refs(1) show "\<exists>y. gc_heap s' q = Some y \<and> own_refs y = own_refs a" by (auto simp: s')
  qed (simp add: s')
qed

lemma pushed_tricolour:
  assumes H: "heap_inv ext {} s" and p: "pushed ext x s s'"
  shows "shaded s p \<Longrightarrow> shaded s' p" and "v \<in> set (own_refs x) \<Longrightarrow> shaded s' (syli_ownership_untag v)"
    and "\<And>y. gc_heap s' p = Some y \<Longrightarrow> \<exists>x. gc_heap s p = Some x \<and> own_refs y = own_refs x
       \<and> obj_rc y = obj_rc x \<and> obj_marked (tracing_current_bit_mark s) y = obj_marked (tracing_current_bit_mark s) x"
proof -
  obtain h w c where s': "s' = s\<lparr>tracing_budget := c, gc_heap := h, tracing_worklist := w\<rparr>"
    "heap_inv ext {} s'" "greyed (gc_heap s) h"
    and t: "traced h = syli_ownership_untag ` set (own_refs x) \<union> traced (gc_heap s)"
    using p unfolding pushed_def by blast
  have m: "obj_marked (tracing_current_bit_mark s) y = obj_marked (tracing_current_bit_mark s) x"
    if "gc_heap s p = Some x" "h p = Some y" for p x y
    by (rule greyed_marked [OF s'(3) that heap_invD(6) [OF H]])
  show "shaded s' p" if "shaded s p"
  proof -
    obtain a where a: "gc_heap s p = Some a"
      "obj_marked (tracing_current_bit_mark s) a \<or> obj_flag Meta_Flags_Tracing a"
      using \<open>shaded s p\<close> unfolding shaded_def by blast
    obtain y where y: "h p = Some y" by (rule greyed_some [OF s'(3) a(1)])
    have "obj_flag Meta_Flags_Tracing a \<Longrightarrow> obj_flag Meta_Flags_Tracing y"
      using s'(3) a(1) y unfolding greyed_def by blast
    with m [OF a(1) y] a(2) y show ?thesis by (auto simp: shaded_def s'(1))
  qed
  show "shaded s' (syli_ownership_untag v)" if "v \<in> set (own_refs x)"
  proof -
    have "syli_ownership_untag v \<in> traced h" using t that by blast
    then show ?thesis by (auto simp: shaded_def traced_def s'(1))
  qed
  show "\<exists>x. gc_heap s p = Some x \<and> own_refs y = own_refs x
       \<and> obj_rc y = obj_rc x \<and> obj_marked (tracing_current_bit_mark s) y = obj_marked (tracing_current_bit_mark s) x"
    if y: "gc_heap s' p = Some y" for y
  proof -
    have hy: "h p = Some y" using y by (simp add: s'(1))
    obtain a where a: "gc_heap s p = Some a" "same_fields a y" "obj_rc y = obj_rc a" by (rule greyedD [OF s'(3) hy]) blast
    with same_fields_refs(1) m [OF a(1) hy] show ?thesis by auto
  qed
qed

text \<open>\<open>popped s p x y s1\<close>: \<open>s1\<close> is \<open>s\<close> after the live object \<open>x\<close> at \<open>p\<close> has been taken from the worklist
  and its tracing flag cleared, which made it \<open>y\<close>.\<close>

definition popped :: "Syli_state \<Rightarrow> u64 \<Rightarrow> gc_object \<Rightarrow> gc_object \<Rightarrow> Syli_state \<Rightarrow> bool" where
  "popped s p x y s1 \<longleftrightarrow> gc_heap s p = Some x \<and> tracing_worklist s \<noteq> [] \<and> syli_ownership_untag (last (tracing_worklist s)) = p
     \<and> s1 = s\<lparr>tracing_worklist := butlast (tracing_worklist s), gc_heap := (gc_heap s)(p \<mapsto> y)\<rparr>
     \<and> on_heap (syli_object_clear_flags p Meta_Flags_Tracing)
         (s\<lparr>tracing_worklist := butlast (tracing_worklist s)\<rparr>) = Inr s1
     \<and> same_fields x y \<and> obj_local y \<and> p \<noteq> 0 \<and> obj_rc y = obj_rc x \<and> \<not> obj_flag Meta_Flags_Waiting_Remove y
     \<and> obj_marked (tracing_current_bit_mark s) y = obj_marked (tracing_current_bit_mark s) x
     \<and> \<not> obj_flag Meta_Flags_Tracing y \<and> obj_flag Meta_Flags_Tracing x"

lemma popped_live:
  assumes "marking_inv ext s" and "tracing_worklist s \<noteq> []"
    and "gc_heap s (syli_ownership_untag (last (tracing_worklist s))) = Some x" and "\<not> obj_flag Meta_Flags_Waiting_Remove x"
  obtains y s1 where "popped s (syli_ownership_untag (last (tracing_worklist s))) x y s1"
    and "heap_inv ext {} s1" and "mutations_ok s1" and "trace_frame s s1"
proof -
  have H: "heap_inv ext {} s" using assms(1) by (simp add: marking_inv_def)
  show thesis
  proof (rule marking_popped [OF assms], goal_cases)
    case (1 y s1)
    have "obj_marked (tracing_current_bit_mark s) y = obj_marked (tracing_current_bit_mark s) x"
      by (rule obj_marked_cong [OF H 1(9)])
    with 1(1,2,4-8,12,13) assms(2,3)
    have "popped s (syli_ownership_untag (last (tracing_worklist s))) x y s1" unfolding popped_def by blast
    then show thesis by (rule that [OF _ 1(3,10,11)])
  qed
qed

lemma popped_facts:
  assumes "popped s p x y s1"
  shows "gc_heap s p = Some x" and "tracing_worklist s \<noteq> []" and "syli_ownership_untag (last (tracing_worklist s)) = p"
    and "on_heap (syli_object_clear_flags p Meta_Flags_Tracing)
         (s\<lparr>tracing_worklist := butlast (tracing_worklist s)\<rparr>) = Inr s1"
    and "same_fields x y" and "obj_local y" and "p \<noteq> 0" and "obj_rc y = obj_rc x" and "\<not> obj_flag Meta_Flags_Waiting_Remove y"
    and "obj_marked (tracing_current_bit_mark s) y = obj_marked (tracing_current_bit_mark s) x"
    and "\<not> obj_flag Meta_Flags_Tracing y" and "obj_flag Meta_Flags_Tracing x" and "own_refs y = own_refs x"
  using assms same_fields_refs(1) [of x y] unfolding popped_def by blast+

lemma poppedD:
  assumes "popped s p x y s1"
  shows "gc_heap s1 = (gc_heap s)(p \<mapsto> y)" and "tracing_current_bit_mark s1 = tracing_current_bit_mark s"
    and "pending s1 = pending s" and "tracing_mutations_worklist s1 = tracing_mutations_worklist s"
    and "length (tracing_worklist s1) < length (tracing_worklist s)"
    and "whites s1 = whites s" and "q \<noteq> p \<Longrightarrow> shaded s1 q = shaded s q"
    and "syli_object_has_flags p Meta_Flags_Waiting_Remove (gc_heap s1) = Inr False"
    and "deref p (gc_heap s1) = Inr y"
    and "gc_is_object_mark_tagged p s1 = Inr (obj_marked (tracing_current_bit_mark s) x)"
    and "meta_ref_count y AND REFCOUNT_MASK = 0 \<longleftrightarrow> obj_rc x = 0"
    and "exact_marks ext s \<Longrightarrow> reachable ext (gc_heap s) p"
proof -
  note d = popped_facts [OF assms]
  have s1: "s1 = s\<lparr>tracing_worklist := butlast (tracing_worklist s), gc_heap := (gc_heap s)(p \<mapsto> y)\<rparr>"
    using assms by (simp add: popped_def)
  show h: "gc_heap s1 = (gc_heap s)(p \<mapsto> y)" and b: "tracing_current_bit_mark s1 = tracing_current_bit_mark s"
    and "pending s1 = pending s" and "tracing_mutations_worklist s1 = tracing_mutations_worklist s"
    and "length (tracing_worklist s1) < length (tracing_worklist s)"
    using d(2) by (simp_all add: s1 pending_def)
  show "whites s1 = whites s" using d(1,10) by (auto simp: whites_def h b)
  show "shaded s1 q = shaded s q" if "q \<noteq> p" using that by (simp add: shaded_def h b)
  show "syli_object_has_flags p Meta_Flags_Waiting_Remove (gc_heap s1) = Inr False"
    using object_ops_local(3) [of p "gc_heap s1" y] d(6,7,9) h by simp
  show "deref p (gc_heap s1) = Inr y" using d(7) h by (simp add: deref_live)
  show "gc_is_object_mark_tagged p s1 = Inr (obj_marked (tracing_current_bit_mark s) x)"
    using is_mark_tagged [of p s1 y] d(6,7,10) h b by simp
  show "meta_ref_count y AND REFCOUNT_MASK = 0 \<longleftrightarrow> obj_rc x = 0"
    using d(8) by (metis obj_rc_def unat_0 unat_eq_zero)
  show "reachable ext (gc_heap s) p" if "exact_marks ext s" using that d(1,12) unfolding exact_marks_def by blast
qed

text \<open>An object that is marked already, or has no references left, is not scanned.\<close>

lemma popped_skip:
  assumes inv: "marking_inv ext s" and pop: "popped s p x y s1" "heap_inv ext {} s1" "mutations_ok s1"
    and skip: "obj_rc x = 0 \<or> obj_marked (tracing_current_bit_mark s) x"
  shows "gc_one_step_tracing s = Inr s1" and "marking_inv ext s1" and "marked_less s1 s"
    and "exact_marks ext s \<Longrightarrow> exact_marks ext s1"
proof -
  have H: "heap_inv ext {} s" and tri: "tricolour ext s" using inv by (simp_all add: marking_inv_def)
  note d = popped_facts [OF pop(1)] and P = poppedD [OF pop(1)]
  show "gc_one_step_tracing s = Inr s1"
    using d(2-4,7) P(8-11) skip
    by (auto simp: gc_one_step_tracing_def gc_vector_pop_back_def syli_object_of_obj_ptr_def)
  have "tricolour ext s1"
  proof (rule tricolour_transfer [OF H tri, where new = "{}"])
    fix q a
    assume a: "gc_heap s q = Some a" "0 < obj_rc a" and sh: "shaded s q"
    show "shaded s1 q"
    proof (cases "q = p")
      case True
      with skip a d(1,10) show ?thesis by (auto simp: shaded_def P(1,2))
    next
      case False
      with P(7) sh show ?thesis by simp
    qed
  qed (use d(1,8,10,13) in \<open>auto simp: P(1,2,3) split: if_splits\<close>)
  with pop(2,3) show "marking_inv ext s1" by (simp add: marking_inv_def)
  show "marked_less s1 s" using P(5,6) by (simp add: marked_less_def)
  show "exact_marks ext s1" if e: "exact_marks ext s"
    by (rule exact_transfer [OF e]) (use d(1,10,11,12,13) P(12) [OF e] in \<open>auto simp: P(1,2) split: if_splits\<close>)
qed

text \<open>Any other object is marked, as \<open>z\<close> in \<open>s2\<close>, before its children are pushed.\<close>

definition marked_at :: "Syli_state \<Rightarrow> u64 \<Rightarrow> gc_object \<Rightarrow> gc_object \<Rightarrow> Syli_state \<Rightarrow> bool" where
  "marked_at s p x z s2 \<longleftrightarrow> gc_heap s2 = (gc_heap s)(p \<mapsto> z) \<and> gc_heap s p = Some x
     \<and> tracing_current_bit_mark s2 = tracing_current_bit_mark s \<and> tracing_mutations_worklist s2 = tracing_mutations_worklist s
     \<and> own_refs z = own_refs x \<and> obj_rc z = obj_rc x \<and> \<not> obj_flag Meta_Flags_Waiting_Remove z
     \<and> obj_marked (tracing_current_bit_mark s) z"

lemma popped_mark:
  assumes inv: "marking_inv ext s" and pop: "popped s p x y s1" "heap_inv ext {} s1" "mutations_ok s1" "trace_frame s s1"
    and visit: "obj_rc x \<noteq> 0" "\<not> obj_marked (tracing_current_bit_mark s) x"
  obtains z s2 s3 where "marked_at s p x z s2" and "heap_inv ext {} s2" and "mutations_ok s2" and "trace_frame s s2"
    and "gc_one_step_tracing s = Inr s3" and "pushed ext z s2 s3"
proof -
  note d = popped_facts [OF pop(1)] and P = poppedD [OF pop(1)]
  let ?b = "tracing_current_bit_mark s"
  obtain z where mark: "gc_mark_tag_object p s1 = Inr (s1\<lparr>gc_heap := (gc_heap s1)(p \<mapsto> z)\<rparr>)"
    and H2: "heap_inv ext {} (s1\<lparr>gc_heap := (gc_heap s1)(p \<mapsto> z)\<rparr>)" and z: "same_fields y z" "obj_rc z = obj_rc y"
    and zf: "\<forall>(f, k) \<in> meta_bits. f \<noteq> MASK_MARKING_BIT \<longrightarrow> obj_flag f z = obj_flag f y"
    and zm: "obj_marked ?b z"
    using mark_keeps_inv [OF pop(2), of p y] d(9) P(1,2) by auto
  define s2 where "s2 = s1\<lparr>gc_heap := (gc_heap s1)(p \<mapsto> z), total_objects_traced := total_objects_traced s1 + 1\<rparr>"
  have zw: "\<not> obj_flag Meta_Flags_Waiting_Remove z" using zf d(9) waiting_bit_in flags_distinct by fastforce
  have zc: "obj_flag Meta_Flags_Children_Released z = obj_flag Meta_Flags_Children_Released y"
    using zf released_bit_in flags_distinct(10) by fastforce
  have h2: "gc_heap s2 = (gc_heap s)(p \<mapsto> z)" "tracing_mutations_worklist s2 = tracing_mutations_worklist s"
    by (simp_all add: s2_def P(1,4))
  have "own_refs z = own_refs x" using same_fields_refs(1) [OF z(1)] d(13) by simp
  then have at: "marked_at s p x z s2" using d(1,8) z(2) zw zm by (simp add: marked_at_def s2_def P(1,2,4))
  have inv2: "heap_inv ext {} s2" using H2 by (simp add: s2_def)
  have m2: "mutations_ok s2" using pop(3) zw unfolding mutations_ok_def by (auto simp: h2 P(1,4) split: if_splits)
  have "trace_frame s1 s2"
    using z(1,2) zw zc d(9) heap_shrinks_upd [OF heap_shrinks_refl, of "gc_heap s1" p y z]
    by (auto simp: trace_frame_def s2_def P(1))
  then have fr: "trace_frame s s2" by (rule trace_frame_trans [OF pop(4)])
  have hd: "header_word z = header_word y" using z(1) by (simp add: same_fields_def)
  have step: "gc_one_step_tracing s =
          (if syli_object_is_mono_ref (header_word z) then
              and_then (syli_object_length (header_word z)) (\<lambda>len.
                scan_fields p (\<lambda>_. True) (unat len) gc_tracing_worklist_push
                  (s2\<lparr>tracing_budget := tracing_budget s2 - ucast len\<rparr>))
            else if syli_object_is_mixed_bitmap (header_word z) then
              and_then (syli_object_bitmap_length (header_word z)) (\<lambda>len.
              and_then (syli_object_bitmap_bits (header_word z)) (\<lambda>bitmap.
                scan_fields p (syli_bitmap_is_ref bitmap) (unat len) gc_tracing_worklist_push
                  (s2\<lparr>tracing_budget := tracing_budget s2 - ucast len\<rparr>)))
            else if syli_object_is_mixed_order (header_word z) then
              and_then (syli_object_order_ptr_count (header_word z)) (\<lambda>ptr_count.
                scan_fields p (\<lambda>_. True) (unat ptr_count) gc_tracing_worklist_push
                  (s2\<lparr>tracing_budget := tracing_budget s2 - ucast ptr_count\<rparr>))
            else Inr s2)"
    using d(2-4,7) P(8-11) visit mark
    unfolding gc_one_step_tracing_def Let_def gc_vector_pop_back_def syli_object_of_obj_ptr_def
    by (simp add: s2_def hd cong: if_cong)
  obtain s3 where "gc_one_step_tracing s = Inr s3" "pushed ext z s2 s3"
    using push_children [OF inv2, of p z "\<lambda>len. tracing_budget s2 - ucast len"
        "\<lambda>len. tracing_budget s2 - ucast len" "\<lambda>len. tracing_budget s2 - ucast len"] zw
    unfolding step h2(1) by auto
  then show thesis by (rule that [OF at inv2 m2 fr])
qed

lemma marked_pushed:
  assumes inv: "marking_inv ext s" and at: "marked_at s p x z s2" "heap_inv ext {} s2" "mutations_ok s2"
    and push: "pushed ext z s2 s3" and white: "\<not> obj_marked (tracing_current_bit_mark s) x"
  shows "marking_inv ext s3" and "whites s3 \<subset> whites s"
    and "exact_marks ext s \<Longrightarrow> reachable ext (gc_heap s) p \<Longrightarrow> exact_marks ext s3"
proof -
  have H: "heap_inv ext {} s" and tri: "tricolour ext s" using inv by (simp_all add: marking_inv_def)
  note d = at(1) [unfolded marked_at_def]
  note F = pushed_frame [OF push at(2,3)] and P = pushed_tricolour [OF at(2) push]
  have "tricolour ext s3"
  proof (rule tricolour_transfer [OF H tri, where new = "{p}"])
    show "tracing_current_bit_mark s3 = tracing_current_bit_mark s" using F(1) d by (simp add: trace_frame_def)
    show "pending s \<subseteq> pending s3 \<union> {p}" using F(4) d by (auto simp: pending_def)
  next
    fix q
    assume "shaded s q"
    then have "shaded s2 q" using d by (auto simp: shaded_def)
    then show "shaded s3 q" by (rule P(1))
  next
    fix q a
    assume "gc_heap s3 q = Some a"
    from P(3) [OF this] d show "\<exists>x. gc_heap s q = Some x \<and> own_refs a = own_refs x \<and> (0 < obj_rc a \<longrightarrow> 0 < obj_rc x)
        \<and> (obj_marked (tracing_current_bit_mark s) a \<longrightarrow> obj_marked (tracing_current_bit_mark s) x \<or> q \<in> {p} \<or> obj_rc a = 0)"
      by (auto split: if_splits)
  next
    fix q a v
    assume "q \<in> {p}" "gc_heap s3 q = Some a" "v \<in> set (own_refs a)"
    with P(3) [of q a] P(2) [of v] d show "shaded s3 (syli_ownership_untag v)" by auto
  qed
  with F(2,5) show "marking_inv ext s3" by (simp add: marking_inv_def)
  show "whites s3 \<subset> whites s" using F(3) white d by (auto simp: whites_def split: if_splits)
  show "exact_marks ext s3" if e: "exact_marks ext s" and r: "reachable ext (gc_heap s) p"
  proof -
    have "exact_marks ext s2" by (rule exact_transfer [OF e]) (use d r in \<open>auto split: if_splits\<close>)
    moreover have "reachable ext (gc_heap s2) p"
      by (rule reachable_forward [OF r]) (use d in \<open>auto split: if_splits\<close>)
    ultimately show ?thesis using pushed_exact [OF push at(2), of p z] d by simp
  qed
qed

lemma marking_step:
  assumes inv: "marking_inv ext s" and w: "tracing_worklist s \<noteq> []"
  shows "\<exists>s'. gc_one_step_tracing s = Inr s' \<and> marking_inv ext s' \<and> trace_frame s s'
     \<and> tracing_mutations_worklist s' = tracing_mutations_worklist s \<and> marked_less s' s
     \<and> (exact_marks ext s \<longrightarrow> exact_marks ext s')"
proof -
  define p where "p = syli_ownership_untag (last (tracing_worklist s))"
  have H: "heap_inv ext {} s" using inv by (simp add: marking_inv_def)
  obtain x where x: "gc_heap s p = Some x"
    by (rule tracing_pop [OF H w, folded p_def]) (rule that)
  show ?thesis
  proof (cases "obj_flag Meta_Flags_Waiting_Remove x")
    case True
    with marked_waiting_step [OF inv w] x show ?thesis by (simp add: p_def)
  next
    case False
    obtain y s1 where pop: "popped s p x y s1" "heap_inv ext {} s1" "mutations_ok s1" "trace_frame s s1"
      by (rule popped_live [OF inv w, folded p_def, OF x False])
    show ?thesis
    proof (cases "obj_rc x = 0 \<or> obj_marked (tracing_current_bit_mark s) x")
      case True
      from popped_skip [OF inv pop(1-3) True] pop(4) poppedD(4) [OF pop(1)] show ?thesis by blast
    next
      case False
      then have "obj_rc x \<noteq> 0" and white: "\<not> obj_marked (tracing_current_bit_mark s) x" by simp_all
      then obtain z s2 s3 where s2: "marked_at s p x z s2" "heap_inv ext {} s2" "mutations_ok s2" "trace_frame s s2"
        and s3: "gc_one_step_tracing s = Inr s3" "pushed ext z s2 s3"
        by (rule popped_mark [OF inv pop])
      note F = pushed_frame [OF s3(2) s2(2,3)]
      have "tracing_mutations_worklist s3 = tracing_mutations_worklist s" using F(4) s2(1) by (simp add: marked_at_def)
      moreover have "trace_frame s s3" by (rule trace_frame_trans [OF s2(4) F(1)])
      ultimately show ?thesis
        using s3(1) marked_pushed [OF inv s2(1-3) s3(2)] poppedD(12) [OF pop(1)] white
        by (intro exI [of _ s3]) (auto simp: marked_less_def)
    qed
  qed
qed

section \<open>A step of mutation handling\<close>

text \<open>The last noted object \<open>x\<close> is taken off its worklist; its children are pushed.\<close>

lemma mutation_run:
  assumes w: "tracing_mutations_worklist s \<noteq> []" and v: "v = last (tracing_mutations_worklist s)"
      "syli_ownership_is_own_ref v" "p = syli_ownership_untag v"
    and x: "gc_heap s p = Some x" "p \<noteq> 0" "obj_local x" "\<not> obj_flag Meta_Flags_Waiting_Remove x"
    and s1: "s1 = s\<lparr>tracing_mutations_worklist := butlast (tracing_mutations_worklist s)\<rparr>" and inv: "heap_inv ext {} s1"
  obtains s2 where "gc_one_step_prepare_tracing_mutations s = Inr s2" and "pushed ext x s1 s2"
proof -
  have waiting: "syli_object_has_flags p Meta_Flags_Waiting_Remove (gc_heap s1) = Inr False"
    using object_ops_local(3) [of p "gc_heap s" x] x s1(1) by simp
  have zone: "syli_object_get_zone (header_word x) = Zone_GcLocal" using x(3) by (simp add: obj_local_def)
  have step: "gc_one_step_prepare_tracing_mutations s =
      (if syli_object_is_mono_ref (header_word x) then
          and_then (syli_object_length (header_word x)) (\<lambda>len.
            scan_fields p (\<lambda>_. True) (unat len) gc_tracing_worklist_push
              (s1\<lparr>tracing_budget := tracing_budget s1 - ucast len\<rparr>))
        else if syli_object_is_mixed_bitmap (header_word x) then
          and_then (syli_object_bitmap_length (header_word x)) (\<lambda>len.
          and_then (syli_object_bitmap_bits (header_word x)) (\<lambda>bitmap.
            scan_fields p (syli_bitmap_is_ref bitmap) (unat len) gc_tracing_worklist_push
              (s1\<lparr>tracing_budget := tracing_budget s1\<rparr>)))
        else if syli_object_is_mixed_order (header_word x) then
          and_then (syli_object_order_ptr_count (header_word x)) (\<lambda>ptr_count.
            scan_fields p (\<lambda>_. True) (unat ptr_count) gc_tracing_worklist_push
              (s1\<lparr>tracing_budget := tracing_budget s1 - ucast ptr_count\<rparr>))
        else Inr s1)"
    using w v waiting zone x(1,2)
    unfolding gc_one_step_prepare_tracing_mutations_def Let_def gc_vector_pop_back_def syli_object_of_obj_ptr_def
    by (simp add: s1 deref_live cong: if_cong)
  have h: "gc_heap s1 p = Some x" using x(1) by (simp add: s1)
  obtain s2 where "gc_one_step_prepare_tracing_mutations s = Inr s2" "pushed ext x s1 s2"
    using push_children [OF inv h x(4), of "\<lambda>len. tracing_budget s1 - ucast len"
        "\<lambda>len. tracing_budget s1" "\<lambda>len. tracing_budget s1 - ucast len"]
    unfolding step by auto
  then show thesis by (rule that)
qed

text \<open>Its edges no longer need the note.\<close>

lemma mutation_tricolour:
  assumes H: "heap_inv ext {} s" and tri: "tricolour ext s" and w: "tracing_mutations_worklist s \<noteq> []"
    and p: "p = syli_ownership_untag (last (tracing_mutations_worklist s))" and x: "gc_heap s p = Some x"
    and s1: "s1 = s\<lparr>tracing_mutations_worklist := butlast (tracing_mutations_worklist s)\<rparr>"
      "heap_inv ext {} s1" "mutations_ok s1"
    and push: "pushed ext x s1 s2"
  shows "tricolour ext s2"
proof -
  note F = pushed_frame [OF push s1(2,3)] and P = pushed_tricolour [OF s1(2) push]
  have e: "gc_heap s1 = gc_heap s" "tracing_current_bit_mark s1 = tracing_current_bit_mark s"
    "tracing_mutations_worklist s1 = butlast (tracing_mutations_worklist s)" by (simp_all add: s1(1))
  show ?thesis
  proof (rule tricolour_transfer [OF H tri, where new = "{p}"])
    show "tracing_current_bit_mark s2 = tracing_current_bit_mark s" using F(1) e(2) by (simp add: trace_frame_def)
    have "set (tracing_mutations_worklist s)
        \<subseteq> insert (last (tracing_mutations_worklist s)) (set (butlast (tracing_mutations_worklist s)))"
      using arg_cong [OF append_butlast_last_id [OF w], of set] by auto
    then show "pending s \<subseteq> pending s2 \<union> {p}" by (auto simp: pending_def F(4) e(3) p)
  next
    fix q
    assume "shaded s q"
    then have "shaded s1 q" by (simp add: shaded_def e)
    then show "shaded s2 q" by (rule P(1))
  next
    fix q a
    assume "gc_heap s2 q = Some a"
    from P(3) [OF this] show "\<exists>x. gc_heap s q = Some x \<and> own_refs a = own_refs x \<and> (0 < obj_rc a \<longrightarrow> 0 < obj_rc x)
        \<and> (obj_marked (tracing_current_bit_mark s) a \<longrightarrow> obj_marked (tracing_current_bit_mark s) x \<or> q \<in> {p} \<or> obj_rc a = 0)"
      by (auto simp: e)
  next
    fix q a u
    assume "q \<in> {p}" "gc_heap s2 q = Some a" "u \<in> set (own_refs a)"
    with P(3) [of q a] P(2) [of u] x e(1) show "shaded s2 (syli_ownership_untag u)" by auto
  qed
qed

lemma mutation_step:
  assumes inv: "marking_inv ext s" and w: "tracing_mutations_worklist s \<noteq> []"
  shows "\<exists>s'. gc_one_step_prepare_tracing_mutations s = Inr s' \<and> marking_inv ext s' \<and> trace_frame s s'
     \<and> tracing_mutations_worklist s' = butlast (tracing_mutations_worklist s) \<and> whites s' = whites s"
proof -
  let ?v = "last (tracing_mutations_worklist s)"
  define p where "p = syli_ownership_untag ?v"
  have H: "heap_inv ext {} s" and tri: "tricolour ext s" and mut: "mutations_ok s"
    using inv by (simp_all add: marking_inv_def)
  have "?v \<in> set (tracing_mutations_worklist s)" using w by simp
  with mut obtain x where own: "syli_ownership_is_own_ref ?v"
    and x: "gc_heap s p = Some x" "\<not> obj_flag Meta_Flags_Waiting_Remove x"
    unfolding mutations_ok_def p_def by blast
  have px: "p \<noteq> 0" "obj_local x" using heap_okD [OF heap_invD(1) [OF H] x(1)] by auto
  define s1 where "s1 = s\<lparr>tracing_mutations_worklist := butlast (tracing_mutations_worklist s)\<rparr>"
  have s1: "heap_inv ext {} s1" "tracing_mutations_worklist s1 = butlast (tracing_mutations_worklist s)"
    "mutations_ok s1" "trace_frame s s1" "whites s1 = whites s"
    using H mut by (auto simp: s1_def mutations_ok_def trace_frame_def whites_def dest: in_set_butlastD)
  obtain s2 where s2: "gc_one_step_prepare_tracing_mutations s = Inr s2" "pushed ext x s1 s2"
    by (rule mutation_run [OF w refl own p_def x(1) px x(2) s1_def s1(1)])
  note F = pushed_frame [OF s2(2) s1(1,3)]
  have "tricolour ext s2" by (rule mutation_tricolour [OF H tri w p_def x(1) s1_def s1(1,3) s2(2)])
  then show ?thesis
    using s2(1) F s1(2,5) trace_frame_trans [OF s1(4) F(1)] by (auto simp: marking_inv_def)
qed

section \<open>The marking phase\<close>

text \<open>While it marks, the state machine is in \<open>Tracing\<close> with a non-empty worklist or in
  \<open>Mutation_Prepare\<close>.\<close>

definition marking_phase :: "Syli_state \<Rightarrow> bool" where
  "marking_phase s \<longleftrightarrow> (tracing_state s = Tracing \<and> tracing_worklist s \<noteq> []) \<or> tracing_state s = Mutation_Prepare"

definition phase_measure :: "Syli_state \<Rightarrow> nat \<times> nat \<times> nat \<times> nat" where
  "phase_measure s = (card (whites s), length (tracing_mutations_worklist s), length (tracing_worklist s),
     if tracing_state s = Mutation_Prepare then 1 else 0)"

abbreviation phase_order :: "((nat \<times> nat \<times> nat \<times> nat) \<times> nat \<times> nat \<times> nat \<times> nat) set" where
  "phase_order \<equiv> less_than <*lex*> less_than <*lex*> less_than <*lex*> less_than"

definition phase_frame :: "Syli_state \<Rightarrow> Syli_state \<Rightarrow> bool" where
  "phase_frame s s' \<longleftrightarrow> trace_frame s (s'\<lparr>tracing_state := tracing_state s\<rparr>)"

lemma trace_frame_refl [simp]: "trace_frame s s"
  by (simp add: trace_frame_def)

lemma phase_frame_trans:
  assumes "phase_frame s1 s2" and "phase_frame s2 s3"
  shows "phase_frame s1 s3"
proof -
  have "trace_frame (s2\<lparr>tracing_state := tracing_state s1\<rparr>) (s3\<lparr>tracing_state := tracing_state s1\<rparr>)"
    using assms(2) by (simp add: phase_frame_def trace_frame_def)
  with assms(1) show ?thesis unfolding phase_frame_def by (rule trace_frame_trans)
qed

lemma marking_inv_outside [simp]:
  "marking_inv ext (s\<lparr>tracing_state := t\<rparr>) = marking_inv ext s"
  "marking_inv ext (s\<lparr>tracing_steps := n\<rparr>) = marking_inv ext s"
  "marking_inv ext (s\<lparr>mutation_steps := n\<rparr>) = marking_inv ext s"
  by (simp_all add: marking_inv_def tricolour_def mutations_ok_def shaded_def pending_def)

lemma whites_outside [simp]:
  "whites (s\<lparr>tracing_state := t\<rparr>) = whites s" "whites (s\<lparr>tracing_steps := n\<rparr>) = whites s"
  "whites (s\<lparr>mutation_steps := n\<rparr>) = whites s"
  by (simp_all add: whites_def)

lemma exact_marks_outside [simp]:
  "exact_marks ext (s\<lparr>tracing_state := t\<rparr>) = exact_marks ext s"
  "exact_marks ext (s\<lparr>tracing_steps := n\<rparr>) = exact_marks ext s"
  by (simp_all add: exact_marks_def)

lemma finite_whites: "heap_inv ext D s \<Longrightarrow> finite (whites s)"
proof -
  assume "heap_inv ext D s"
  then have "finite (dom (gc_heap s))" by (auto simp: heap_ok_def dest: heap_invD(1))
  then show ?thesis by (rule rev_finite_subset) (auto simp: whites_def)
qed

text \<open>What a round of the phase achieves.\<close>

definition marking_progress :: "(u64 \<Rightarrow> nat) \<Rightarrow> Syli_state \<Rightarrow> Syli_state \<Rightarrow> bool" where
  "marking_progress ext s s' \<longleftrightarrow> marking_inv ext s' \<and> phase_frame s s'
     \<and> (phase_measure s', phase_measure s) \<in> phase_order \<and> whites s' \<subseteq> whites s
     \<and> (marking_phase s' \<or> (tracing_state s' = Reclaiming_Cyclic_Candidates
          \<and> tracing_worklist s' = [] \<and> tracing_mutations_worklist s' = []))
     \<and> (tracing_mutations_worklist s = [] \<longrightarrow> tracing_mutations_worklist s' = []
          \<and> (exact_marks ext s \<longrightarrow> exact_marks ext s'))"

lemma round_tracing:
  assumes inv: "marking_inv ext s" and st: "tracing_state s = Tracing" "tracing_worklist s \<noteq> []"
    and budget: "0 < sint (tracing_budget s)"
  shows "\<exists>s'. tracing_round env s = Inr (Continue s') \<and> marking_progress ext s s'"
proof -
  from marking_step [OF inv st(2)] obtain s1 where s1: "gc_one_step_tracing s = Inr s1" "marking_inv ext s1"
    "trace_frame s s1" "tracing_mutations_worklist s1 = tracing_mutations_worklist s" "marked_less s1 s"
    and ex: "exact_marks ext s \<longrightarrow> exact_marks ext s1"
    by blast
  define t where "t = (if tracing_worklist s1 = [] \<and> tracing_mutations_worklist s1 = []
    then Reclaiming_Cyclic_Candidates else if tracing_mutations_worklist s1 \<noteq> [] then Mutation_Prepare else Tracing)"
  define s' where "s' = s1\<lparr>tracing_steps := tracing_steps s1 + 1, tracing_state := t\<rparr>"
  have "tracing_state s1 = Tracing" using s1(3) st(1) by (simp add: trace_frame_def)
  then have run: "tracing_round env s = Inr (Continue s')"
    using budget st(1) s1(1) by (simp add: tracing_round_def s'_def t_def)
  have "phase_frame s s'" using s1(3) by (simp add: phase_frame_def trace_frame_def s'_def)
  moreover have "(phase_measure s', phase_measure s) \<in> phase_order"
    using s1(5) psubset_card_mono [of "whites s" "whites s1"] card_mono [of "whites s" "whites s1"]
      finite_whites [of ext "{}" s] inv s1(4)
    by (auto simp: phase_measure_def marked_less_def marking_inv_def s'_def le_less)
  moreover have "marking_phase s' \<or> (tracing_state s' = Reclaiming_Cyclic_Candidates
          \<and> tracing_worklist s' = [] \<and> tracing_mutations_worklist s' = [])"
    by (simp add: marking_phase_def s'_def t_def)
  moreover have "whites s' \<subseteq> whites s" using s1(5) by (auto simp: marked_less_def s'_def)
  ultimately have "marking_progress ext s s'"
    using s1(2,4) ex by (simp add: marking_progress_def) (simp add: s'_def)
  with run show ?thesis by blast
qed

lemma round_mutations_done:
  assumes inv: "marking_inv ext s" and st: "tracing_state s = Mutation_Prepare" "tracing_mutations_worklist s = []"
    and budget: "0 < sint (tracing_budget s)"
  shows "\<exists>s'. tracing_round env s = Inr (Continue s') \<and> marking_progress ext s s'"
proof -
  define s' where "s' = s\<lparr>tracing_state := (if tracing_worklist s \<noteq> [] then Tracing else Reclaiming_Cyclic_Candidates)\<rparr>"
  have run: "tracing_round env s = Inr (Continue s')"
    using budget st by (simp add: tracing_round_def s'_def)
  have "phase_frame s s'" by (simp add: phase_frame_def trace_frame_def s'_def)
  moreover have "(phase_measure s', phase_measure s) \<in> phase_order"
    using st by (simp add: phase_measure_def s'_def)
  ultimately have "marking_progress ext s s'"
    using inv st(2) by (simp add: marking_progress_def) (simp add: marking_phase_def s'_def)
  with run show ?thesis by blast
qed

lemma round_mutation:
  assumes inv: "marking_inv ext s" and st: "tracing_state s = Mutation_Prepare" "tracing_mutations_worklist s \<noteq> []"
    and budget: "0 < sint (tracing_budget s)"
  shows "\<exists>s'. tracing_round env s = Inr (Continue s') \<and> marking_progress ext s s'"
proof -
  from mutation_step [OF inv st(2)] obtain s1 where s1: "gc_one_step_prepare_tracing_mutations s = Inr s1"
    "marking_inv ext s1" "trace_frame s s1" "whites s1 = whites s"
    "tracing_mutations_worklist s1 = butlast (tracing_mutations_worklist s)"
    by blast
  define s' where "s' = s1\<lparr>mutation_steps := mutation_steps s1 + 1\<rparr>"
  have run: "tracing_round env s = Inr (Continue s')"
    using budget st s1(1) by (simp add: tracing_round_def s'_def Let_def)
  have "phase_frame s s'" using s1(3) by (simp add: phase_frame_def trace_frame_def s'_def)
  moreover have "(phase_measure s', phase_measure s) \<in> phase_order"
    using s1(4,5) st(2) by (simp add: phase_measure_def s'_def)
  moreover have "tracing_state s' = Mutation_Prepare" using s1(3) st(1) by (simp add: trace_frame_def s'_def)
  moreover have "whites s' \<subseteq> whites s" "marking_inv ext s'" using s1(2,4) by (simp_all add: s'_def)
  ultimately have "marking_progress ext s s'" using st(2) by (simp add: marking_progress_def marking_phase_def)
  with run show ?thesis by blast
qed

lemma marking_round:
  assumes "marking_inv ext s" and "marking_phase s" and "0 < sint (tracing_budget s)"
  shows "\<exists>s'. tracing_round env s = Inr (Continue s') \<and> marking_inv ext s' \<and> phase_frame s s'
     \<and> (phase_measure s', phase_measure s) \<in> phase_order \<and> whites s' \<subseteq> whites s
     \<and> (marking_phase s' \<or> (tracing_state s' = Reclaiming_Cyclic_Candidates
          \<and> tracing_worklist s' = [] \<and> tracing_mutations_worklist s' = []))
     \<and> (tracing_mutations_worklist s = [] \<longrightarrow> tracing_mutations_worklist s' = []
          \<and> (exact_marks ext s \<longrightarrow> exact_marks ext s'))"
proof -
  have "\<exists>s'. tracing_round env s = Inr (Continue s') \<and> marking_progress ext s s'"
    using assms round_tracing round_mutation round_mutations_done unfolding marking_phase_def by blast
  then show ?thesis by (simp only: marking_progress_def)
qed

text \<open>Rounds of the loop, and what they say about the whole call.\<close>

inductive tracing_rounds :: "'c roots_env \<Rightarrow> Syli_state \<Rightarrow> Syli_state \<Rightarrow> bool" for env where
  stop: "tracing_rounds env s s"
| round: "tracing_round env s = Inr (Continue s1) \<Longrightarrow> tracing_rounds env s1 s2 \<Longrightarrow> tracing_rounds env s s2"

lemma tracing_rounds_call:
  "tracing_rounds env s s' \<Longrightarrow> syli_state_gc_tracing env s = syli_state_gc_tracing env s'"
  by (induction rule: tracing_rounds.induct) (simp_all add: syli_state_gc_tracing_def run_loop_Continue)

lemma tracing_rounds_trans: "tracing_rounds env s1 s2 \<Longrightarrow> tracing_rounds env s2 s3 \<Longrightarrow> tracing_rounds env s1 s3"
  by (induction rule: tracing_rounds.induct) (auto intro: tracing_rounds.round)

lemma marking_rounds:
  assumes "marking_inv ext s" and "marking_phase s"
  shows "\<exists>s'. tracing_rounds env s s' \<and> marking_inv ext s' \<and> phase_frame s s' \<and> whites s' \<subseteq> whites s
     \<and> (s' = s \<or> (phase_measure s', phase_measure s) \<in> phase_order)
     \<and> (sint (tracing_budget s') \<le> 0 \<and> marking_phase s'
        \<or> tracing_state s' = Reclaiming_Cyclic_Candidates
          \<and> tracing_worklist s' = [] \<and> tracing_mutations_worklist s' = [])
     \<and> (tracing_mutations_worklist s = [] \<longrightarrow> tracing_mutations_worklist s' = []
          \<and> (exact_marks ext s \<longrightarrow> exact_marks ext s'))"
proof -
  have "wf phase_order" by auto
  then have wfm: "wf (inv_image phase_order phase_measure)" by (rule wf_inv_image)
  have trans: "trans phase_order" by (auto intro!: trans_lex_prod trans_less_than)
  from wfm show ?thesis using assms
  proof (induction s rule: wf_induct_rule)
    case (less s)
    show ?case
    proof (cases "sint (tracing_budget s) \<le> 0")
      case True
      have "phase_frame s s" by (simp add: phase_frame_def)
      with True less.prems tracing_rounds.stop show ?thesis by blast
    next
      case False
      then have "0 < sint (tracing_budget s)" by simp
      from marking_round [OF less.prems this, of env] obtain s1 where
        s1: "tracing_round env s = Inr (Continue s1)" "marking_inv ext s1" "phase_frame s s1"
        and wh: "whites s1 \<subseteq> whites s" and m: "(s1, s) \<in> inv_image phase_order phase_measure"
        and ph: "marking_phase s1 \<or> (tracing_state s1 = Reclaiming_Cyclic_Candidates
          \<and> tracing_worklist s1 = [] \<and> tracing_mutations_worklist s1 = [])"
        and ex: "tracing_mutations_worklist s = [] \<longrightarrow> tracing_mutations_worklist s1 = []
          \<and> (exact_marks ext s \<longrightarrow> exact_marks ext s1)"
        by (auto simp: in_inv_image)
      show ?thesis
      proof (cases "marking_phase s1")
        case True
        obtain s2 where s2: "tracing_rounds env s1 s2" "marking_inv ext s2" "phase_frame s1 s2" "whites s2 \<subseteq> whites s1"
          "s2 = s1 \<or> (phase_measure s2, phase_measure s1) \<in> phase_order"
          "sint (tracing_budget s2) \<le> 0 \<and> marking_phase s2 \<or> tracing_state s2 = Reclaiming_Cyclic_Candidates
            \<and> tracing_worklist s2 = [] \<and> tracing_mutations_worklist s2 = []"
          "tracing_mutations_worklist s1 = [] \<longrightarrow> tracing_mutations_worklist s2 = []
            \<and> (exact_marks ext s1 \<longrightarrow> exact_marks ext s2)"
          using less.IH [OF m s1(2) True] by blast
        have "(phase_measure s2, phase_measure s) \<in> phase_order"
          using s2(5) m [unfolded in_inv_image] transD [OF trans] by blast
        then show ?thesis
          by (intro exI [of _ s2])
            (use s2 ex wh phase_frame_trans [OF s1(3) s2(3)] tracing_rounds.round [OF s1(1) s2(1)] in blast)
      next
        case False
        with ph s1 wh ex m [unfolded in_inv_image] tracing_rounds.round [OF s1(1) tracing_rounds.stop] show ?thesis by blast
      qed
    qed
  qed
qed

section \<open>Collecting the roots\<close>

text \<open>The values a frame's stack map entry locates, and those of a list of frames.\<close>

definition frame_values ::
    "'c roots_env \<Rightarrow> u8 list \<Rightarrow> record_table \<times> u64 \<Rightarrow> u64 \<Rightarrow> 'c \<Rightarrow> u64 list \<Rightarrow> bool" where
  "frame_values env sec table ip cursor vs \<longleftrightarrow>
     (\<exists>entry. syli_lookup_record_entry table ip = Inr entry
        \<and> (case (entry_locations entry, entry_record entry) of
             (Some locations, Some rec) \<Rightarrow>
               (\<exists>r. read_record sec rec = Inr r \<and> length vs = unat (num_locations r)
                  \<and> (\<forall>i < length vs. \<exists>loc. read_location sec (locations + i * sizeof_Location) = Inr loc
                        \<and> decode_location env cursor loc = vs ! i))
           | _ \<Rightarrow> vs = []))"

inductive frames_values :: "'c roots_env \<Rightarrow> u8 list \<Rightarrow> record_table \<times> u64 \<Rightarrow> (u64 option \<times> 'c) list \<Rightarrow> u64 list \<Rightarrow> bool"
  for env sec table where
  none: "frames_values env sec table [] []"
| skip: "frames_values env sec table fs vs \<Longrightarrow> frames_values env sec table ((None, c) # fs) vs"
| frame: "frame_values env sec table ip c us \<Longrightarrow> frames_values env sec table fs vs
    \<Longrightarrow> frames_values env sec table ((Some ip, c) # fs) (us @ vs)"

definition stack_values :: "'c roots_env \<Rightarrow> Syli_state \<Rightarrow> u64 list \<Rightarrow> bool" where
  "stack_values env s vs \<longleftrightarrow> (\<exists>ready s1. stack_roots_ready env s = Inr (ready, s1)
     \<and> (if ready then frames_values env (the (section_bytes env))
          (stackmap_record_entry s1, stackmap_record_entry_len s1) (frames env) vs
        else vs = []))"

text \<open>Some values have been pushed: memory only became greyer.\<close>

definition rooted :: "(u64 \<Rightarrow> nat) \<Rightarrow> u64 set \<Rightarrow> Syli_state \<Rightarrow> Syli_state \<Rightarrow> bool" where
  "rooted ext vs s s' \<longleftrightarrow> (\<exists>h w. s' = s\<lparr>gc_heap := h, tracing_worklist := w\<rparr> \<and> heap_inv ext {} s'
     \<and> greyed (gc_heap s) h
     \<and> traced h = syli_ownership_untag ` {v \<in> vs. is_own_field v} \<union> traced (gc_heap s))"

definition roots_live :: "Syli_state \<Rightarrow> u64 set \<Rightarrow> bool" where
  "roots_live s vs \<longleftrightarrow> (\<forall>v \<in> vs. is_own_field v \<longrightarrow>
     (\<exists>x. gc_heap s (syli_ownership_untag v) = Some x \<and> \<not> obj_flag Meta_Flags_Waiting_Remove x))"

lemma rooted_start: "heap_inv ext {} s \<Longrightarrow> rooted ext {} s s"
  unfolding rooted_def by (rule exI [of _ "gc_heap s"], rule exI [of _ "tracing_worklist s"]) simp

lemma rooted_roots_live:
  assumes "rooted ext us s s'" and "roots_live s vs"
  shows "roots_live s' vs"
  unfolding roots_live_def
proof (intro ballI impI)
  fix v
  assume v: "v \<in> vs" "is_own_field v"
  obtain h w where s': "s' = s\<lparr>gc_heap := h, tracing_worklist := w\<rparr>" "greyed (gc_heap s) h"
    using assms(1) unfolding rooted_def by blast
  obtain x where x: "gc_heap s (syli_ownership_untag v) = Some x" "\<not> obj_flag Meta_Flags_Waiting_Remove x"
    using assms(2) v unfolding roots_live_def by blast
  obtain y where y: "h (syli_ownership_untag v) = Some y" by (rule greyed_some [OF s'(2) x(1)])
  with greyed_waiting [OF s'(2) x(1)] x(2) s'(1)
  show "\<exists>x. gc_heap s' (syli_ownership_untag v) = Some x \<and> \<not> obj_flag Meta_Flags_Waiting_Remove x" by auto
qed

lemma rooted_trans:
  assumes "rooted ext us s1 s2" and "rooted ext vs s2 s3"
  shows "rooted ext (us \<union> vs) s1 s3"
proof -
  obtain h w where s2: "s2 = s1\<lparr>gc_heap := h, tracing_worklist := w\<rparr>" "greyed (gc_heap s1) h"
    "traced h = syli_ownership_untag ` {v \<in> us. is_own_field v} \<union> traced (gc_heap s1)"
    using assms(1) unfolding rooted_def by blast
  obtain h' w' where s3: "s3 = s2\<lparr>gc_heap := h', tracing_worklist := w'\<rparr>" "heap_inv ext {} s3"
    "greyed (gc_heap s2) h'" "traced h' = syli_ownership_untag ` {v \<in> vs. is_own_field v} \<union> traced (gc_heap s2)"
    using assms(2) unfolding rooted_def by blast
  have g: "greyed h h'" using s3(3) s2(1) by simp
  have "s3 = s1\<lparr>gc_heap := h', tracing_worklist := w'\<rparr>" using s3(1) s2(1) by simp
  moreover have "traced h' = syli_ownership_untag ` {v \<in> us \<union> vs. is_own_field v} \<union> traced (gc_heap s1)"
    using s2(1,3) s3(4) by auto
  ultimately show ?thesis using s3(2) greyed_trans [OF s2(2) g] unfolding rooted_def by blast
qed

lemma root_push:
  assumes "heap_inv ext {} s" and "roots_live s {v}"
  shows "\<exists>s'. (if v = 0 then Inr s else gc_tracing_worklist_push v s) = Inr s' \<and> rooted ext {v} s s'"
proof (cases "is_own_field v")
  case True
  then obtain x where x: "gc_heap s (syli_ownership_untag v) = Some x" "\<not> obj_flag Meta_Flags_Waiting_Remove x"
    using assms(2) unfolding roots_live_def by blast
  from tracing_push_spec [OF assms(1) _ x] True show ?thesis
    unfolding rooted_def by (auto simp: is_own_field_def)
next
  case False
  then have "(if v = 0 then Inr s else gc_tracing_worklist_push v s) = Inr s"
    by (auto simp: is_own_field_def gc_tracing_worklist_push_def)
  moreover have "{u. u = v \<and> is_own_field u} = {}" using False by blast
  then have "syli_ownership_untag ` {u \<in> {v}. is_own_field u} = syli_ownership_untag ` {v \<in> {}. is_own_field v}"
    by auto
  then have "rooted ext {v} s s" using rooted_start [OF assms(1)] unfolding rooted_def by (simp only:)
  ultimately show ?thesis by blast
qed

lemma rooted_inv: "rooted ext vs s s' \<Longrightarrow> heap_inv ext {} s'"
  by (auto simp: rooted_def)

lemma roots_live_subset: "roots_live s vs \<Longrightarrow> us \<subseteq> vs \<Longrightarrow> roots_live s us"
  by (auto simp: roots_live_def)

lemma collect_frame_rooted:
  assumes vals: "frame_values env sec (stackmap_record_entry s, stackmap_record_entry_len s) ip c vs"
    and inv: "heap_inv ext {} s" and live: "roots_live s (set vs)"
  shows "\<exists>s'. collect_frame env sec ip c s = Inr s' \<and> rooted ext (set vs) s s'"
proof -
  obtain entry where e: "syli_lookup_record_entry (stackmap_record_entry s, stackmap_record_entry_len s) ip = Inr entry"
    and rest: "case (entry_locations entry, entry_record entry) of
             (Some locations, Some rec) \<Rightarrow>
               (\<exists>r. read_record sec rec = Inr r \<and> length vs = unat (num_locations r)
                  \<and> (\<forall>i < length vs. \<exists>loc. read_location sec (locations + i * sizeof_Location) = Inr loc
                        \<and> decode_location env c loc = vs ! i))
           | _ \<Rightarrow> vs = []"
    using vals unfolding frame_values_def by blast
  show ?thesis
  proof (cases "\<exists>l rec. entry_locations entry = Some l \<and> entry_record entry = Some rec")
    case False
    then have "vs = []" using rest by (auto split: option.splits)
    moreover have "collect_frame env sec ip c s = Inr s"
      using e False by (auto simp: collect_frame_def split: option.splits)
    ultimately show ?thesis using rooted_start [OF inv] by simp
  next
    case True
    then obtain l rec r where lr: "entry_locations entry = Some l" "entry_record entry = Some rec"
      "read_record sec rec = Inr r" "length vs = unat (num_locations r)"
      and loc: "\<And>i. i < length vs \<Longrightarrow> \<exists>loc. read_location sec (l + i * sizeof_Location) = Inr loc
                        \<and> decode_location env c loc = vs ! i"
      using rest by auto
    have "\<exists>s'. for_range 0 (length vs) (\<lambda>i s.
           and_then (read_location sec (l + i * sizeof_Location)) (\<lambda>loc.
           let v = decode_location env c loc in
           if v = 0 then Inr s else gc_tracing_worklist_push v s)) s = Inr s' \<and> rooted ext (set (take (length vs) vs)) s s'"
    proof (rule for_range_total)
      show "rooted ext (set (take 0 vs)) s s" using rooted_start [OF inv] by simp
    next
      fix k t
      assume k: "k < length vs" and t: "rooted ext (set (take k vs)) s t"
      obtain x where x: "read_location sec (l + k * sizeof_Location) = Inr x" "decode_location env c x = vs ! k"
        using loc [OF k] by blast
      have "roots_live t {vs ! k}"
        by (rule roots_live_subset [OF rooted_roots_live [OF t live]]) (use k in simp)
      from root_push [OF rooted_inv [OF t] this] obtain t' where
        t': "(if vs ! k = 0 then Inr t else gc_tracing_worklist_push (vs ! k) t) = Inr t'" "rooted ext {vs ! k} t t'"
        by blast
      have "rooted ext (set (take (Suc k) vs)) s t'"
        using rooted_trans [OF t t'(2)] k by (simp add: take_Suc_conv_app_nth)
      with t'(1) x show "\<exists>t'. and_then (read_location sec (l + k * sizeof_Location)) (\<lambda>loc.
           let v = decode_location env c loc in
           if v = 0 then Inr t else gc_tracing_worklist_push v t) = Inr t' \<and> rooted ext (set (take (Suc k) vs)) s t'"
        by simp
    qed simp
    with e lr show ?thesis by (simp add: collect_frame_def)
  qed
qed

lemma rooted_table: "rooted ext vs s s' \<Longrightarrow> stackmap_record_entry s' = stackmap_record_entry s
    \<and> stackmap_record_entry_len s' = stackmap_record_entry_len s"
  by (auto simp: rooted_def)

lemma collect_frames_rooted:
  assumes "frames_values env sec (stackmap_record_entry s, stackmap_record_entry_len s) fs vs"
    and "heap_inv ext {} s" and "roots_live s (set vs)"
  shows "\<exists>s'. collect_frames env sec fs s = Inr s' \<and> rooted ext (set vs) s s'"
  using assms
proof (induction fs arbitrary: s vs)
  case Nil
  then show ?case using rooted_start by (auto elim: frames_values.cases)
next
  case (Cons f fs)
  from Cons.prems(1) show ?case
  proof (cases rule: frames_values.cases)
    case (skip c)
    with Cons.IH Cons.prems show ?thesis by auto
  next
    case (frame ip c us ws)
    have "roots_live s (set us)" "roots_live s (set ws)"
      using Cons.prems(3) frame(2) by (auto simp: roots_live_def)
    from collect_frame_rooted [OF frame(3) Cons.prems(2) this(1)] obtain s1 where
      s1: "collect_frame env sec ip c s = Inr s1" "rooted ext (set us) s s1" by blast
    have "frames_values env sec (stackmap_record_entry s1, stackmap_record_entry_len s1) fs ws"
      using frame(4) rooted_table [OF s1(2)] by simp
    from Cons.IH [OF this rooted_inv [OF s1(2)] rooted_roots_live [OF s1(2) \<open>roots_live s (set ws)\<close>]]
    obtain s2 where s2: "collect_frames env sec fs s1 = Inr s2" "rooted ext (set ws) s1 s2" by blast
    from rooted_trans [OF s1(2) s2(2)] s1(1) s2(1) frame(1,2) show ?thesis by auto
  qed
qed

lemma stack_roots_ready_table:
  assumes "stack_roots_ready env s = Inr (ready, s1)"
  obtains t l where "s1 = s\<lparr>stackmap_record_entry := t, stackmap_record_entry_len := l\<rparr>"
proof (cases "no_section (section_bytes env)")
  case True
  with assms have "s1 = s\<lparr>stackmap_record_entry := stackmap_record_entry s,
      stackmap_record_entry_len := stackmap_record_entry_len s\<rparr>" by (simp add: stack_roots_ready_def)
  then show thesis by (rule that)
next
  case False
  with assms obtain t l where "s1 = s\<lparr>stackmap_record_entry := t, stackmap_record_entry_len := l\<rparr>"
    by (auto simp: stack_roots_ready_def and_then_eq_Inr check_eq_Inr)
  then show thesis by (rule that)
qed

lemma stack_values_cong:
  assumes "stack_values env s vs" and "stackmap_record_entry s' = stackmap_record_entry s"
    and "stackmap_record_entry_len s' = stackmap_record_entry_len s"
  shows "stack_values env s' vs"
proof (cases "no_section (section_bytes env)")
  case True
  then have "stack_roots_ready env u = Inr (False, u)" for u by (simp add: stack_roots_ready_def)
  with assms(1) show ?thesis by (auto simp: stack_values_def split: if_splits)
next
  case False
  let ?build = "\<lambda>u. if stackmap_record_entry u = No_table
         then syli_build_stackmap_record_entry (calloc_ok env) (the (section_bytes env))
                (stackmap_record_entry u, stackmap_record_entry_len u)
         else Inr (stackmap_record_entry u, stackmap_record_entry_len u)"
  obtain t l where t: "?build s = Inr (t, l)" "t \<noteq> No_table"
    "frames_values env (the (section_bytes env)) (t, l) (frames env) vs"
    using assms(1) False by (auto simp: stack_values_def stack_roots_ready_def and_then_eq_Inr check_eq_Inr)
  have "?build s' = Inr (t, l)" using t(1) unfolding assms(2,3) .
  then have "stack_roots_ready env s' = Inr (True,
      s'\<lparr>stackmap_record_entry := t, stackmap_record_entry_len := l\<rparr>)"
    using False t(2) by (simp add: stack_roots_ready_def)
  with t(3) show ?thesis unfolding stack_values_def by auto
qed

text \<open>Building the table does not change the values the roots have.\<close>

lemma stack_values_built:
  assumes r: "stack_roots_ready env s = Inr (ready, s1)" and v: "stack_values env s vs"
  shows "stack_values env s1 vs"
proof (cases "no_section (section_bytes env)")
  case True
  with r have "s1 = s" by (simp add: stack_roots_ready_def)
  with v show ?thesis by simp
next
  case False
  with r have "ready" "stackmap_record_entry s1 \<noteq> No_table"
    by (auto simp: stack_roots_ready_def and_then_eq_Inr check_eq_Inr)
  moreover from this False have "stack_roots_ready env s1 = Inr (True, s1)" by (simp add: stack_roots_ready_def)
  ultimately show ?thesis using v r unfolding stack_values_def by auto
qed

text \<open>In a well-formed stack map sorted by address, a frame's values are those its record
  lists.\<close>

lemma frame_values_encoded:
  assumes "stackmap_fits fs cs"
    and "sorted_wrt (<) (map entry_pc (map (table_entry fs cs) [0..<length (flat_records fs)]))"
    and "length (map (table_entry fs cs) [0..<length (flat_records fs)]) < 2 ^ 31"
    and "j < length (flat_records fs)"
  shows "frame_values env (encode_section fs cs)
      (Table (map (table_entry fs cs) [0..<length (flat_records fs)]),
       of_nat (length (map (table_entry fs cs) [0..<length (flat_records fs)])))
      (entry_pc (table_entry fs cs j)) c
      (map (decode_location env c) (sr_locations (snd (flat_records fs ! j))))"
proof -
  let ?es = "map (table_entry fs cs) [0..<length (flat_records fs)]"
  note at = record_at [OF assms(4), of cs] and fits = flat_record_fits [OF assms(1,4)]
  have "entry_pc (?es ! i) \<noteq> entry_pc (table_entry fs cs j)" if "i < j" for i
    using sorted_entries [OF assms(2) that] assms(4) that by simp
  then have "find (\<lambda>e. entry_pc e = entry_pc (table_entry fs cs j)) ?es = Some (table_entry fs cs j)"
    unfolding find_Some_iff using assms(4) by (intro exI [of _ j]) auto
  then have "syli_lookup_record_entry (Table ?es, of_nat (length ?es)) (entry_pc (table_entry fs cs j))
      = Inr (table_entry fs cs j)"
    by (simp only: lookup_record_sorted [OF assms(2,3)] option.case)
  moreover have "unat (of_nat (length (sr_locations (snd (flat_records fs ! j)))) :: u16)
      = length (sr_locations (snd (flat_records fs ! j)))"
    using fits(1) by (simp add: unsigned_of_nat take_bit_nat_eq_self)
  ultimately show ?thesis
    using read_record_encoded [OF at fits(1)] read_locations_encoded [OF at]
    by (auto simp: frame_values_def table_entry_def split_beta Let_def)
qed

lemma collect_roots_spec:
  assumes "heap_inv ext {} s" and "stack_values env s vs" and "roots_live s (set vs)"
  obtains s' where "syli_rt_collect_stack_roots env s = Inr s'" and "heap_inv ext {} s'"
    and "greyed (gc_heap s) (gc_heap s')"
    and "\<forall>v \<in> set vs. is_own_field v \<longrightarrow> syli_ownership_untag v \<in> traced (gc_heap s')"
    and "\<exists>t l h w. s' = s\<lparr>stackmap_record_entry := t, stackmap_record_entry_len := l,
       gc_heap := h, tracing_worklist := w\<rparr>"
    and "traced (gc_heap s') = syli_ownership_untag ` {v \<in> set vs. is_own_field v} \<union> traced (gc_heap s)"
    and "\<forall>us. stack_values env s us \<longrightarrow> stack_values env s' us"
proof -
  obtain ready s1 where r: "stack_roots_ready env s = Inr (ready, s1)"
    and v: "if ready then frames_values env (the (section_bytes env))
          (stackmap_record_entry s1, stackmap_record_entry_len s1) (frames env) vs else vs = []"
    using assms(2) unfolding stack_values_def by blast
  obtain t l where s1: "s1 = s\<lparr>stackmap_record_entry := t, stackmap_record_entry_len := l\<rparr>"
    by (rule stack_roots_ready_table [OF r])
  have inv: "heap_inv ext {} s1" "roots_live s1 (set vs)"
    using assms(1,3) by (simp_all add: s1 heap_inv_def roots_live_def)
  obtain s2 where s2: "syli_rt_collect_stack_roots env s = Inr s2" "rooted ext (set vs) s1 s2"
  proof (cases ready)
    case True
    with v have "frames_values env (the (section_bytes env))
        (stackmap_record_entry s1, stackmap_record_entry_len s1) (frames env) vs" by simp
    from collect_frames_rooted [OF this inv] r True that show thesis
      by (auto simp: syli_rt_collect_stack_roots_def)
  next
    case False
    with v r rooted_start [OF inv(1)] that show thesis by (auto simp: syli_rt_collect_stack_roots_def)
  qed
  obtain h w where hw: "s2 = s1\<lparr>gc_heap := h, tracing_worklist := w\<rparr>" "heap_inv ext {} s2"
    "greyed (gc_heap s1) h"
    "traced h = syli_ownership_untag ` {v \<in> set vs. is_own_field v} \<union> traced (gc_heap s1)"
    using s2(2) unfolding rooted_def by blast
  have "s2 = s\<lparr>stackmap_record_entry := t, stackmap_record_entry_len := l, gc_heap := h, tracing_worklist := w\<rparr>"
    using hw(1) s1 by simp
  moreover have "greyed (gc_heap s) (gc_heap s2)"
    "\<forall>v \<in> set vs. is_own_field v \<longrightarrow> syli_ownership_untag v \<in> traced (gc_heap s2)"
    "traced (gc_heap s2) = syli_ownership_untag ` {v \<in> set vs. is_own_field v} \<union> traced (gc_heap s)"
    using hw s1 by auto
  moreover have "\<forall>us. stack_values env s us \<longrightarrow> stack_values env s2 us"
    using stack_values_cong [OF stack_values_built [OF r]] hw(1) by simp
  ultimately show thesis using s2(1) hw(2) by (intro that [of s2]) blast+
qed

section \<open>Properties\<close>

text \<open>C5: once the roots are on the worklist, marking returns whatever its budget and the shape of
  the heap: no assertion fails, freed memory is not touched, everything reachable stays
  allocated, and either the budget is used up in a state marking can resume from, or the
  worklists are empty and every reachable object has the mark of this generation.\<close>

theorem gc_marking_complete:
  assumes "marking_inv ext s" and "marking_phase s"
  shows "\<exists>s'. tracing_rounds env s s' \<and> syli_state_gc_tracing env s = syli_state_gc_tracing env s'
     \<and> marking_inv ext s'
     \<and> (\<forall>p. reachable ext (gc_heap s) p \<longrightarrow> (\<exists>x. gc_heap s' p = Some x \<and> 0 < obj_rc x))
     \<and> (sint (tracing_budget s') \<le> 0 \<and> marking_phase s' \<and> syli_state_gc_tracing env s = Some (Inr s')
        \<or> tracing_state s' = Reclaiming_Cyclic_Candidates
          \<and> tracing_worklist s' = [] \<and> tracing_mutations_worklist s' = []
          \<and> (\<forall>p. reachable ext (gc_heap s') p \<longrightarrow>
               (\<exists>x. gc_heap s' p = Some x \<and> obj_marked (tracing_current_bit_mark s') x)))"
proof -
  obtain s' where s': "tracing_rounds env s s'" "marking_inv ext s'" "phase_frame s s'"
    and fin: "sint (tracing_budget s') \<le> 0 \<and> marking_phase s'
        \<or> tracing_state s' = Reclaiming_Cyclic_Candidates
          \<and> tracing_worklist s' = [] \<and> tracing_mutations_worklist s' = []"
    using marking_rounds [OF assms] by blast
  have H: "heap_inv ext {} s'" "tricolour ext s'" using s'(2) by (simp_all add: marking_inv_def)
  have "heap_shrinks (gc_heap s) (gc_heap s')" using s'(3) by (simp add: phase_frame_def trace_frame_def)
  then have "\<exists>x. gc_heap s' p = Some x \<and> 0 < obj_rc x" if "reachable ext (gc_heap s) p" for p
    using reachable_kept [OF that _ heap_invD(2,1) [OF H(1)]] by blast
  moreover have "syli_state_gc_tracing env s = Some (Inr s')" if "sint (tracing_budget s') \<le> 0"
    unfolding tracing_rounds_call [OF s'(1)] unfolding syli_state_gc_tracing_def
    by (rule run_loop_Return) (simp add: tracing_round_def that)
  ultimately show ?thesis
    using s'(1,2) fin tracing_rounds_call [OF s'(1)] tricolour_done [OF H] by blast
qed

lemmas obj_bit_defs = obj_rc_def obj_flag_def obj_marked_def REFCOUNT_MASK_def
  Meta_Flags_Cyclic_Candidate_def Meta_Flags_Waiting_Remove_def Meta_Flags_Tracing_def
  MASK_MARKING_BIT_def

text \<open>An object at 8 on the worklist, with one reference from a variable, that holds the only
  reference to a leaf at 16; both are white.\<close>

definition root_object :: gc_object where
  "root_object = set_meta (Meta_Flags_Tracing OR 1) parent_object"

definition marking_sample :: Syli_state where
  "marking_sample = (zero_state [8 \<mapsto> root_object, 16 \<mapsto> leaf_object])
     \<lparr>tracing_worklist := [9], tracing_state := Tracing, tracing_budget := 2000,
      tracing_current_bit_mark := MASK_MARKING_BIT\<rparr>"

abbreviation one_root :: "u64 \<Rightarrow> nat" where
  "one_root \<equiv> (\<lambda>p. if p = 8 then 1 else 0)"

lemma root_facts:
  "obj_ok root_object" "own_refs root_object = [17]" "obj_rc root_object = 1"
  "\<not> obj_flag Meta_Flags_Cyclic_Candidate root_object" "obj_flag Meta_Flags_Tracing root_object"
  "\<not> obj_flag Meta_Flags_Waiting_Remove root_object" "\<not> obj_marked MASK_MARKING_BIT root_object"
  "\<not> obj_marked MASK_MARKING_BIT leaf_object"
proof -
  show "obj_ok root_object" "own_refs root_object = [17]"
    using parent_facts(1,2) by (simp_all add: root_object_def)
qed (simp_all add: root_object_def leaf_object_def obj_bit_defs set_meta_def)

lemma marking_sample_inv: "marking_inv one_root marking_sample" "marking_phase marking_sample"
proof -
  have "holders {} [8 \<mapsto> root_object, 16 \<mapsto> leaf_object] = {8, 16}"
    using leaf_facts root_facts by (auto simp: holders_def)
  then have "heap_inv one_root {} marking_sample"
    using leaf_facts root_facts sample_untag
    by (auto simp: heap_inv_def marking_sample_def zero_state_def heap_ok_def counts_ok_def
        incoming_def rc_at_def registry_inv_def traced_def split: if_splits)
  then show "marking_inv one_root marking_sample"
    using root_facts by (auto simp: marking_inv_def tricolour_def mutations_ok_def shaded_def
        marking_sample_def zero_state_def split: if_splits)
  show "marking_phase marking_sample" by (simp add: marking_phase_def marking_sample_def)
qed

lemma marking_sample_reachable: "reachable one_root (gc_heap marking_sample) 16"
proof -
  have "reachable one_root (gc_heap marking_sample) 8" by (rule reachable.root) simp
  moreover have "gc_heap marking_sample 8 = Some root_object" by (simp add: marking_sample_def zero_state_def)
  ultimately show ?thesis
    using reachable.step [of one_root "gc_heap marking_sample" 8 root_object 17] root_facts(2) sample_untag(1)
    by simp
qed

theorem gc_marking_complete_witness:
  "\<exists>s' x. tracing_rounds roots_env_null marking_sample s' \<and> gc_heap s' 16 = Some x \<and> 0 < obj_rc x"
  using gc_marking_complete [OF marking_sample_inv, of roots_env_null] marking_sample_reachable by blast

text \<open>C20: collecting the roots pushes every own reference that the stack maps locate in the
  frames; when those are live, it succeeds, keeps the invariant of memory, and only greys
  objects.\<close>

theorem gc_roots_collected:
  assumes "heap_inv ext {} s" and "stack_values env s vs" and "roots_live s (set vs)"
  shows "\<exists>s'. syli_rt_collect_stack_roots env s = Inr s' \<and> heap_inv ext {} s'
     \<and> greyed (gc_heap s) (gc_heap s')
     \<and> (\<forall>v \<in> set vs. is_own_field v \<longrightarrow> syli_ownership_untag v \<in> traced (gc_heap s'))
     \<and> tracing_mutations_worklist s' = tracing_mutations_worklist s
     \<and> tracing_state s' = tracing_state s \<and> tracing_current_bit_mark s' = tracing_current_bit_mark s"
proof -
  obtain s' where "syli_rt_collect_stack_roots env s = Inr s'" "heap_inv ext {} s'"
    "greyed (gc_heap s) (gc_heap s')"
    "\<forall>v \<in> set vs. is_own_field v \<longrightarrow> syli_ownership_untag v \<in> traced (gc_heap s')"
    and "\<exists>t l h w. s' = s\<lparr>stackmap_record_entry := t, stackmap_record_entry_len := l,
       gc_heap := h, tracing_worklist := w\<rparr>"
    by (rule collect_roots_spec [OF assms]) (rule that)
  then show ?thesis by auto
qed

definition root_stackmap :: "stackmap_function list" where
  "root_stackmap =
     [\<lparr>sf_addr = 0x2000, sf_stack_size = 24,
       sf_records = [\<lparr>sr_id = 1, sr_offset = 4, sr_flags = 0,
          sr_locations = [\<lparr>loc_kind = 1, loc_size = 8, dwarf_reg = 3, loc_offset = 0\<rparr>],
          sr_liveouts = []\<rparr>]\<rparr>]"

definition root_env :: "unit roots_env" where
  "root_env = \<lparr>section_bytes = Some (encode_section root_stackmap []), calloc_ok = True,
     frames = [(None, ()), (Some 0x2004, ())], register_value = (\<lambda>_ r. if r = 3 then 9 else 0),
     stack_word = (\<lambda>_. 0)\<rparr>"

lemma root_env_values:
  assumes "stackmap_record_entry s = No_table" and "stackmap_record_entry_len s = 0"
  shows "stack_values root_env s [9]"
proof -
  let ?sec = "encode_section root_stackmap []"
  have fits: "stackmap_fits root_stackmap []" by (simp add: stackmap_fits_def root_stackmap_def)
  have flat: "flat_records root_stackmap = [(0x2000, \<lparr>sr_id = 1, sr_offset = 4, sr_flags = 0,
      sr_locations = [\<lparr>loc_kind = 1, loc_size = 8, dwarf_reg = 3, loc_offset = 0\<rparr>], sr_liveouts = []\<rparr>)]"
    by (simp add: flat_records_def root_stackmap_def)
  define es where "es = map (table_entry root_stackmap []) [0..<length (flat_records root_stackmap)]"
  have one: "length es = length (flat_records root_stackmap)" by (simp add: es_def)
  have pc: "entry_pc (table_entry root_stackmap [] 0) = 0x2004" by (simp add: table_entry_def flat)
  have "\<not> no_section (section_bytes root_env)" by (simp add: root_env_def no_section_def encode_section_def)
  then have ready: "stack_roots_ready root_env s
      = Inr (True, s\<lparr>stackmap_record_entry := Table es, stackmap_record_entry_len := of_nat (length es)\<rparr>)"
    using build_encoded [OF fits] assms by (simp add: stack_roots_ready_def root_env_def es_def)
  have "sorted_wrt (<) (map entry_pc es)" "length es < 2 ^ 31" by (simp_all add: es_def flat)
  from frame_values_encoded [OF fits this [unfolded es_def], of 0 root_env "()"]
  have "frame_values root_env ?sec (Table es, of_nat (length es)) 0x2004 () [9]"
    unfolding pc by (simp add: flat es_def decode_location_def get_register_value_def root_env_def loc_kinds)
  from frames_values.skip [OF frames_values.frame [OF this frames_values.none]]
  have "frames_values root_env ?sec (Table es, of_nat (length es)) (frames root_env) [9]"
    by (simp add: root_env_def)
  with ready show ?thesis unfolding stack_values_def by (auto simp: root_env_def)
qed

text \<open>The sample before its first cycle: the root object is not queued yet.\<close>

definition idle_sample :: Syli_state where
  "idle_sample = (zero_state [8 \<mapsto> set_meta 1 parent_object, 16 \<mapsto> leaf_object])
     \<lparr>tracing_budget := 2000, cyclic_mem_alloc := 1, cyclic_obj_alloc := 1,
      cyclic_candidates := [], THRESHOLD_CANDIDATES_RATIO := - 1\<rparr>"

lemma idle_facts:
  "own_refs (set_meta 1 parent_object) = [17]" "obj_rc (set_meta 1 parent_object) = 1"
  "\<not> obj_flag Meta_Flags_Cyclic_Candidate (set_meta 1 parent_object)"
  "\<not> obj_flag Meta_Flags_Tracing (set_meta 1 parent_object)"
  "\<not> obj_flag Meta_Flags_Waiting_Remove (set_meta 1 parent_object)"
  "obj_marked 0 (set_meta 1 parent_object)" "obj_marked 0 leaf_object"
proof -
  show "own_refs (set_meta 1 parent_object) = [17]" using parent_facts(2) by simp
qed (simp_all add: leaf_object_def obj_bit_defs set_meta_def)

lemma idle_sample_inv: "heap_inv one_root {} idle_sample"
proof -
  have "holders {} [8 \<mapsto> set_meta 1 parent_object, 16 \<mapsto> leaf_object] = {8, 16}"
    using leaf_facts idle_facts by (auto simp: holders_def)
  then show ?thesis
    using leaf_facts idle_facts sample_untag parent_facts(1)
    by (auto simp: heap_inv_def idle_sample_def zero_state_def heap_ok_def counts_ok_def
        incoming_def rc_at_def registry_inv_def traced_def split: if_splits)
qed

lemma idle_sample_roots: "stack_values root_env idle_sample [9]" "roots_live idle_sample {9}"
  using root_env_values [of idle_sample] idle_facts sample_untag
  by (simp_all add: idle_sample_def zero_state_def roots_live_def)

theorem gc_roots_collected_witness:
  "\<exists>s'. syli_rt_collect_stack_roots root_env idle_sample = Inr s' \<and> 8 \<in> traced (gc_heap s')"
proof -
  have "is_own_field 9" by (simp add: is_own_field_def syli_ownership_is_own_ref_def tag_defs)
  with gc_roots_collected [OF idle_sample_inv idle_sample_roots(1)] idle_sample_roots(2) sample_untag(2)
  show ?thesis by auto
qed

section \<open>The start of a cycle\<close>

lemma next_mark:
  "b \<in> {0, MASK_MARKING_BIT} \<Longrightarrow> b XOR MASK_MARKING_BIT \<in> {0, MASK_MARKING_BIT} - {b}"
  by (auto simp: MASK_MARKING_BIT_def)

text \<open>When everything alive was black in the old generation, it is white in the new one, so
  greying the roots establishes the invariant.\<close>

lemma tricolour_start:
  assumes inv: "heap_inv ext {} s" and inv': "heap_inv ext {} s'" and g: "greyed (gc_heap s) (gc_heap s')"
    and old: "b \<in> {0, MASK_MARKING_BIT}" "b \<noteq> tracing_current_bit_mark s'"
    and black: "\<And>p x. gc_heap s p = Some x \<Longrightarrow> 0 < obj_rc x \<Longrightarrow> obj_marked b x"
    and roots: "\<And>p. 0 < ext p \<Longrightarrow> p \<in> traced (gc_heap s')"
  shows "tricolour ext s'"
  unfolding tricolour_def
proof (intro conjI allI impI)
  fix p
  assume "0 < ext p"
  then show "shaded s' p" using roots by (auto simp: traced_def shaded_def)
next
  fix p y v
  assume y: "gc_heap s' p = Some y" "0 < obj_rc y"
    and m: "obj_marked (tracing_current_bit_mark s') y"
  obtain x where "gc_heap s p = Some x" "obj_rc y = obj_rc x" by (rule greyedD [OF g y(1)])
  with black y(2) have x: "gc_heap s p = Some x" "obj_marked b x" by auto
  have "obj_marked b y = obj_marked b x" by (rule greyed_marked [OF g x(1) y(1) old(1)])
  with x(2) m old(2) have False by (simp add: obj_marked_def)
  then show "shaded s' (syli_ownership_untag v)" by blast
qed

text \<open>The state in which a collection that starts in \<open>s\<close> collects its roots.\<close>

definition started :: "Syli_state \<Rightarrow> Syli_state" where
  "started s = gc_next_marking_generation
      (s\<lparr>tracing_state := Tracing, cyclic_obj_alloc_at_trace := cyclic_obj_alloc s,
         current_candidate_check_index := gc_cyclic_candidate_count s\<rparr>)"

lemma started_fields:
  "gc_heap (started s) = gc_heap s" "tracing_mutations_worklist (started s) = tracing_mutations_worklist s"
  "tracing_state (started s) = Tracing" "current_candidate_check_index (started s) = gc_cyclic_candidate_count s"
  "cyclic_candidates (started s) = cyclic_candidates s" "lost_cycle_worklist (started s) = lost_cycle_worklist s"
  "tracing_current_bit_mark (started s) = tracing_current_bit_mark s XOR MASK_MARKING_BIT"
  "cyclic_obj_alloc_at_trace (started s) = cyclic_obj_alloc s" "tracing_budget (started s) = tracing_budget s"
  "releasing_waitlist (started s) = releasing_waitlist s" "releasing_worklist (started s) = releasing_worklist s"
  "releasing_state (started s) = releasing_state s" "snd (gc_settings (started s)) = snd (gc_settings s)"
  "cyclic_obj_alloc (started s) = cyclic_obj_alloc s" "tracing_worklist (started s) = tracing_worklist s"
  by (simp_all add: started_def gc_next_marking_generation_def)

lemma started_values: "stack_values env s vs \<Longrightarrow> stack_values env (started s) vs"
  by (erule stack_values_cong) (simp_all add: started_def gc_next_marking_generation_def)

lemma started_inv:
  assumes "heap_inv ext {} s"
  shows "heap_inv ext {} (started s)"
    and "tracing_current_bit_mark (started s) \<in> {0, MASK_MARKING_BIT} - {tracing_current_bit_mark s}"
proof -
  show b: "tracing_current_bit_mark (started s) \<in> {0, MASK_MARKING_BIT} - {tracing_current_bit_mark s}"
    using next_mark [OF heap_invD(6) [OF assms]] by (simp add: started_def gc_next_marking_generation_def)
  show "heap_inv ext {} (started s)" using assms b by (simp add: heap_inv_def started_fields)
qed

lemma started_roots:
  assumes inv: "heap_inv ext {} s" and vals: "stack_values env s vs"
    and roots: "{p. 0 < ext p} = syli_ownership_untag ` {v \<in> set vs. is_own_field v}"
  obtains s1 where "syli_rt_collect_stack_roots env (started s) = Inr s1" and "heap_inv ext {} s1"
    and "greyed (gc_heap s) (gc_heap s1)" and "{p. 0 < ext p} \<subseteq> traced (gc_heap s1)"
    and "\<exists>t l h w. s1 = (started s)\<lparr>stackmap_record_entry := t, stackmap_record_entry_len := l,
       gc_heap := h, tracing_worklist := w\<rparr>"
    and "traced (gc_heap s1) = {p. 0 < ext p} \<union> traced (gc_heap s)"
    and "\<forall>us. stack_values env s us \<longrightarrow> stack_values env s1 us"
proof -
  note H0 = started_inv(1) [OF inv]
  have live: "roots_live (started s) (set vs)"
    unfolding roots_live_def
  proof (intro ballI impI)
    fix v
    assume "v \<in> set vs" "is_own_field v"
    then have "0 < ext (syli_ownership_untag v)" using roots by blast
    then have "reachable ext (gc_heap (started s)) (syli_ownership_untag v)" by (rule reachable.root)
    from reachable_live [OF H0 this]
    show "\<exists>x. gc_heap (started s) (syli_ownership_untag v) = Some x \<and> \<not> obj_flag Meta_Flags_Waiting_Remove x" by blast
  qed
  show thesis
  proof (rule collect_roots_spec [OF H0 started_values [OF vals] live], goal_cases)
    case (1 s1)
    have "{p. 0 < ext p} \<subseteq> traced (gc_heap s1)" unfolding roots using 1(4) by auto
    moreover have "traced (gc_heap s1) = {p. 0 < ext p} \<union> traced (gc_heap s)"
      using 1(6) by (simp only: roots started_fields)
    moreover have "\<forall>us. stack_values env s us \<longrightarrow> stack_values env s1 us" using 1(7) started_values by blast
    moreover have "greyed (gc_heap s) (gc_heap s1)" using 1(3) by (simp add: started_fields)
    ultimately show thesis using 1(1,2,5) by (intro that)
  qed
qed

text \<open>When the last collection left nothing white, exactly the roots are grey at the start.\<close>

lemma started_exact:
  assumes inv: "heap_inv ext {} s" and g: "greyed (gc_heap s) (gc_heap s1)"
    and tr: "traced (gc_heap s1) = {p. 0 < ext p} \<union> traced (gc_heap s)" and w: "tracing_worklist s = []"
    and bit: "tracing_current_bit_mark s1 = tracing_current_bit_mark (started s)"
    and old: "\<And>p x. gc_heap s p = Some x \<Longrightarrow> obj_marked (tracing_current_bit_mark s) x"
  shows "exact_marks ext s1"
  unfolding exact_marks_def
proof (intro allI impI)
  fix p y
  assume y: "gc_heap s1 p = Some y" "obj_marked (tracing_current_bit_mark s1) y \<or> obj_flag Meta_Flags_Tracing y"
  obtain x where x: "gc_heap s p = Some x" using g y(1) by (auto elim: greyedD)
  have "obj_marked (tracing_current_bit_mark s) y = obj_marked (tracing_current_bit_mark s) x"
    using greyed_marked [OF g x y(1) heap_invD(6) [OF inv]] by simp
  with old [OF x] have "\<not> obj_marked (tracing_current_bit_mark s1) y"
    using started_inv(2) [OF inv] bit by (auto simp: obj_marked_def)
  with y have "p \<in> traced (gc_heap s1)" by (simp add: traced_def)
  moreover have "traced (gc_heap s) = {}" using heap_invD(5) [OF inv] w by simp
  ultimately have "0 < ext p" using tr by auto
  then show "reachable ext (gc_heap s1) p" by (rule reachable.root)
qed

lemma cycle_start_spec:
  assumes "heap_inv ext {} s" and "tracing_state s = Tracing_Idle" and "tracing_triggered s"
    and "0 < sint (tracing_budget s)" and "tracing_mutations_worklist s = []"
    and "\<And>p x. gc_heap s p = Some x \<Longrightarrow> 0 < obj_rc x \<Longrightarrow> obj_marked (tracing_current_bit_mark s) x"
    and "stack_values env s vs"
    and "{p. 0 < ext p} = syli_ownership_untag ` {v \<in> set vs. is_own_field v}"
  obtains s' where "tracing_round env s = Inr (Continue s')" and "marking_inv ext s'"
    and "marking_phase s' \<or> tracing_state s' = Reclaiming_Cyclic_Candidates
          \<and> tracing_worklist s' = [] \<and> tracing_mutations_worklist s' = []"
    and "tracing_mutations_worklist s' = []"
    and "tracing_current_bit_mark s' = tracing_current_bit_mark s XOR MASK_MARKING_BIT"
    and "greyed (gc_heap s) (gc_heap s')" and "current_candidate_check_index s' = gc_cyclic_candidate_count s"
    and "cyclic_candidates s' = cyclic_candidates s" and "lost_cycle_worklist s' = lost_cycle_worklist s"
    and "cyclic_obj_alloc_at_trace s' = cyclic_obj_alloc s'" and "tracing_budget s' = tracing_budget s"
    and "releasing_waitlist s' = releasing_waitlist s" and "releasing_worklist s' = releasing_worklist s"
    and "releasing_state s' = releasing_state s" and "snd (gc_settings s') = snd (gc_settings s)"
    and "cyclic_obj_alloc s' = cyclic_obj_alloc s" and "\<forall>us. stack_values env s us \<longrightarrow> stack_values env s' us"
    and "tracing_worklist s = [] \<Longrightarrow>
          (\<And>p x. gc_heap s p = Some x \<Longrightarrow> obj_marked (tracing_current_bit_mark s) x) \<Longrightarrow> exact_marks ext s'"
proof -
  obtain s1 where s1: "syli_rt_collect_stack_roots env (started s) = Inr s1" "heap_inv ext {} s1"
    "greyed (gc_heap s) (gc_heap s1)" "{p. 0 < ext p} \<subseteq> traced (gc_heap s1)"
    and same: "\<exists>t l h w. s1 = (started s)\<lparr>stackmap_record_entry := t, stackmap_record_entry_len := l,
       gc_heap := h, tracing_worklist := w\<rparr>"
    and tr: "traced (gc_heap s1) = {p. 0 < ext p} \<union> traced (gc_heap s)"
    and v1: "\<forall>us. stack_values env s us \<longrightarrow> stack_values env s1 us"
    by (rule started_roots [OF assms(1,7,8)])
  have h1: "tracing_mutations_worklist s1 = []" "tracing_state s1 = Tracing"
    "current_candidate_check_index s1 = gc_cyclic_candidate_count s"
    "cyclic_candidates s1 = cyclic_candidates s" "lost_cycle_worklist s1 = lost_cycle_worklist s"
    "tracing_current_bit_mark s1 = tracing_current_bit_mark s XOR MASK_MARKING_BIT"
    "cyclic_obj_alloc_at_trace s1 = cyclic_obj_alloc s1" "tracing_budget s1 = tracing_budget s"
    "releasing_waitlist s1 = releasing_waitlist s" "releasing_worklist s1 = releasing_worklist s"
    "releasing_state s1 = releasing_state s" "snd (gc_settings s1) = snd (gc_settings s)"
    "cyclic_obj_alloc s1 = cyclic_obj_alloc s"
    using same started_fields [of s] assms(5) by auto
  have bit: "tracing_current_bit_mark s1 = tracing_current_bit_mark (started s)" by (simp add: h1(6) started_fields)
  have "tricolour ext s1"
  proof (rule tricolour_start [OF started_inv(1) [OF assms(1)] s1(2), of "tracing_current_bit_mark s"])
    show "greyed (gc_heap (started s)) (gc_heap s1)" using s1(3) by (simp add: started_fields)
    show "tracing_current_bit_mark s \<in> {0, MASK_MARKING_BIT}" by (rule heap_invD(6) [OF assms(1)])
    show "tracing_current_bit_mark s \<noteq> tracing_current_bit_mark s1" using started_inv(2) [OF assms(1)] bit by auto
  qed (use assms(6) s1(4) in \<open>auto simp: started_fields\<close>)
  then have m1: "marking_inv ext s1" using s1(2) h1(1) by (simp add: marking_inv_def mutations_ok_def)
  let ?s' = "if tracing_worklist s1 = [] then s1\<lparr>tracing_state := Reclaiming_Cyclic_Candidates\<rparr> else s1"
  have "tracing_round env s = Inr (Continue ?s')"
    using assms(2-4) s1(1) h1(1) by (simp add: tracing_round_def Let_def flip: started_def)
  moreover have "exact_marks ext ?s'" if "tracing_worklist s = []"
    "\<And>p x. gc_heap s p = Some x \<Longrightarrow> obj_marked (tracing_current_bit_mark s) x"
    using started_exact [OF assms(1) s1(3) tr that(1) bit that(2)] by (simp add: exact_marks_def)
  moreover have "stack_values env ?s' us" if "stack_values env s us" for us
    using v1 [rule_format, OF that] by (rule stack_values_cong) simp_all
  ultimately show thesis
    using m1 h1 s1(3) by (intro that [of ?s']) (simp_all add: marking_phase_def)
qed

lemma idle_sample_ready:
  "tracing_triggered idle_sample" "tracing_state idle_sample = Tracing_Idle"
  "0 < sint (tracing_budget idle_sample)" "tracing_worklist idle_sample = []"
  "tracing_mutations_worklist idle_sample = []" "lost_cycle_worklist idle_sample = []"
  "tracing_current_bit_mark idle_sample = 0"
  "{p. 0 < one_root p} = syli_ownership_untag ` {v \<in> set [9]. is_own_field v}"
proof -
  have "is_own_field 9" by (simp add: is_own_field_def syli_ownership_is_own_ref_def tag_defs)
  then show "{p. 0 < one_root p} = syli_ownership_untag ` {v \<in> set [9]. is_own_field v}"
    using sample_untag(2) by auto
qed (simp_all add: tracing_triggered_def idle_sample_def zero_state_def gc_current_cyclic_mem_def
    gc_current_cyclic_obj_def candidates_ratio_def gc_cyclic_candidate_count_def)

lemma idle_sample_marked: "gc_heap idle_sample p = Some x \<Longrightarrow> obj_marked (tracing_current_bit_mark idle_sample) x"
  using idle_facts(6,7) by (auto simp: idle_sample_def zero_state_def split: if_splits)

text \<open>C10: when the collector is idle with empty worklists, the heuristic fires, everything
  alive carries the mark of the last generation and the stack maps locate exactly the
  references the program holds, then the first round of \<open>syli_state_gc_tracing\<close> flips the mark,
  collects the roots and leaves the collector marking (or reclaiming, when there is no root)
  with the tri-colour invariant established and all candidates still to be checked.\<close>

theorem gc_cycle_start:
  assumes "heap_inv ext {} s" and "tracing_state s = Tracing_Idle" and "tracing_triggered s"
    and "0 < sint (tracing_budget s)" and "tracing_mutations_worklist s = []"
    and "\<And>p x. gc_heap s p = Some x \<Longrightarrow> 0 < obj_rc x \<Longrightarrow> obj_marked (tracing_current_bit_mark s) x"
    and "stack_values env s vs"
    and "{p. 0 < ext p} = syli_ownership_untag ` {v \<in> set vs. is_own_field v}"
  shows "\<exists>s'. tracing_round env s = Inr (Continue s') \<and> marking_inv ext s'
     \<and> (marking_phase s' \<or> tracing_state s' = Reclaiming_Cyclic_Candidates
          \<and> tracing_worklist s' = [] \<and> tracing_mutations_worklist s' = [])
     \<and> tracing_current_bit_mark s' = tracing_current_bit_mark s XOR MASK_MARKING_BIT
     \<and> greyed (gc_heap s) (gc_heap s') \<and> current_candidate_check_index s' = gc_cyclic_candidate_count s
     \<and> cyclic_candidates s' = cyclic_candidates s \<and> lost_cycle_worklist s' = lost_cycle_worklist s"
proof (rule cycle_start_spec [OF assms(1-5) _ assms(7,8)], goal_cases)
  case (1 p) then show ?case by (rule assms(6))
next
  case (2 s') then show ?case by blast
qed

theorem gc_cycle_start_witness:
  "\<exists>s'. tracing_round root_env idle_sample = Inr (Continue s') \<and> marking_inv one_root s'
     \<and> tracing_current_bit_mark s' = MASK_MARKING_BIT"
proof -
  note start = gc_cycle_start [OF idle_sample_inv idle_sample_ready(2,1,3,5) _ idle_sample_roots(1) idle_sample_ready(8)]
  obtain s' where "tracing_round root_env idle_sample = Inr (Continue s')" "marking_inv one_root s'"
    "tracing_current_bit_mark s' = tracing_current_bit_mark idle_sample XOR MASK_MARKING_BIT"
    using start by (metis idle_sample_marked)
  then show ?thesis by (auto simp: idle_sample_ready(7))
qed

end
