(* ===== verification/GcReclaim.thy ===== *)
theory GcReclaim
  imports GcMarking
begin

text \<open>
  The second half of a collection, \<open>Reclaiming_Cyclic_Candidates\<close> of
  \<open>runtime/src/syli_state_gc_tracing.c\<close>: the scan of the candidate registry from the top
  down, the teardown of unmarked candidates, and the queue of lost objects. The invariant
  \<open>reclaim_inv\<close> and its preservation by both steps (\<open>scan_step\<close>, \<open>free_step\<close>), the loop
  (\<open>reclaim_rounds\<close>), and the theorems: nothing reachable is lost, and nothing unreachable
  survives when every cycle runs through a candidate.
\<close>

section \<open>The invariant of reclaiming\<close>

text \<open>The objects whose children have been released; their references no longer count.\<close>

definition torn :: "heap \<Rightarrow> u64 set" where
  "torn h = {p. \<exists>x. h p = Some x \<and> obj_flag Meta_Flags_Children_Released x}"

definition zeros :: "heap \<Rightarrow> u64 set" where
  "zeros h = {p. \<exists>x. h p = Some x \<and> obj_rc x = 0}"

text \<open>The lost-cycle worklist holds exactly the objects with count zero, each once, up to the
  object \<open>E\<close> being freed, and the tracing worklist is empty.\<close>

definition lost_inv :: "(u64 \<Rightarrow> nat) \<Rightarrow> u64 set \<Rightarrow> Syli_state \<Rightarrow> bool" where
  "lost_inv ext E s \<longleftrightarrow> heap_inv ext (torn (gc_heap s)) s \<and> tracing_worklist s = []
     \<and> distinct (map syli_ownership_untag (lost_cycle_worklist s))
     \<and> set (map syli_ownership_untag (lost_cycle_worklist s)) = zeros (gc_heap s) - E
     \<and> E \<subseteq> zeros (gc_heap s)"

definition lost_frame :: "u64 set \<Rightarrow> Syli_state \<Rightarrow> Syli_state \<Rightarrow> bool" where
  "lost_frame N s s' \<longleftrightarrow>
     (\<forall>p y. gc_heap s' p = Some y \<longrightarrow> (\<exists>x. gc_heap s p = Some x \<and> same_fields x y \<and> obj_rc y \<le> obj_rc x
        \<and> obj_flag MASK_MARKING_BIT y = obj_flag MASK_MARKING_BIT x
        \<and> obj_flag Meta_Flags_Cyclic_Candidate y = obj_flag Meta_Flags_Cyclic_Candidate x
        \<and> (obj_flag Meta_Flags_Waiting_Remove x \<longrightarrow> obj_flag Meta_Flags_Waiting_Remove y)
        \<and> (obj_flag Meta_Flags_Children_Released x \<longrightarrow> obj_flag Meta_Flags_Children_Released y)
        \<and> (obj_flag Meta_Flags_Children_Released y \<longrightarrow> obj_flag Meta_Flags_Children_Released x \<or> p \<in> N)))
     \<and> suffix_shrinks (cyclic_candidates s) (cyclic_candidates s')
     \<and> tracing_current_bit_mark s' = tracing_current_bit_mark s \<and> tracing_state s' = tracing_state s
     \<and> tracing_budget s' = tracing_budget s \<and> tracing_mutations_worklist s' = tracing_mutations_worklist s
     \<and> current_candidate_check_index s' = current_candidate_check_index s
     \<and> releasing_waitlist s' = releasing_waitlist s \<and> releasing_worklist s' = releasing_worklist s
     \<and> releasing_state s' = releasing_state s \<and> gc_settings s' = gc_settings s
     \<and> cyclic_obj_alloc s' = cyclic_obj_alloc s \<and> cyclic_obj_alloc_at_trace s' = cyclic_obj_alloc_at_trace s"

lemma lost_frame_refl [simp]: "lost_frame N s s"
  by (simp add: lost_frame_def)

lemma lost_frameD:
  assumes "lost_frame N s s'" and "gc_heap s' p = Some y"
  obtains x where "gc_heap s p = Some x" and "same_fields x y" and "obj_rc y \<le> obj_rc x"
    and "obj_flag MASK_MARKING_BIT y = obj_flag MASK_MARKING_BIT x"
    and "obj_flag Meta_Flags_Cyclic_Candidate y = obj_flag Meta_Flags_Cyclic_Candidate x"
    and "obj_flag Meta_Flags_Waiting_Remove x \<longrightarrow> obj_flag Meta_Flags_Waiting_Remove y"
    and "obj_flag Meta_Flags_Children_Released x \<longrightarrow> obj_flag Meta_Flags_Children_Released y"
    and "obj_flag Meta_Flags_Children_Released y \<longrightarrow> obj_flag Meta_Flags_Children_Released x \<or> p \<in> N"
  using assms that unfolding lost_frame_def by blast

lemma lost_frame_trans:
  assumes "lost_frame N s1 s2" and "lost_frame N' s2 s3"
  shows "lost_frame (N \<union> N') s1 s3"
proof -
  have "\<exists>x. gc_heap s1 p = Some x \<and> same_fields x z \<and> obj_rc z \<le> obj_rc x
        \<and> obj_flag MASK_MARKING_BIT z = obj_flag MASK_MARKING_BIT x
        \<and> obj_flag Meta_Flags_Cyclic_Candidate z = obj_flag Meta_Flags_Cyclic_Candidate x
        \<and> (obj_flag Meta_Flags_Waiting_Remove x \<longrightarrow> obj_flag Meta_Flags_Waiting_Remove z)
        \<and> (obj_flag Meta_Flags_Children_Released x \<longrightarrow> obj_flag Meta_Flags_Children_Released z)
        \<and> (obj_flag Meta_Flags_Children_Released z \<longrightarrow> obj_flag Meta_Flags_Children_Released x \<or> p \<in> N \<union> N')"
    if z: "gc_heap s3 p = Some z" for p z
  proof -
    obtain y where y: "gc_heap s2 p = Some y" and yz: "same_fields y z" "obj_rc z \<le> obj_rc y"
      "obj_flag MASK_MARKING_BIT z = obj_flag MASK_MARKING_BIT y"
      "obj_flag Meta_Flags_Cyclic_Candidate z = obj_flag Meta_Flags_Cyclic_Candidate y"
      "obj_flag Meta_Flags_Waiting_Remove y \<longrightarrow> obj_flag Meta_Flags_Waiting_Remove z"
      "obj_flag Meta_Flags_Children_Released y \<longrightarrow> obj_flag Meta_Flags_Children_Released z"
      "obj_flag Meta_Flags_Children_Released z \<longrightarrow> obj_flag Meta_Flags_Children_Released y \<or> p \<in> N'"
      by (rule lost_frameD [OF assms(2) z])
    obtain x where x: "gc_heap s1 p = Some x" and xy: "same_fields x y" "obj_rc y \<le> obj_rc x"
      "obj_flag MASK_MARKING_BIT y = obj_flag MASK_MARKING_BIT x"
      "obj_flag Meta_Flags_Cyclic_Candidate y = obj_flag Meta_Flags_Cyclic_Candidate x"
      "obj_flag Meta_Flags_Waiting_Remove x \<longrightarrow> obj_flag Meta_Flags_Waiting_Remove y"
      "obj_flag Meta_Flags_Children_Released x \<longrightarrow> obj_flag Meta_Flags_Children_Released y"
      "obj_flag Meta_Flags_Children_Released y \<longrightarrow> obj_flag Meta_Flags_Children_Released x \<or> p \<in> N"
      by (rule lost_frameD [OF assms(1) y])
    show ?thesis
      using x same_fields_trans [OF xy(1) yz(1)] xy(2-) yz(2-) by (intro exI [of _ x]) auto
  qed
  then show ?thesis using assms unfolding lost_frame_def suffix_shrinks_def by (simp only: simp_thms) blast
qed

lemma lost_frame_shrinks: "lost_frame N s s' \<Longrightarrow> heap_shrinks (gc_heap s) (gc_heap s')"
  by (rule heap_shrinksI) (auto elim: lost_frameD)

section \<open>Freeing\<close>

lemma lost_invD:
  assumes "lost_inv ext E s"
  shows "heap_inv ext (torn (gc_heap s)) s" and "tracing_worklist s = []"
    and "distinct (map syli_ownership_untag (lost_cycle_worklist s))"
    and "set (map syli_ownership_untag (lost_cycle_worklist s)) = zeros (gc_heap s) - E"
    and "E \<subseteq> zeros (gc_heap s)"
  using assms by (simp_all add: lost_inv_def)

lemma no_waiting:
  assumes "heap_inv ext D s" and "tracing_worklist s = []" and "gc_heap s p = Some x"
  shows "\<not> obj_flag Meta_Flags_Waiting_Remove x" and "\<not> obj_flag Meta_Flags_Tracing x"
proof -
  have "p \<notin> traced (gc_heap s)" using heap_invD(5) [OF assms(1)] assms(2) by simp
  with assms(3) show t: "\<not> obj_flag Meta_Flags_Tracing x" by (simp add: traced_def)
  with heap_invD(2) [OF assms(1)] assms(3) show "\<not> obj_flag Meta_Flags_Waiting_Remove x"
    unfolding counts_ok_def by blast
qed

text \<open>Freeing a torn object of count zero: it is gone, every other object is untouched.\<close>

lemma lost_free:
  assumes inv: "heap_inv ext D s" and w: "tracing_worklist s = []"
    and q: "q \<in> D" "gc_heap s q = Some x" "obj_rc x = 0"
  shows "\<exists>s'. free_released_object q s = Inr s' \<and> heap_inv ext (D - {q}) s' \<and> lost_frame {} s s'
     \<and> gc_heap s' q = None \<and> tracing_worklist s' = [] \<and> lost_cycle_worklist s' = lost_cycle_worklist s
     \<and> (\<forall>p. p \<noteq> q \<longrightarrow> (gc_heap s p = None \<longleftrightarrow> gc_heap s' p = None))
     \<and> (\<forall>p x y. p \<noteq> q \<longrightarrow> gc_heap s p = Some x \<longrightarrow> gc_heap s' p = Some y \<longrightarrow> meta_ref_count y = meta_ref_count x)"
proof -
  from free_detached_heap [OF inv q] obtain h' cs t m n where
    r: "free_released_object q s = Inr (s\<lparr>gc_heap := h', cyclic_candidates := cs,
         total_objects_freed := t, cyclic_mem_dealloc := m, cyclic_obj_dealloc := n\<rparr>)"
    and k: "heap_inv ext (D - {q}) (s\<lparr>gc_heap := h', cyclic_candidates := cs,
         total_objects_freed := t, cyclic_mem_dealloc := m, cyclic_obj_dealloc := n\<rparr>)"
    and f: "frees q (gc_heap s) h'"
    by (elim exE conjE)
  define s' where "s' = s\<lparr>gc_heap := h', cyclic_candidates := cs,
         total_objects_freed := t, cyclic_mem_dealloc := m, cyclic_obj_dealloc := n\<rparr>"
  have k': "heap_inv ext (D - {q}) s'" and w': "tracing_worklist s' = []" and h': "gc_heap s' = h'"
    using k w by (simp_all add: s'_def)
  have gone: "h' q = None"
  proof (cases "h' q")
    case (Some y)
    with no_waiting(1) [OF k' w', of q y] f show ?thesis by (auto simp: frees_def holders_def h')
  qed
  have same: "\<exists>x. gc_heap s p = Some x \<and> same_fields x y \<and> meta_ref_count y = meta_ref_count x"
    if y: "h' p = Some y" for p y
  proof -
    have "p \<noteq> q" using y gone by auto
    obtain x where x: "gc_heap s p = Some x" "same_fields x y"
      using f y unfolding frees_def heap_shrinks_def by blast
    have "\<exists>z. h' p = Some z \<and> meta_ref_count z = meta_ref_count x"
      using f \<open>p \<noteq> q\<close> x(1) unfolding frees_def by blast
    with y have "meta_ref_count y = meta_ref_count x" by simp
    with x show ?thesis by blast
  qed
  have "length (cyclic_candidates s) < 2 ^ 64" using heap_invD(3) [OF inv] by (simp add: registry_inv_def)
  then have "suffix_shrinks (cyclic_candidates s) cs" using free_released_suffix [OF r] by simp
  moreover have "\<exists>x. gc_heap s p = Some x \<and> same_fields x y \<and> obj_rc y \<le> obj_rc x
        \<and> obj_flag MASK_MARKING_BIT y = obj_flag MASK_MARKING_BIT x
        \<and> obj_flag Meta_Flags_Cyclic_Candidate y = obj_flag Meta_Flags_Cyclic_Candidate x
        \<and> (obj_flag Meta_Flags_Waiting_Remove x \<longrightarrow> obj_flag Meta_Flags_Waiting_Remove y)
        \<and> (obj_flag Meta_Flags_Children_Released x \<longrightarrow> obj_flag Meta_Flags_Children_Released y)
        \<and> (obj_flag Meta_Flags_Children_Released y \<longrightarrow> obj_flag Meta_Flags_Children_Released x \<or> p \<in> {})"
    if "h' p = Some y" for p y
    using same [OF that] by (auto simp: obj_rc_def obj_flag_def)
  ultimately have fr: "lost_frame {} s s'" by (simp add: lost_frame_def s'_def)
  have dom: "\<forall>p. p \<noteq> q \<longrightarrow> (gc_heap s p = None \<longleftrightarrow> gc_heap s' p = None)"
    unfolding h' using frees_kept [OF f] same by (metis not_None_eq)
  have meta: "\<forall>p x y. p \<noteq> q \<longrightarrow> gc_heap s p = Some x \<longrightarrow> gc_heap s' p = Some y \<longrightarrow> meta_ref_count y = meta_ref_count x"
    unfolding h' using same by fastforce
  have run: "free_released_object q s = Inr s'" using r by (simp only: s'_def)
  have gone': "gc_heap s' q = None" using gone by (simp only: h')
  have lost: "lost_cycle_worklist s' = lost_cycle_worklist s" by (simp add: s'_def)
  show ?thesis by (intro exI [of _ s'] conjI) (rule run k' fr gone' w' lost dom meta)+
qed

lemma lost_free_sets:
  assumes "gc_heap s' q = None" and "\<forall>p. p \<noteq> q \<longrightarrow> (gc_heap s p = None \<longleftrightarrow> gc_heap s' p = None)"
    and "\<forall>p x y. p \<noteq> q \<longrightarrow> gc_heap s p = Some x \<longrightarrow> gc_heap s' p = Some y \<longrightarrow> meta_ref_count y = meta_ref_count x"
  shows "torn (gc_heap s') = torn (gc_heap s) - {q}" and "zeros (gc_heap s') = zeros (gc_heap s) - {q}"
proof -
  have "(p \<in> torn (gc_heap s') \<longleftrightarrow> p \<in> torn (gc_heap s) \<and> p \<noteq> q)
      \<and> (p \<in> zeros (gc_heap s') \<longleftrightarrow> p \<in> zeros (gc_heap s) \<and> p \<noteq> q)" for p
  proof (cases "p = q \<or> gc_heap s p = None")
    case True
    then have "gc_heap s' p = None" using assms(1,2) by metis
    with True show ?thesis by (auto simp: torn_def zeros_def)
  next
    case False
    then have "p \<noteq> q" "gc_heap s p \<noteq> None" "gc_heap s' p \<noteq> None" using assms(2) by metis+
    then obtain x y where xy: "gc_heap s p = Some x" "gc_heap s' p = Some y" by blast
    with assms(3) \<open>p \<noteq> q\<close> have "meta_ref_count y = meta_ref_count x" by blast
    with xy \<open>p \<noteq> q\<close> show ?thesis by (simp add: torn_def zeros_def obj_flag_def obj_rc_def)
  qed
  then show "torn (gc_heap s') = torn (gc_heap s) - {q}" and "zeros (gc_heap s') = zeros (gc_heap s) - {q}"
    by blast+
qed

section \<open>Dropping the reference to a child\<close>

text \<open>Changing one object's meta word, other than its flags for the registry and the worklists.\<close>

lemma lost_frame_upd:
  assumes "gc_heap s c = Some x" and "same_fields x y" and "obj_rc y \<le> obj_rc x"
    and "\<forall>(f, k) \<in> meta_bits. f \<noteq> Meta_Flags_Children_Released \<longrightarrow> obj_flag f y = obj_flag f x"
    and "obj_flag Meta_Flags_Children_Released x \<longrightarrow> obj_flag Meta_Flags_Children_Released y"
    and "obj_flag Meta_Flags_Children_Released y \<longrightarrow> obj_flag Meta_Flags_Children_Released x \<or> c \<in> N"
  shows "lost_frame N s (s\<lparr>gc_heap := (gc_heap s)(c \<mapsto> y)\<rparr>)"
proof -
  have "obj_flag MASK_MARKING_BIT y = obj_flag MASK_MARKING_BIT x"
    "obj_flag Meta_Flags_Cyclic_Candidate y = obj_flag Meta_Flags_Cyclic_Candidate x"
    "obj_flag Meta_Flags_Waiting_Remove y = obj_flag Meta_Flags_Waiting_Remove x"
    using assms(4) mark_in_meta_bits candidate_bit_in waiting_bit_in flags_distinct by fastforce+
  with assms(1-3,5,6) show ?thesis by (simp add: lost_frame_def)
qed

lemma torn_upd: "torn (h(p \<mapsto> y)) = (if obj_flag Meta_Flags_Children_Released y then insert p (torn h) else torn h - {p})"
  by (auto simp: torn_def)

lemma zeros_upd: "zeros (h(p \<mapsto> y)) = (if obj_rc y = 0 then insert p (zeros h) else zeros h - {p})"
  by (auto simp: zeros_def)

text \<open>An object without references whose count is zero is freed.\<close>

lemma lost_free_childless:
  assumes inv: "heap_inv ext (torn (gc_heap s)) s" and w: "tracing_worklist s = []"
    and y: "gc_heap s c = Some y" "own_refs y = []" "obj_rc y = 0"
  shows "\<exists>s'. free_released_object c s = Inr s' \<and> heap_inv ext (torn (gc_heap s')) s' \<and> lost_frame {} s s'
     \<and> tracing_worklist s' = [] \<and> lost_cycle_worklist s' = lost_cycle_worklist s
     \<and> zeros (gc_heap s') = zeros (gc_heap s) - {c}
     \<and> (\<forall>p x. p \<noteq> c \<longrightarrow> gc_heap s p = Some x \<longrightarrow> (\<exists>y. gc_heap s' p = Some y \<and> meta_ref_count y = meta_ref_count x))"
proof -
  obtain s' where s': "free_released_object c s = Inr s'" "heap_inv ext (insert c (torn (gc_heap s)) - {c}) s'"
    "lost_frame {} s s'" "gc_heap s' c = None" "tracing_worklist s' = []"
    "lost_cycle_worklist s' = lost_cycle_worklist s"
    "\<forall>p. p \<noteq> c \<longrightarrow> (gc_heap s p = None \<longleftrightarrow> gc_heap s' p = None)"
    "\<forall>p x y. p \<noteq> c \<longrightarrow> gc_heap s p = Some x \<longrightarrow> gc_heap s' p = Some y \<longrightarrow> meta_ref_count y = meta_ref_count x"
    using lost_free [OF detach_childless [OF inv y(1,2)] w _ y(1,3)] by blast
  have sets: "torn (gc_heap s') = torn (gc_heap s) - {c}" "zeros (gc_heap s') = zeros (gc_heap s) - {c}"
    by (rule lost_free_sets [OF s'(4,7,8)])+
  have "\<exists>y. gc_heap s' p = Some y \<and> meta_ref_count y = meta_ref_count x" if p: "p \<noteq> c" "gc_heap s p = Some x" for p x
  proof -
    have "gc_heap s' p \<noteq> None" using s'(7) p by (metis option.distinct(1))
    then obtain a where a: "gc_heap s' p = Some a" by blast
    with s'(8) p have "meta_ref_count a = meta_ref_count x" by blast
    with a show ?thesis by blast
  qed
  moreover have "insert c (torn (gc_heap s)) - {c} = torn (gc_heap s')" by (auto simp: sets(1))
  ultimately show ?thesis using s'(1-3,5,6) sets(2) by auto
qed

lemma lost_child_ok:
  assumes inv: "lost_inv (\<lambda>r. ext r + (if r = syli_ownership_untag v then 1 else 0)) E s"
  shows "\<exists>s'. lost_cycle_child_decr v s = Inr s' \<and> lost_inv ext E s' \<and> lost_frame {} s s'
     \<and> (\<forall>p x. p \<noteq> syli_ownership_untag v \<longrightarrow> gc_heap s p = Some x \<longrightarrow>
          (\<exists>y. gc_heap s' p = Some y \<and> meta_ref_count y = meta_ref_count x))"
proof -
  let ?c = "syli_ownership_untag v" and ?h = "gc_heap s"
  note I = lost_invD [OF inv]
  obtain x y where low: "lowered ext (torn ?h) s ?c x y" using decr_keeps_inv [OF I(1)] by blast
  note L = loweredD [OF low] and same = lowered_same [OF low]
  define s1 where "s1 = s\<lparr>gc_heap := ?h(?c \<mapsto> y)\<rparr>"
  have h1: "gc_heap s1 = ?h(?c \<mapsto> y)" "tracing_worklist s1 = []" "lost_cycle_worklist s1 = lost_cycle_worklist s"
    using I(2) by (simp_all add: s1_def)
  have torn1: "torn (gc_heap s1) = torn ?h"
    using same(4) L(1) by (auto simp: h1 torn_upd) (auto simp: torn_def)
  have cz: "?c \<notin> zeros ?h" using L(1,2) by (simp add: zeros_def)
  have zeros1: "zeros (gc_heap s1) = (if obj_rc y = 0 then insert ?c (zeros ?h) else zeros ?h)"
    using cz by (auto simp: h1 zeros_upd)
  have u1: "heap_inv ext (torn ?h) s1" using L(8) by (simp only: s1_def)
  have fr1: "lost_frame {} s s1"
    unfolding s1_def by (rule lost_frame_upd [OF L(1,10)]) (use L(11,12) same(4) in auto)
  have kept: "\<forall>p x. p \<noteq> ?c \<longrightarrow> ?h p = Some x \<longrightarrow> (\<exists>y. gc_heap s1 p = Some y \<and> meta_ref_count y = meta_ref_count x)"
    by (simp add: h1)
  have run: "lost_cycle_child_decr v s = (if obj_rc y = 0 then
      if \<not> syli_object_has_pointers (header_word x) then free_released_object ?c s1 else lost_cycle_enqueue_free v s1
      else Inr s1)"
    using L(3,7,13,14) h1(1) same(1)
    by (simp add: lost_cycle_child_decr_def syli_object_of_obj_ptr_def s1_def deref_live Let_def cong: if_cong)
  consider (alive) "obj_rc y \<noteq> 0" | (queued) "obj_rc y = 0" "syli_object_has_pointers (header_word x)"
    | (plain) "obj_rc y = 0" "\<not> syli_object_has_pointers (header_word x)" by blast
  then show ?thesis
  proof cases
    case alive
    have "lost_inv ext E s1" using I u1 alive zeros1 by (simp add: lost_inv_def torn1 h1(2,3))
    with run alive fr1 kept show ?thesis by simp
  next
    case queued
    let ?s2 = "s1\<lparr>lost_cycle_worklist := lost_cycle_worklist s @ [v]\<rparr>"
    have "lost_cycle_child_decr v s = Inr ?s2"
      using run queued L(13,14) h1
      by (simp add: lost_cycle_enqueue_free_def syli_object_of_obj_ptr_def gc_vector_push_back_def)
    moreover have "?c \<notin> E" using I(5) cz by blast
    then have "lost_inv ext E ?s2"
      using I u1 queued(1) zeros1 cz by (simp add: lost_inv_def torn1 h1(2,3)) blast
    moreover have "lost_frame {} s ?s2" using fr1 by (simp add: lost_frame_def)
    ultimately show ?thesis using kept by (intro exI [of _ ?s2]) simp
  next
    case plain
    have "own_refs y = []" using L(5) plain(2) same(2) by (simp add: obj_ok_def)
    then obtain s2 where s2: "free_released_object ?c s1 = Inr s2" "heap_inv ext (torn (gc_heap s2)) s2"
      "lost_frame {} s1 s2" "tracing_worklist s2 = []" "lost_cycle_worklist s2 = lost_cycle_worklist s"
      "zeros (gc_heap s2) = zeros ?h"
      "\<forall>p x. p \<noteq> ?c \<longrightarrow> ?h p = Some x \<longrightarrow> (\<exists>y. gc_heap s2 p = Some y \<and> meta_ref_count y = meta_ref_count x)"
      using lost_free_childless [of ext s1 ?c y] u1 h1 torn1 plain(1) zeros1 cz by auto
    have "lost_inv ext E s2" using I s2(2,4-6) by (simp add: lost_inv_def)
    moreover have "lost_frame {} s s2" using lost_frame_trans [OF fr1 s2(3)] by simp
    ultimately show ?thesis using run plain s2(1,7) by (intro exI [of _ s2]) simp
  qed
qed

section \<open>Tearing down a member of a lost cycle\<close>

definition lost_scan ::
    "(u64 \<Rightarrow> nat) \<Rightarrow> u64 set \<Rightarrow> u64 \<Rightarrow> gc_object \<Rightarrow> Syli_state \<Rightarrow> obj_ptr list \<Rightarrow> Syli_state \<Rightarrow> bool" where
  "lost_scan ext E p x s0 rs s \<longleftrightarrow> lost_inv (\<lambda>r. ext r + refs_to r rs) E s \<and> lost_frame {} s0 s
     \<and> (\<forall>v \<in> set rs. syli_ownership_untag v \<noteq> p)
     \<and> (\<exists>y. gc_heap s p = Some y \<and> same_fields x y \<and> meta_ref_count y = meta_ref_count x)"

interpretation lost: field_visitor lost_cycle_child_decr "lost_scan ext E p x s0" p x
  for ext E p x s0
proof
  fix v rs s
  assume inv: "lost_scan ext E p x s0 (v # rs) s" and own: "is_own_field v"
  have "(\<lambda>r. ext r + refs_to r (v # rs))
      = (\<lambda>r. (ext r + refs_to r rs) + (if r = syli_ownership_untag v then 1 else 0))" by auto
  with inv have "lost_inv (\<lambda>r. (ext r + refs_to r rs)
      + (if r = syli_ownership_untag v then 1 else 0)) E s" by (simp add: lost_scan_def)
  from lost_child_ok [OF this]
  obtain s' where s': "lost_cycle_child_decr v s = Inr s'" "lost_inv (\<lambda>r. ext r + refs_to r rs) E s'"
    "lost_frame {} s s'"
    and kept: "\<forall>p x. p \<noteq> syli_ownership_untag v \<longrightarrow> gc_heap s p = Some x \<longrightarrow>
          (\<exists>y. gc_heap s' p = Some y \<and> meta_ref_count y = meta_ref_count x)" by blast
  obtain y where y: "gc_heap s p = Some y" "same_fields x y" "meta_ref_count y = meta_ref_count x"
    and np: "p \<noteq> syli_ownership_untag v" "\<forall>v \<in> set rs. syli_ownership_untag v \<noteq> p"
    using inv by (auto simp: lost_scan_def)
  obtain z where z: "gc_heap s' p = Some z" "meta_ref_count z = meta_ref_count y"
    using kept np(1) y(1) by blast
  obtain y' where y': "gc_heap s p = Some y'" "same_fields y' z" by (rule lost_frameD [OF s'(3) z(1)])
  have sf: "same_fields x z" using same_fields_trans [OF y(2)] y'(2) y'(1) y(1) by simp
  have fr: "lost_frame {} s0 s'" using lost_frame_trans [OF _ s'(3), of "{}" s0] inv by (simp add: lost_scan_def)
  have "lost_scan ext E p x s0 rs s'"
    unfolding lost_scan_def by (intro conjI exI [of _ z]) (use s'(2) fr np(2) z y(3) sf in simp_all)
  with s'(1) show "\<exists>s'. lost_cycle_child_decr v s = Inr s' \<and> lost_scan ext E p x s0 rs s'" by blast
next
  fix rs s i
  assume inv: "lost_scan ext E p x s0 rs s" and i: "i \<in> set (ref_slots (header_word x))"
  obtain y where y: "gc_heap s p = Some y" "same_fields x y" using inv by (auto simp: lost_scan_def)
  have "heap_ok (gc_heap s)" using inv by (simp add: lost_scan_def lost_inv_def heap_inv_def)
  from read_same_slot [OF this y i] show "read_field p i (gc_heap s) = Inr (obj_value x ! i)" .
qed

lemma lost_scan_budget: "lost_scan ext E p x s0 rs s \<Longrightarrow> lost_scan ext E p x s0 rs (s\<lparr>checking_budget := c\<rparr>)"
  by (simp add: lost_scan_def lost_inv_def lost_frame_def)

lemma lost_release_children_scan:
  assumes inv: "lost_scan ext E p x s0 (own_refs x) s" and p: "p \<noteq> 0" "gc_heap s p = Some y" "header_word y = header_word x"
  shows "\<exists>s'. lost_cycle_release_children p s = Inr s' \<and> lost_scan ext E p x s0 [] s'"
proof -
  obtain len where len: "syli_object_length (header_word x) = Inr len"
    by (rule syli_object_length_total)
  note start = lost_scan_budget [OF inv]
  show ?thesis
  proof (cases rule: object_shape [of "header_word x"])
    case 1
    then show ?thesis using lost.scan_mono_ref [OF start 1 len] len p
      by (simp add: lost_cycle_release_children_def Let_def deref_live)
  next
    case 2
    then obtain bits where bits: "syli_object_bitmap_bits (header_word x) = Inr bits"
      using shape_accessors(2) by blast
    from 2 lost.scan_mixed_bitmap [OF start 2 len bits] len bits shape_accessors(1) [OF 2] p show ?thesis
      by (simp add: lost_cycle_release_children_def Let_def type_predicates deref_live)
  next
    case 3
    then obtain n where n: "syli_object_order_ptr_count (header_word x) = Inr n"
      using shape_accessors(3) by blast
    from 3 lost.scan_mixed_order [OF start 3 n] n p show ?thesis
      by (simp add: lost_cycle_release_children_def Let_def type_predicates deref_live)
  next
    case 4
    then show ?thesis using inv own_refs_mono_imm [OF 4] p
      by (simp add: lost_cycle_release_children_def type_predicates deref_live)
  qed
qed

text \<open>Setting the flag and releasing the children, in \<open>gc_one_step_scan\<close> and
  \<open>gc_one_step_free_unreachable\<close>: the object is torn, nothing else is.\<close>

definition tear_down :: "u64 \<Rightarrow> Syli_state \<Rightarrow> Syli_state result" where
  "tear_down p s = and_then (on_heap (syli_object_set_flags p Meta_Flags_Children_Released) s)
     (lost_cycle_release_children p)"

lemma lost_tear:
  assumes inv: "lost_inv ext E s" and x: "gc_heap s p = Some x" "\<not> obj_flag Meta_Flags_Children_Released x"
    and loop: "\<forall>v \<in> set (own_refs x). syli_ownership_untag v \<noteq> p"
  shows "\<exists>s' y. tear_down p s = Inr s' \<and> lost_inv ext E s' \<and> lost_frame {p} s s'
     \<and> gc_heap s' p = Some y \<and> obj_rc y = obj_rc x \<and> p \<in> torn (gc_heap s') \<and> obj_local y"
proof -
  let ?h = "gc_heap s"
  note I = lost_invD [OF inv]
  have px: "p \<noteq> 0" "obj_local x" "obj_ok x" using heap_okD [OF heap_invD(1) [OF I(1)] x(1)] by auto
  have live: "\<not> obj_flag Meta_Flags_Waiting_Remove x" by (rule no_waiting(1) [OF I(1,2) x(1)])
  define y where "y = set_meta (meta_ref_count x OR Meta_Flags_Children_Released) x"
  have y: "obj_rc y = obj_rc x" "obj_flag Meta_Flags_Children_Released y"
    "\<forall>(f, k) \<in> meta_bits. f \<noteq> Meta_Flags_Children_Released \<longrightarrow> obj_flag f y = obj_flag f x"
    using obj_rc_set_flag(1) [OF released_bit_in, of x] obj_flag_set_flag(1) [OF released_bit_in, of _ _ x]
      released_bit_in by (auto simp: y_def)
  have sf: "same_fields x y" "obj_indexed y = obj_indexed x" "obj_index y = obj_index x" "obj_local y"
    "header_word y = header_word x" "own_refs y = own_refs x"
    using px(2) by (simp_all add: y_def)
  define s1 where "s1 = s\<lparr>gc_heap := ?h(p \<mapsto> y)\<rparr>"
  have h1: "gc_heap s1 = ?h(p \<mapsto> y)" "tracing_worklist s1 = []" "lost_cycle_worklist s1 = lost_cycle_worklist s"
    using I(2) by (simp_all add: s1_def)
  have set_flag: "on_heap (syli_object_set_flags p Meta_Flags_Children_Released) s = Inr s1"
    using object_ops_local(1) [of p ?h x] px x(1) by (simp add: on_heap_def s1_def y_def)
  have u: "heap_inv ext (torn ?h) s1"
    unfolding s1_def
    by (rule heap_inv_upd_same(1) [OF I(1) x(1) sf(1) _ sf(2,3), of ext]) (use y live in auto)
  have pt: "p \<notin> torn ?h" using x by (simp add: torn_def)
  have torn1: "torn (gc_heap s1) = insert p (torn ?h)" using y(2) by (simp add: h1(1) torn_upd)
  have zeros1: "zeros (gc_heap s1) = zeros ?h"
    using x(1) y(1) by (auto simp: h1(1) zeros_upd) (auto simp: zeros_def)
  have wy: "\<not> obj_flag Meta_Flags_Waiting_Remove y"
    using y(3) live waiting_bit_in flags_distinct by fastforce
  have hold: "p \<in> holders (torn ?h) (gc_heap s1)" using pt wy by (simp add: holders_def h1(1))
  have inc: "incoming (torn ?h) (gc_heap s1) r
      = refs_to r (own_refs x) + incoming (insert p (torn ?h)) (gc_heap s1) r" for r
    using incoming_detach [OF heap_invD(1) [OF u] hold, of r] sf(6) by (simp add: h1(1))
  have "heap_inv (\<lambda>r. ext r + refs_to r (own_refs x)) (torn (gc_heap s1)) s1"
    using u unfolding torn1 by (auto simp: heap_inv_def counts_ok_def inc)
  then have l1: "lost_inv (\<lambda>r. ext r + refs_to r (own_refs y)) E s1"
    using I(3-5) unfolding lost_inv_def by (simp only: h1(2,3) zeros1 sf(6) simp_thms)
  have fr1: "lost_frame {p} s s1"
    unfolding s1_def by (rule lost_frame_upd [OF x(1) sf(1)]) (use y in auto)
  have "lost_scan ext E p y s1 (own_refs y) s1"
    using l1 loop sf(6) by (simp add: lost_scan_def h1(1))
  from lost_release_children_scan [OF this px(1), of y] h1(1) obtain s2 where
    s2: "lost_cycle_release_children p s1 = Inr s2" "lost_scan ext E p y s1 [] s2" by auto
  obtain z where z: "gc_heap s2 p = Some z" "same_fields y z" "meta_ref_count z = meta_ref_count y"
    and l2: "lost_inv ext E s2" and fr2: "lost_frame {} s1 s2"
    using s2(2) by (auto simp: lost_scan_def)
  have "obj_rc z = obj_rc x" "p \<in> torn (gc_heap s2)" "obj_local z"
    using z y sf(4) same_fields_slots(1) [OF z(2)]
    by (auto simp: obj_rc_def torn_def obj_flag_def same_fields_def obj_local_def)
  moreover have "lost_frame {p} s s2" using lost_frame_trans [OF fr1 fr2] by simp
  ultimately show ?thesis using set_flag s2(1) l2 z(1) by (auto simp: tear_down_def)
qed

section \<open>The invariant of the phase\<close>

text \<open>Everything reachable is marked, a torn object is garbage, and no unmarked candidate holds a
  reference to itself.\<close>

definition reclaim_inv :: "(u64 \<Rightarrow> nat) \<Rightarrow> Syli_state \<Rightarrow> bool" where
  "reclaim_inv ext s \<longleftrightarrow> lost_inv ext {} s
     \<and> (\<forall>p. reachable ext (gc_heap s) p \<longrightarrow>
          (\<exists>x. gc_heap s p = Some x \<and> obj_marked (tracing_current_bit_mark s) x))
     \<and> (\<forall>p x. gc_heap s p = Some x \<longrightarrow> obj_flag Meta_Flags_Children_Released x \<longrightarrow>
          \<not> obj_marked (tracing_current_bit_mark s) x \<or> obj_rc x = 0)
     \<and> (\<forall>p x v. gc_heap s p = Some x \<longrightarrow> obj_flag Meta_Flags_Cyclic_Candidate x \<longrightarrow>
          \<not> obj_marked (tracing_current_bit_mark s) x \<longrightarrow> v \<in> set (own_refs x) \<longrightarrow> syli_ownership_untag v \<noteq> p)"

text \<open>The candidates from the check index on have been dealt with.\<close>

definition covered :: "Syli_state \<Rightarrow> bool" where
  "covered s \<longleftrightarrow> (\<forall>v \<in> set (drop (unat (current_candidate_check_index s)) (cyclic_candidates s)).
     \<exists>x. gc_heap s (syli_ownership_untag v) = Some x
       \<and> (obj_marked (tracing_current_bit_mark s) x \<or> obj_flag Meta_Flags_Children_Released x))"

lemma reclaim_invD:
  assumes "reclaim_inv ext s"
  shows "lost_inv ext {} s"
    and "\<And>p. reachable ext (gc_heap s) p \<Longrightarrow>
          \<exists>x. gc_heap s p = Some x \<and> obj_marked (tracing_current_bit_mark s) x"
    and "\<And>p x. gc_heap s p = Some x \<Longrightarrow> obj_flag Meta_Flags_Children_Released x \<Longrightarrow>
          \<not> obj_marked (tracing_current_bit_mark s) x \<or> obj_rc x = 0"
    and "\<And>p x v. gc_heap s p = Some x \<Longrightarrow> obj_flag Meta_Flags_Cyclic_Candidate x \<Longrightarrow>
          \<not> obj_marked (tracing_current_bit_mark s) x \<Longrightarrow> v \<in> set (own_refs x) \<Longrightarrow> syli_ownership_untag v \<noteq> p"
proof -
  show "lost_inv ext {} s" using assms by (simp add: reclaim_inv_def)
  show "\<exists>x. gc_heap s p = Some x \<and> obj_marked (tracing_current_bit_mark s) x"
    if "reachable ext (gc_heap s) p" for p using assms that unfolding reclaim_inv_def by blast
  show "\<not> obj_marked (tracing_current_bit_mark s) x \<or> obj_rc x = 0"
    if "gc_heap s p = Some x" "obj_flag Meta_Flags_Children_Released x" for p x
    using assms that unfolding reclaim_inv_def by metis
  show "syli_ownership_untag v \<noteq> p"
    if "gc_heap s p = Some x" "obj_flag Meta_Flags_Cyclic_Candidate x"
      "\<not> obj_marked (tracing_current_bit_mark s) x" "v \<in> set (own_refs x)" for p x v
    using assms that unfolding reclaim_inv_def by metis
qed

lemma lost_frame_marked:
  assumes "lost_frame N s s'" and "heap_inv ext D s" and "gc_heap s p = Some x" and "gc_heap s' p = Some y"
  shows "obj_marked (tracing_current_bit_mark s') y = obj_marked (tracing_current_bit_mark s) x"
proof -
  obtain a where a: "gc_heap s p = Some a" "obj_flag MASK_MARKING_BIT y = obj_flag MASK_MARKING_BIT a"
    by (rule lost_frameD [OF assms(1,4)])
  have b: "tracing_current_bit_mark s' = tracing_current_bit_mark s" using assms(1) by (simp add: lost_frame_def)
  have "a = x" using a(1) assms(3) by simp
  show ?thesis unfolding b by (rule obj_marked_cong [OF assms(2) a(2) [unfolded \<open>a = x\<close>]])
qed

lemma reachable_shrinks: "reachable ext h' p \<Longrightarrow> heap_shrinks h h' \<Longrightarrow> reachable ext h p"
  by (erule reachable_back) (use same_fields_refs(1) in \<open>auto dest!: heap_shrinksD\<close>)

text \<open>A step that tears down garbage keeps the invariant: reachable objects keep their counts.\<close>

lemma reclaim_step:
  assumes inv: "reclaim_inv ext s" and l: "lost_inv ext {} s'" and fr: "lost_frame N s s'"
    and new: "\<And>p y. p \<in> N \<Longrightarrow> gc_heap s' p = Some y \<Longrightarrow> \<not> obj_marked (tracing_current_bit_mark s') y \<or> obj_rc y = 0"
  shows "reclaim_inv ext s'"
    and "reachable ext (gc_heap s') p \<Longrightarrow> \<exists>y. gc_heap s' p = Some y \<and> 0 < obj_rc y
       \<and> \<not> obj_flag Meta_Flags_Children_Released y"
proof -
  note R = reclaim_invD [OF inv]
  have H: "heap_inv ext (torn (gc_heap s)) s" and H': "heap_inv ext (torn (gc_heap s')) s'" "tracing_worklist s' = []"
    using lost_invD [OF R(1)] lost_invD [OF l] by auto
  have torn: "\<not> obj_marked (tracing_current_bit_mark s') y \<or> obj_rc y = 0"
    if y: "gc_heap s' p = Some y" "obj_flag Meta_Flags_Children_Released y" for p y
  proof -
    obtain x where x: "gc_heap s p = Some x" "obj_rc y \<le> obj_rc x"
      "obj_flag Meta_Flags_Children_Released y \<longrightarrow> obj_flag Meta_Flags_Children_Released x \<or> p \<in> N"
      by (rule lost_frameD [OF fr y(1)])
    with R(3) [OF x(1)] new y lost_frame_marked [OF fr H x(1) y(1)] show ?thesis by auto
  qed
  have live: "\<exists>y. gc_heap s' p = Some y \<and> 0 < obj_rc y \<and> obj_marked (tracing_current_bit_mark s') y
      \<and> \<not> obj_flag Meta_Flags_Children_Released y"
    if rc: "0 < ext p + incoming (torn (gc_heap s')) (gc_heap s') p" and r: "reachable ext (gc_heap s) p" for p
  proof -
    obtain y where y: "gc_heap s' p = Some y" "0 < obj_rc y"
      using counts_ok_live [OF heap_invD(2) [OF H'(1)] rc] by blast
    obtain x where x: "gc_heap s p = Some x" "obj_marked (tracing_current_bit_mark s) x" using R(2) [OF r] by blast
    with lost_frame_marked [OF fr H x(1) y(1)] torn [OF y(1)] y show ?thesis by auto
  qed
  have reach: "\<exists>y. gc_heap s' p = Some y \<and> 0 < obj_rc y \<and> obj_marked (tracing_current_bit_mark s') y
      \<and> \<not> obj_flag Meta_Flags_Children_Released y" if "reachable ext (gc_heap s') p" for p
    using that
  proof induction
    case (root p)
    then show ?case using live [of p] reachable.root [of ext p] by simp
  next
    case (step q x v)
    from step.IH step.hyps(2) have nt: "\<not> obj_flag Meta_Flags_Children_Released x" by auto
    have "q \<in> holders (torn (gc_heap s')) (gc_heap s')"
      using step.hyps(2) nt no_waiting(1) [OF H' step.hyps(2)] by (simp add: holders_def torn_def)
    from incoming_pos [OF heap_invD(1) [OF H'(1)] this] step.hyps
    have "0 < incoming (torn (gc_heap s')) (gc_heap s') (syli_ownership_untag v)" by simp
    moreover have "reachable ext (gc_heap s) (syli_ownership_untag v)"
      using reachable_shrinks [OF reachable.step [OF step.hyps] lost_frame_shrinks [OF fr]] .
    ultimately show ?case using live by simp
  qed
  have loops: "syli_ownership_untag v \<noteq> p"
    if y: "gc_heap s' p = Some y" "obj_flag Meta_Flags_Cyclic_Candidate y"
      "\<not> obj_marked (tracing_current_bit_mark s') y" "v \<in> set (own_refs y)" for p y v
  proof -
    obtain x where x: "gc_heap s p = Some x" "same_fields x y"
      "obj_flag Meta_Flags_Cyclic_Candidate y = obj_flag Meta_Flags_Cyclic_Candidate x"
      by (rule lost_frameD [OF fr y(1)])
    with R(4) [OF x(1)] y lost_frame_marked [OF fr H x(1) y(1)] same_fields_refs(1) [OF x(2)]
    show ?thesis by simp
  qed
  show "reclaim_inv ext s'" unfolding reclaim_inv_def using l reach torn loops by blast
  show "\<exists>y. gc_heap s' p = Some y \<and> 0 < obj_rc y \<and> \<not> obj_flag Meta_Flags_Children_Released y"
    if "reachable ext (gc_heap s') p" using reach [OF that] by blast
qed

lemma covered_step:
  assumes l: "heap_inv ext D s" "heap_inv ext' D' s'" and fr: "lost_frame N s s'"
    and old: "\<And>v. v \<in> set (drop (unat (current_candidate_check_index s)) (cyclic_candidates s)) \<Longrightarrow>
       (\<exists>x. gc_heap s (syli_ownership_untag v) = Some x
          \<and> (obj_marked (tracing_current_bit_mark s) x \<or> obj_flag Meta_Flags_Children_Released x))
       \<or> syli_ownership_untag v \<in> torn (gc_heap s')"
  shows "covered s'"
  unfolding covered_def
proof
  fix v
  assume v: "v \<in> set (drop (unat (current_candidate_check_index s')) (cyclic_candidates s'))"
  then have "v \<in> set (cyclic_candidates s')" by (rule in_set_dropD)
  then obtain i where i: "i < length (cyclic_candidates s')" "cyclic_candidates s' ! i = v"
    unfolding in_set_conv_nth by blast
  with registry_entryD [OF heap_invD(3) [OF l(2)] i(1)] obtain y where
    y: "gc_heap s' (syli_ownership_untag v) = Some y" by (auto simp: registry_entry_def)
  obtain x where x: "gc_heap s (syli_ownership_untag v) = Some x"
    "obj_flag Meta_Flags_Children_Released x \<longrightarrow> obj_flag Meta_Flags_Children_Released y"
    by (rule lost_frameD [OF fr y])
  have "v \<in> set (drop (unat (current_candidate_check_index s)) (cyclic_candidates s))"
    using v fr by (auto simp: lost_frame_def suffix_shrinks_def)
  from old [OF this] x y lost_frame_marked [OF fr l(1) x(1) y]
  show "\<exists>x. gc_heap s' (syli_ownership_untag v) = Some x
      \<and> (obj_marked (tracing_current_bit_mark s') x \<or> obj_flag Meta_Flags_Children_Released x)"
    by (auto simp: torn_def)
qed

section \<open>The steps of the phase\<close>

definition reclaim_frame :: "Syli_state \<Rightarrow> Syli_state \<Rightarrow> bool" where
  "reclaim_frame s s' \<longleftrightarrow> heap_shrinks (gc_heap s) (gc_heap s')
     \<and> tracing_current_bit_mark s' = tracing_current_bit_mark s \<and> tracing_state s' = tracing_state s
     \<and> tracing_budget s' = tracing_budget s \<and> tracing_mutations_worklist s' = tracing_mutations_worklist s
     \<and> releasing_waitlist s' = releasing_waitlist s \<and> releasing_worklist s' = releasing_worklist s
     \<and> releasing_state s' = releasing_state s \<and> gc_settings s' = gc_settings s
     \<and> cyclic_obj_alloc s' = cyclic_obj_alloc s \<and> cyclic_obj_alloc_at_trace s' = cyclic_obj_alloc_at_trace s
     \<and> (\<forall>p x y. gc_heap s p = Some x \<longrightarrow> gc_heap s' p = Some y \<longrightarrow>
          obj_flag MASK_MARKING_BIT y = obj_flag MASK_MARKING_BIT x
          \<and> obj_flag Meta_Flags_Cyclic_Candidate y = obj_flag Meta_Flags_Cyclic_Candidate x)"

lemma lost_frame_reclaim: "lost_frame N s s' \<Longrightarrow> reclaim_frame s s'"
proof -
  assume fr: "lost_frame N s s'"
  have "obj_flag MASK_MARKING_BIT y = obj_flag MASK_MARKING_BIT x
      \<and> obj_flag Meta_Flags_Cyclic_Candidate y = obj_flag Meta_Flags_Cyclic_Candidate x"
    if "gc_heap s p = Some x" "gc_heap s' p = Some y" for p x y
    using that by (auto elim: lost_frameD [OF fr])
  with fr lost_frame_shrinks [OF fr] show ?thesis by (simp add: reclaim_frame_def lost_frame_def)
qed

lemma lost_inv_outside [simp]:
  "lost_inv ext E (s\<lparr>current_candidate_check_index := k\<rparr>) = lost_inv ext E s"
  "lost_inv ext E (s\<lparr>checking_budget := b\<rparr>) = lost_inv ext E s"
  "lost_inv ext E (s\<lparr>checking_steps := n\<rparr>) = lost_inv ext E s"
  "lost_inv ext E (s\<lparr>tracing_state := t\<rparr>) = lost_inv ext E s"
  by (simp_all add: lost_inv_def)

lemma reclaim_inv_outside [simp]:
  "reclaim_inv ext (s\<lparr>current_candidate_check_index := k\<rparr>) = reclaim_inv ext s"
  "reclaim_inv ext (s\<lparr>checking_budget := b\<rparr>) = reclaim_inv ext s"
  "reclaim_inv ext (s\<lparr>checking_steps := n\<rparr>) = reclaim_inv ext s"
  "reclaim_inv ext (s\<lparr>tracing_state := t\<rparr>) = reclaim_inv ext s"
  by (simp_all add: reclaim_inv_def)

lemma covered_outside [simp]:
  "covered (s\<lparr>checking_budget := b\<rparr>) = covered s" "covered (s\<lparr>checking_steps := n\<rparr>) = covered s"
  "covered (s\<lparr>tracing_state := t\<rparr>) = covered s"
  by (simp_all add: covered_def)

lemma drop_clamped:
  assumes "Suc k = min c (length cs)"
  shows "set (drop k cs) \<subseteq> insert (cs ! k) (set (drop c cs))"
proof -
  have "k < length cs" using assms by linarith
  then have "drop k cs = cs ! k # drop (Suc k) cs" by (rule Cons_nth_drop_Suc [symmetric])
  moreover have "set (drop (Suc k) cs) \<subseteq> set (drop c cs)" using assms by (auto simp: min_def split: if_splits)
  ultimately show ?thesis by auto
qed

text \<open>What the scan does with the candidate \<open>v\<close>.\<close>

definition check_candidate :: "obj_ptr \<Rightarrow> Syli_state \<Rightarrow> Syli_state result" where
  "check_candidate v s = (let obj = syli_ownership_untag v in
     and_then (gc_is_object_mark_tagged obj s) (\<lambda>marked.
     if marked then Inr s
     else
       and_then (syli_object_has_flags obj Meta_Flags_Children_Released (gc_heap s)) (\<lambda>released.
       and_then (when_r (\<not> released) (tear_down obj) s) (\<lambda>s.
       and_then (syli_object_refcount obj (gc_heap s)) (\<lambda>rc.
       if rc = 0 then lost_cycle_enqueue_free v s else Inr s)))))"

lemma scan_candidate:
  assumes reg: "registry_inv (gc_heap s) (cyclic_candidates s)"
    and c: "current_candidate_check_index s \<noteq> 0" and cs: "cyclic_candidates s \<noteq> []"
  obtains index k where "unat index = k" and "Suc k = min (unat (current_candidate_check_index s)) (length (cyclic_candidates s))"
    and "gc_one_step_scan s = check_candidate (cyclic_candidates s ! k) (s\<lparr>current_candidate_check_index := index\<rparr>)"
proof -
  let ?cs = "cyclic_candidates s" and ?c = "current_candidate_check_index s"
  have len: "length ?cs < 2 ^ 64" using reg by (simp add: registry_inv_def)
  have size: "unat (of_nat (length ?cs) :: u64) = length ?cs" using of_nat_last_index(2) [OF len] .
  define c1 where "c1 = (if of_nat (length ?cs) < ?c then of_nat (length ?cs) else ?c)"
  have c1: "unat c1 = min (unat ?c) (length ?cs)" "c1 \<noteq> 0"
    using size c cs by (auto simp: c1_def word_less_nat_alt unat_eq_0 [symmetric])
  have pos: "0 < unat c1" using c1(2) by (simp add: unat_gt_0)
  define k where "k = unat (c1 - 1)"
  have index: "unat (c1 - 1) = k" by (simp add: k_def)
  have k: "Suc k = min (unat ?c) (length ?cs)"
    using pos c1(1) by (simp add: k_def unat_minus_one [OF c1(2)])
  then have k_less: "k < length ?cs" by linarith
  have "gc_one_step_scan s = check_candidate (?cs ! k) (s\<lparr>current_candidate_check_index := c1 - 1\<rparr>)"
    using c1(2) index k_less
    by (cases "of_nat (length ?cs) < ?c")
      (simp_all add: gc_one_step_scan_def Let_def c1_def candidate_at_def syli_object_of_obj_ptr_def check_candidate_def
        tear_down_def when_r_def cong: if_cong)
  then show thesis by (rule that [OF index k])
qed

text \<open>A marked or torn candidate is left alone, any other one is torn down.\<close>

lemma check_candidate_ok:
  assumes inv: "reclaim_inv ext s" and w: "lost_cycle_worklist s = []"
    and x: "gc_heap s (syli_ownership_untag v) = Some x" "obj_flag Meta_Flags_Cyclic_Candidate x"
  shows "\<exists>s'. check_candidate v s = Inr s' \<and> reclaim_inv ext s' \<and> lost_frame {syli_ownership_untag v} s s'
     \<and> (obj_marked (tracing_current_bit_mark s) x \<or> obj_flag Meta_Flags_Children_Released x
        \<or> syli_ownership_untag v \<in> torn (gc_heap s'))"
proof -
  let ?p = "syli_ownership_untag v" and ?b = "tracing_current_bit_mark s"
  note R = reclaim_invD [OF inv]
  note I = lost_invD [OF R(1)]
  have px: "?p \<noteq> 0" "obj_local x" using heap_okD [OF heap_invD(1) [OF I(1)] x(1)] by auto
  have "zeros (gc_heap s) = {}" using I(4) w by simp
  then have rc: "0 < obj_rc x" using x(1) by (auto simp: zeros_def)
  have alive: "syli_object_refcount ?p (gc_heap t) = Inr (meta_ref_count y AND REFCOUNT_MASK)
      \<and> meta_ref_count y AND REFCOUNT_MASK \<noteq> 0"
    if "gc_heap t ?p = Some y" "obj_local y" "obj_rc y = obj_rc x" for t y
    using object_ops_local(4) [of ?p "gc_heap t" y] px(1) that rc by (auto simp: obj_rc_def)
  have marked: "gc_is_object_mark_tagged ?p s = Inr (obj_marked ?b x)" by (rule is_mark_tagged [OF px(1) x(1)])
  have released: "syli_object_has_flags ?p Meta_Flags_Children_Released (gc_heap s)
      = Inr (obj_flag Meta_Flags_Children_Released x)" by (rule object_ops_local(3)) (rule px(1) x(1) px(2))+
  show ?thesis
  proof (cases "obj_marked ?b x \<or> obj_flag Meta_Flags_Children_Released x")
    case True
    then have "check_candidate v s = Inr s"
      using marked released alive [OF x(1) px(2) refl] by (auto simp: check_candidate_def Let_def)
    with True inv lost_frame_refl show ?thesis by blast
  next
    case False
    then have "\<forall>u \<in> set (own_refs x). syli_ownership_untag u \<noteq> ?p" using R(4) [OF x] by blast
    from lost_tear [OF R(1) x(1) _ this] False obtain s2 y where
      s2: "tear_down ?p s = Inr s2" "lost_inv ext {} s2" "lost_frame {?p} s s2"
        "gc_heap s2 ?p = Some y" "obj_rc y = obj_rc x" "?p \<in> torn (gc_heap s2)" "obj_local y" by auto
    have "check_candidate v s = Inr s2"
      using marked released False s2(1) alive [OF s2(4,7,5)] by (simp add: check_candidate_def Let_def)
    moreover have "reclaim_inv ext s2"
    proof (rule reclaim_step(1) [OF inv s2(2,3)])
      fix q z
      assume "q \<in> {?p}" "gc_heap s2 q = Some z"
      with lost_frame_marked [OF s2(3) I(1), of ?p x z] x(1) False
      show "\<not> obj_marked (tracing_current_bit_mark s2) z \<or> obj_rc z = 0" by auto
    qed
    ultimately show ?thesis using s2(3,6) by blast
  qed
qed

lemma scan_step:
  assumes inv: "reclaim_inv ext s" and cov: "covered s" and w: "lost_cycle_worklist s = []"
    and c: "current_candidate_check_index s \<noteq> 0"
  shows "\<exists>s'. gc_one_step_scan s = Inr s' \<and> reclaim_inv ext s' \<and> covered s' \<and> reclaim_frame s s'
     \<and> unat (current_candidate_check_index s') < unat (current_candidate_check_index s)"
proof (cases "cyclic_candidates s = []")
  case True
  with c have "gc_one_step_scan s = Inr (s\<lparr>current_candidate_check_index := 0\<rparr>)"
    by (simp add: gc_one_step_scan_def Let_def word_gt_0)
  moreover have "0 < unat (current_candidate_check_index s)" using c by (simp add: unat_gt_0)
  ultimately show ?thesis using inv True
    by (intro exI [of _ "s\<lparr>current_candidate_check_index := 0\<rparr>"]) (simp add: covered_def reclaim_frame_def)
next
  case False
  let ?cs = "cyclic_candidates s"
  note R = reclaim_invD [OF inv]
  note I = lost_invD [OF R(1)]
  obtain index k where index: "unat index = k" "Suc k = min (unat (current_candidate_check_index s)) (length ?cs)"
    and run: "gc_one_step_scan s = check_candidate (?cs ! k) (s\<lparr>current_candidate_check_index := index\<rparr>)"
    by (rule scan_candidate [OF heap_invD(3) [OF I(1)] c False])
  have k: "k < length ?cs" "k < unat (current_candidate_check_index s)" using index(2) by linarith+
  define p where "p = syli_ownership_untag (?cs ! k)"
  define s1 where "s1 = s\<lparr>current_candidate_check_index := index\<rparr>"
  have s1: "gc_heap s1 = gc_heap s" "reclaim_inv ext s1" "lost_cycle_worklist s1 = []" "reclaim_frame s s1"
    "current_candidate_check_index s1 = index" "tracing_current_bit_mark s1 = tracing_current_bit_mark s"
    "cyclic_candidates s1 = ?cs"
    using inv w by (simp_all add: s1_def reclaim_frame_def)
  note H1 = lost_invD(1) [OF reclaim_invD(1) [OF s1(2)]]
  obtain x where x: "gc_heap s1 p = Some x" "obj_flag Meta_Flags_Cyclic_Candidate x"
    using registry_entryD [OF heap_invD(3) [OF I(1)] k(1)] by (auto simp: registry_entry_def p_def s1(1))
  obtain s2 where s2: "check_candidate (?cs ! k) s1 = Inr s2" "reclaim_inv ext s2" "lost_frame {p} s1 s2"
    and dealt: "obj_marked (tracing_current_bit_mark s1) x \<or> obj_flag Meta_Flags_Children_Released x \<or> p \<in> torn (gc_heap s2)"
    using check_candidate_ok [OF s1(2,3) x [unfolded p_def]] unfolding p_def by blast
  have "v = ?cs ! k \<or> v \<in> set (drop (unat (current_candidate_check_index s)) ?cs)"
    if "v \<in> set (drop (unat index) ?cs)" for v
    using that drop_clamped [OF index(2)] index(1) by auto
  then have old: "(\<exists>x. gc_heap s1 (syli_ownership_untag v) = Some x
        \<and> (obj_marked (tracing_current_bit_mark s1) x \<or> obj_flag Meta_Flags_Children_Released x))
     \<or> syli_ownership_untag v = p"
    if "v \<in> set (drop (unat (current_candidate_check_index s1)) (cyclic_candidates s1))" for v
    using that cov by (auto simp: s1 covered_def p_def)
  have "covered s2"
    by (rule covered_step [OF H1 lost_invD(1) [OF reclaim_invD(1) [OF s2(2)]] s2(3)]) (use old dealt x(1) in blast)
  moreover have "reclaim_frame s s2"
    using lost_frame_reclaim [OF s2(3)] by (simp add: reclaim_frame_def s1_def)
  moreover have "current_candidate_check_index s2 = index" using s2(3) s1(5) by (simp add: lost_frame_def)
  ultimately show ?thesis using run s2(1,2) index(1) k(2) by (simp add: s1_def)
qed

text \<open>An object without references to it does not reference itself.\<close>

lemma unreferenced_no_loop:
  assumes "lost_inv ext E s" and x: "gc_heap s p = Some x" "obj_rc x = 0" "\<not> obj_flag Meta_Flags_Children_Released x"
  shows "\<forall>v \<in> set (own_refs x). syli_ownership_untag v \<noteq> p"
proof (intro ballI notI)
  note I = lost_invD [OF assms(1)]
  fix v
  assume v: "v \<in> set (own_refs x)" and eq: "syli_ownership_untag v = p"
  have "p \<in> holders (torn (gc_heap s)) (gc_heap s)"
    using x(1,3) no_waiting(1) [OF I(1,2) x(1)] by (simp add: holders_def torn_def)
  from incoming_pos [OF heap_invD(1) [OF I(1)] this, of v] v x(1) eq
  have "0 < ext p + incoming (torn (gc_heap s)) (gc_heap s) p" by simp
  from counts_ok_live [OF heap_invD(2) [OF I(1)] this] x show False by auto
qed

text \<open>Freeing a torn object that is off the worklist.\<close>

lemma lost_free_torn:
  assumes inv: "lost_inv ext {p} s" and y: "gc_heap s p = Some y" "obj_rc y = 0" "p \<in> torn (gc_heap s)"
  shows "\<exists>s'. free_released_object p s = Inr s' \<and> lost_inv ext {} s' \<and> lost_frame {} s s' \<and> gc_heap s' p = None"
proof -
  obtain s' where s': "free_released_object p s = Inr s'" "heap_inv ext (torn (gc_heap s) - {p}) s'"
    "lost_frame {} s s'" "gc_heap s' p = None" "tracing_worklist s' = []"
    "lost_cycle_worklist s' = lost_cycle_worklist s"
    "\<forall>q. q \<noteq> p \<longrightarrow> (gc_heap s q = None \<longleftrightarrow> gc_heap s' q = None)"
    "\<forall>q x y. q \<noteq> p \<longrightarrow> gc_heap s q = Some x \<longrightarrow> gc_heap s' q = Some y \<longrightarrow> meta_ref_count y = meta_ref_count x"
    using lost_free [OF lost_invD(1,2) [OF inv] y(3,1,2)] by blast
  note sets = lost_free_sets [OF s'(4,7,8)]
  have "lost_inv ext {} s'" using lost_invD [OF inv] s'(2,5,6) by (simp add: lost_inv_def sets)
  with s'(1,3,4) show ?thesis by blast
qed

lemma free_step:
  assumes inv: "reclaim_inv ext s" and cov: "covered s" and w: "lost_cycle_worklist s \<noteq> []"
  shows "\<exists>s'. gc_one_step_free_unreachable s = Inr s' \<and> reclaim_inv ext s' \<and> covered s' \<and> reclaim_frame s s'
     \<and> current_candidate_check_index s' = current_candidate_check_index s
     \<and> dom (gc_heap s') \<subset> dom (gc_heap s)"
proof -
  note R = reclaim_invD [OF inv]
  note I = lost_invD [OF R(1)]
  define p where "p = syli_ownership_untag (last (lost_cycle_worklist s))"
  define s1 where "s1 = s\<lparr>lost_cycle_worklist := butlast (lost_cycle_worklist s)\<rparr>"
  have "p \<in> set (map syli_ownership_untag (lost_cycle_worklist s))" using w by (simp add: p_def)
  then have pz: "p \<in> zeros (gc_heap s)" using I(4) by simp
  then obtain x where x: "gc_heap s p = Some x" "obj_rc x = 0" by (auto simp: zeros_def)
  have px: "p \<noteq> 0" "obj_local x" using heap_okD [OF heap_invD(1) [OF I(1)] x(1)] by auto
  have l1: "lost_inv ext {p} s1"
    using popped_worklist [OF I(3) w] I pz by (simp add: lost_inv_def s1_def p_def)
  have fr1: "lost_frame {} s s1" by (simp add: lost_frame_def s1_def)
  have h1: "gc_heap s1 = gc_heap s" by (simp add: s1_def)
  have released: "syli_object_has_flags p Meta_Flags_Children_Released (gc_heap s1)
      = Inr (obj_flag Meta_Flags_Children_Released x)"
    using object_ops_local(3) [of p "gc_heap s" x] px x(1) h1 by simp
  obtain s2 y where tear: "when_r (\<not> obj_flag Meta_Flags_Children_Released x) (tear_down p) s1 = Inr s2"
    and l2: "lost_inv ext {p} s2" and fr2: "lost_frame {p} s1 s2"
    and y: "gc_heap s2 p = Some y" "obj_rc y = 0" "p \<in> torn (gc_heap s2)"
  proof (cases "obj_flag Meta_Flags_Children_Released x")
    case True
    then have "p \<in> torn (gc_heap s1)" using x(1) by (simp add: torn_def h1)
    then show thesis using that [of s1 x] True l1 x h1 by simp
  next
    case False
    from lost_tear [OF l1, of p x] unreferenced_no_loop [OF R(1) x False] False x h1 that show thesis by auto
  qed
  obtain s3 where s3: "free_released_object p s2 = Inr s3" "lost_inv ext {} s3" "lost_frame {} s2 s3" "gc_heap s3 p = None"
    using lost_free_torn [OF l2 y] by blast
  have fr3: "lost_frame {p} s s3"
    using lost_frame_trans [OF lost_frame_trans [OF fr1 fr2] s3(3)] by simp
  have run: "gc_one_step_free_unreachable s = Inr s3"
    using w released [unfolded h1] tear s3(1)
    by (simp add: gc_one_step_free_unreachable_def tear_down_def when_r_def gc_vector_pop_back_def syli_object_of_obj_ptr_def
        flip: p_def s1_def split: if_splits)
  have "reclaim_inv ext s3"
    by (rule reclaim_step(1) [OF inv s3(2) fr3]) (use s3(4) in auto)
  moreover have "covered s3"
    by (rule covered_step [OF I(1) lost_invD(1) [OF s3(2)] fr3]) (use cov in \<open>auto simp: covered_def\<close>)
  moreover have "dom (gc_heap s3) \<subset> dom (gc_heap s)"
    using heap_shrinks_dom [OF lost_frame_shrinks [OF fr3]] x(1) s3(4) by blast
  moreover have "current_candidate_check_index s3 = current_candidate_check_index s"
    using fr3 by (simp add: lost_frame_def)
  ultimately show ?thesis using run lost_frame_reclaim [OF fr3] by blast
qed

section \<open>The rounds of the phase\<close>

definition reclaim_measure :: "Syli_state \<Rightarrow> nat" where
  "reclaim_measure s = card (dom (gc_heap s)) + unat (current_candidate_check_index s)"

definition reclaim_outer :: "Syli_state \<Rightarrow> Syli_state \<Rightarrow> bool" where
  "reclaim_outer s s' \<longleftrightarrow> reclaim_frame s (s'\<lparr>tracing_state := tracing_state s\<rparr>)"

lemma reclaim_frame_trans: "reclaim_frame s1 s2 \<Longrightarrow> reclaim_frame s2 s3 \<Longrightarrow> reclaim_frame s1 s3"
proof -
  assume a: "reclaim_frame s1 s2" and b: "reclaim_frame s2 s3"
  have "obj_flag MASK_MARKING_BIT z = obj_flag MASK_MARKING_BIT x
      \<and> obj_flag Meta_Flags_Cyclic_Candidate z = obj_flag Meta_Flags_Cyclic_Candidate x"
    if x: "gc_heap s1 p = Some x" and z: "gc_heap s3 p = Some z" for p x z
  proof -
    obtain y where "gc_heap s2 p = Some y"
      using b heap_shrinksD z unfolding reclaim_frame_def by blast
    with a b x z show ?thesis unfolding reclaim_frame_def by metis
  qed
  moreover have "heap_shrinks (gc_heap s1) (gc_heap s3)"
    using a b heap_shrinks_trans unfolding reclaim_frame_def by blast
  ultimately show ?thesis using a b unfolding reclaim_frame_def by simp
qed

lemma reclaim_outer_trans: "reclaim_outer s1 s2 \<Longrightarrow> reclaim_outer s2 s3 \<Longrightarrow> reclaim_outer s1 s3"
proof -
  assume a: "reclaim_outer s1 s2" and b: "reclaim_outer s2 s3"
  have "reclaim_frame (s2\<lparr>tracing_state := tracing_state s1\<rparr>) (s3\<lparr>tracing_state := tracing_state s1\<rparr>)"
    using b by (simp add: reclaim_outer_def reclaim_frame_def)
  with a show ?thesis unfolding reclaim_outer_def by (rule reclaim_frame_trans)
qed

lemma reclaim_round:
  assumes inv: "reclaim_inv ext s" and cov: "covered s"
    and st: "tracing_state s = Reclaiming_Cyclic_Candidates" and budget: "0 < sint (tracing_budget s)"
  shows "\<exists>s'. tracing_round env s = Inr (Continue s') \<and> reclaim_inv ext s' \<and> covered s' \<and> reclaim_outer s s'
     \<and> (tracing_state s' = Reclaiming_Cyclic_Candidates \<and> reclaim_measure s' < reclaim_measure s
        \<or> tracing_state s' = Tracing_Idle \<and> lost_cycle_worklist s' = [] \<and> current_candidate_check_index s' = 0)"
proof -
  define s1 where "s1 = s\<lparr>checking_budget := checking_budget s - 1\<rparr>"
  have s1: "reclaim_inv ext s1" "covered s1" "tracing_state s1 = Reclaiming_Cyclic_Candidates"
    "gc_heap s1 = gc_heap s" "current_candidate_check_index s1 = current_candidate_check_index s"
    "lost_cycle_worklist s1 = lost_cycle_worklist s"
    using inv cov st by (simp_all add: s1_def)
  have fin: "finite (dom (gc_heap s))"
    using heap_invD(1) [OF lost_invD(1) [OF reclaim_invD(1) [OF inv]]] by (simp add: heap_ok_def)
  have outer: "reclaim_outer s (t\<lparr>checking_steps := n\<rparr>)" if "reclaim_frame s1 t" for t n
    using that by (simp add: reclaim_outer_def reclaim_frame_def s1_def)
  have state: "tracing_state t = Reclaiming_Cyclic_Candidates" if "reclaim_frame s1 t" for t
    using that s1(3) by (simp add: reclaim_frame_def)
  note round = tracing_round_def
  consider "lost_cycle_worklist s \<noteq> []"
    | "lost_cycle_worklist s = []" "current_candidate_check_index s = 0"
    | "lost_cycle_worklist s = []" "current_candidate_check_index s \<noteq> 0" by blast
  then show ?thesis
  proof cases
    case 1
    with free_step [OF s1(1,2)] s1(6) obtain t where t: "gc_one_step_free_unreachable s1 = Inr t"
      "reclaim_inv ext t" "covered t" "reclaim_frame s1 t"
      "current_candidate_check_index t = current_candidate_check_index s" "dom (gc_heap t) \<subset> dom (gc_heap s)"
      using s1(4,5) by auto
    have "tracing_round env s = Inr (Continue (t\<lparr>checking_steps := checking_steps t + 1\<rparr>))"
      using budget st 1 t(1) s1(6) by (simp add: round Let_def flip: s1_def)
    then show ?thesis using t outer [OF t(4)] state [OF t(4)] psubset_card_mono [OF fin t(6)]
      by (intro exI [of _ "t\<lparr>checking_steps := checking_steps t + 1\<rparr>"]) (simp add: reclaim_measure_def)
  next
    case 2
    let ?t = "s1\<lparr>tracing_state := Tracing_Idle, checking_steps := checking_steps s1 + 1\<rparr>"
    have "tracing_round env s = Inr (Continue ?t)"
      using budget st 2 s1(5,6) by (simp add: round Let_def flip: s1_def)
    moreover have "reclaim_outer s ?t" by (simp add: reclaim_outer_def reclaim_frame_def s1_def)
    ultimately show ?thesis using s1 2 by (intro exI [of _ ?t]) simp
  next
    case 3
    with scan_step [OF s1(1,2)] s1(5,6) obtain t where t: "gc_one_step_scan s1 = Inr t"
      "reclaim_inv ext t" "covered t" "reclaim_frame s1 t"
      "unat (current_candidate_check_index t) < unat (current_candidate_check_index s)"
      by auto
    have "dom (gc_heap t) \<subseteq> dom (gc_heap s)"
      using t(4) s1(4) heap_shrinks_dom by (simp add: reclaim_frame_def)
    then have "card (dom (gc_heap t)) \<le> card (dom (gc_heap s))" by (rule card_mono [OF fin])
    moreover have "tracing_round env s = Inr (Continue (t\<lparr>checking_steps := checking_steps t + 1\<rparr>))"
      using budget st 3 t(1) s1(5,6) by (simp add: round Let_def flip: s1_def)
    ultimately show ?thesis using t outer [OF t(4)] state [OF t(4)]
      by (intro exI [of _ "t\<lparr>checking_steps := checking_steps t + 1\<rparr>"]) (simp add: reclaim_measure_def)
  qed
qed

lemma reclaim_rounds:
  assumes "reclaim_inv ext s" and "covered s" and "tracing_state s = Reclaiming_Cyclic_Candidates"
    and "0 < sint (tracing_budget s)"
  shows "\<exists>s'. tracing_rounds env s s' \<and> reclaim_inv ext s' \<and> covered s' \<and> reclaim_outer s s'
     \<and> tracing_state s' = Tracing_Idle \<and> lost_cycle_worklist s' = [] \<and> current_candidate_check_index s' = 0"
  using assms
proof (induction s rule: measure_induct_rule [where f = reclaim_measure])
  case (less s)
  obtain s1 where s1: "tracing_round env s = Inr (Continue s1)" "reclaim_inv ext s1" "covered s1" "reclaim_outer s s1"
    and ph: "tracing_state s1 = Reclaiming_Cyclic_Candidates \<and> reclaim_measure s1 < reclaim_measure s
        \<or> tracing_state s1 = Tracing_Idle \<and> lost_cycle_worklist s1 = [] \<and> current_candidate_check_index s1 = 0"
    using reclaim_round [OF less.prems] by blast
  show ?case
  proof (cases "tracing_state s1 = Tracing_Idle")
    case True
    with ph s1 tracing_rounds.round [OF s1(1) tracing_rounds.stop] show ?thesis by auto
  next
    case False
    with ph have "tracing_state s1 = Reclaiming_Cyclic_Candidates" "reclaim_measure s1 < reclaim_measure s" by auto
    moreover have "0 < sint (tracing_budget s1)"
      using less.prems(4) s1(4) by (simp add: reclaim_outer_def reclaim_frame_def)
    ultimately obtain s2 where "tracing_rounds env s1 s2" "reclaim_inv ext s2" "covered s2" "reclaim_outer s1 s2"
     "tracing_state s2 = Tracing_Idle" "lost_cycle_worklist s2 = []" "current_candidate_check_index s2 = 0"
      using less.IH [of s1] s1(2,3) by blast
    with tracing_rounds.round [OF s1(1)] reclaim_outer_trans [OF s1(4)] show ?thesis by blast
  qed
qed

text \<open>The candidate flag says whether an object has an entry in the registry.\<close>

lemma registry_flag_iff:
  assumes "registry_inv h cs" and "h p = Some x"
  shows "obj_flag Meta_Flags_Cyclic_Candidate x \<longleftrightarrow> p \<in> syli_ownership_untag ` set cs"
proof
  assume f: "obj_flag Meta_Flags_Cyclic_Candidate x"
  from registry_position(3,4) [OF assms f] show "p \<in> syli_ownership_untag ` set cs" by (metis image_eqI nth_mem)
next
  assume "p \<in> syli_ownership_untag ` set cs"
  then obtain i where "i < length cs" "syli_ownership_untag (cs ! i) = p" by (auto simp: in_set_conv_nth)
  with registry_entryD [OF assms(1), of i] assms(2) show "obj_flag Meta_Flags_Cyclic_Candidate x"
    by (simp add: registry_entry_def)
qed

section \<open>What reclaiming keeps and what it leaves\<close>

lemma reclaim_live:
  assumes "reclaim_inv ext s" and "reachable ext (gc_heap s) p"
  shows "\<exists>y. gc_heap s p = Some y \<and> 0 < obj_rc y \<and> \<not> obj_flag Meta_Flags_Children_Released y"
  by (rule reclaim_step(2) [OF assms(1) reclaim_invD(1) [OF assms(1)] lost_frame_refl [of "{}"] _ assms(2)]) simp

text \<open>Reachability survives every step between two states of the phase.\<close>

lemma reclaim_reachable:
  assumes "reachable ext (gc_heap s) p" and inv: "reclaim_inv ext s'"
    and "heap_shrinks (gc_heap s) (gc_heap s')"
  shows "reachable ext (gc_heap s') p"
  using assms(1)
proof induction
  case (root p)
  then show ?case by (rule reachable.root)
next
  case (step q x v)
  obtain y where y: "gc_heap s' q = Some y" using reclaim_live [OF inv step.IH] by blast
  with heap_shrinksD [OF assms(3) y] step.hyps(2) same_fields_refs(1) [of x y] have "own_refs y = own_refs x"
    by auto
  with reachable.step [OF step.IH y] step.hyps(3) show ?case by simp
qed

lemma reclaim_shrinks: "reclaim_outer s s' \<Longrightarrow> heap_shrinks (gc_heap s) (gc_heap s')"
  by (simp add: reclaim_outer_def reclaim_frame_def)

text \<open>No object of count zero is left when the phase ends.\<close>

lemma reclaim_alive:
  assumes "reclaim_inv ext s" and "lost_cycle_worklist s = []" and "gc_heap s p = Some x"
  shows "0 < obj_rc x"
proof -
  have "zeros (gc_heap s) = {}" using lost_invD(4) [OF reclaim_invD(1) [OF assms(1)]] assms(2) by simp
  with assms(3) show ?thesis by (auto simp: zeros_def)
qed

lemma reclaim_reachable_set:
  assumes "reclaim_inv ext s" and "reclaim_inv ext s'" and "heap_shrinks (gc_heap s) (gc_heap s')"
  shows "reachable ext (gc_heap s') p \<longleftrightarrow> reachable ext (gc_heap s) p"
  using reclaim_reachable [OF _ assms(2,3)] reachable_shrinks [OF _ assms(3)] by blast

text \<open>When references lead from marked objects to marked ones and every cycle among the others contains a
  candidate, nothing but marked objects is left.\<close>

lemma reclaim_old:
  assumes inv: "reclaim_inv ext s" and out: "reclaim_outer s s'" and y: "gc_heap s' p = Some y"
  obtains x where "gc_heap s p = Some x" and "same_fields x y"
    and "obj_marked (tracing_current_bit_mark s') y = obj_marked (tracing_current_bit_mark s) x"
    and "obj_flag Meta_Flags_Cyclic_Candidate y = obj_flag Meta_Flags_Cyclic_Candidate x"
proof -
  obtain x where x: "gc_heap s p = Some x" "same_fields x y" using heap_shrinksD [OF reclaim_shrinks [OF out] y] by blast
  have f: "obj_flag MASK_MARKING_BIT y = obj_flag MASK_MARKING_BIT x"
    "obj_flag Meta_Flags_Cyclic_Candidate y = obj_flag Meta_Flags_Cyclic_Candidate x"
    "tracing_current_bit_mark s' = tracing_current_bit_mark s"
    using out x(1) y by (simp_all add: reclaim_outer_def reclaim_frame_def)
  with obj_marked_cong [OF lost_invD(1) [OF reclaim_invD(1) [OF inv]] f(1)] x show thesis by (intro that) auto
qed

lemma reclaim_left:
  assumes inv: "reclaim_inv ext s" "reclaim_inv ext s'" and out: "reclaim_outer s s'"
    and fin: "covered s'" "lost_cycle_worklist s' = []" "current_candidate_check_index s' = 0"
    and closed: "\<And>q x v. gc_heap s q = Some x \<Longrightarrow> obj_marked (tracing_current_bit_mark s) x \<Longrightarrow> v \<in> set (own_refs x)
       \<Longrightarrow> \<exists>y. gc_heap s (syli_ownership_untag v) = Some y \<and> obj_marked (tracing_current_bit_mark s) y"
    and rank: "\<And>q x v. gc_heap s q = Some x \<Longrightarrow> \<not> obj_marked (tracing_current_bit_mark s) x \<Longrightarrow>
       \<not> obj_flag Meta_Flags_Cyclic_Candidate x \<Longrightarrow> v \<in> set (own_refs x) \<Longrightarrow>
       rank (syli_ownership_untag v) < (rank q :: nat)"
    and left: "gc_heap s' p = Some y"
  shows "obj_marked (tracing_current_bit_mark s') y"
proof -
  define R where "R = (\<lambda>p. \<exists>x. gc_heap s p = Some x \<and> obj_marked (tracing_current_bit_mark s) x)"
  note H' = lost_invD(1) [OF reclaim_invD(1) [OF inv(2)]]
  have "R p"
  proof (rule held_closed [OF heap_invD(1,2) [OF H'], where rank = rank])
    show "R q" if "0 < ext q" for q
      using reclaim_invD(2) [OF inv(1) reachable.root [of ext q]] that by (simp add: R_def)
    show "0 < rc_at (gc_heap s') q" if "q \<in> holders (torn (gc_heap s')) (gc_heap s')" for q
      using that reclaim_alive [OF inv(2) fin(2)] by (auto simp: holders_def rc_at_def)
    show "0 < rc_at (gc_heap s') p" using left reclaim_alive [OF inv(2) fin(2) left] by (simp add: rc_at_def)
  next
    fix q z v
    assume z: "gc_heap s' q = Some z" and v: "v \<in> set (own_refs z)" and q: "R q"
    obtain x where "gc_heap s q = Some x" "same_fields x z" by (rule reclaim_old [OF inv(1) out z])
    with closed [of q x v] q v same_fields_refs(1) [of x z] show "R (syli_ownership_untag v)" by (auto simp: R_def)
  next
    fix q z v
    assume q: "q \<in> holders (torn (gc_heap s')) (gc_heap s')" and z: "gc_heap s' q = Some z"
      and v: "v \<in> set (own_refs z)"
    obtain x where x: "gc_heap s q = Some x" "same_fields x z"
      "obj_marked (tracing_current_bit_mark s') z = obj_marked (tracing_current_bit_mark s) x"
      "obj_flag Meta_Flags_Cyclic_Candidate z = obj_flag Meta_Flags_Cyclic_Candidate x"
      by (rule reclaim_old [OF inv(1) out z])
    show "R q \<or> rank (syli_ownership_untag v) < rank q"
    proof (cases "obj_marked (tracing_current_bit_mark s) x")
      case True
      with x(1) show ?thesis by (simp add: R_def)
    next
      case False
      have "\<not> obj_flag Meta_Flags_Cyclic_Candidate x"
      proof
        assume "obj_flag Meta_Flags_Cyclic_Candidate x"
        with x(4) have "obj_flag Meta_Flags_Cyclic_Candidate z" by simp
        from registry_position(3,4) [OF heap_invD(3) [OF H'] z this] obtain c where
          c: "c \<in> set (cyclic_candidates s')" "syli_ownership_untag c = q" using nth_mem by blast
        with fin(1,3) z have "obj_marked (tracing_current_bit_mark s') z
            \<or> obj_flag Meta_Flags_Children_Released z" by (auto simp: covered_def)
        with False x(3) q z show False by (auto simp: holders_def torn_def)
      qed
      with rank [OF x(1) False] v same_fields_refs(1) [OF x(2)] show ?thesis by simp
    qed
  qed
  then obtain x where "gc_heap s p = Some x" "obj_marked (tracing_current_bit_mark s) x" by (auto simp: R_def)
  with reclaim_old [OF inv(1) out left] show ?thesis by (metis option.inject)
qed

text \<open>When in addition no garbage is marked, exactly the reachable objects are left.\<close>

lemma reclaim_complete:
  assumes inv: "reclaim_inv ext s" "reclaim_inv ext s'" and out: "reclaim_outer s s'"
    and fin: "covered s'" "lost_cycle_worklist s' = []" "current_candidate_check_index s' = 0"
    and exact: "\<And>p x. gc_heap s p = Some x \<Longrightarrow> obj_marked (tracing_current_bit_mark s) x \<Longrightarrow>
       reachable ext (gc_heap s) p"
    and rank: "\<And>q x v. gc_heap s q = Some x \<Longrightarrow> \<not> obj_marked (tracing_current_bit_mark s) x \<Longrightarrow>
       \<not> obj_flag Meta_Flags_Cyclic_Candidate x \<Longrightarrow> v \<in> set (own_refs x) \<Longrightarrow>
       rank (syli_ownership_untag v) < (rank q :: nat)"
  shows "dom (gc_heap s') = {p. reachable ext (gc_heap s) p}"
proof
  note shr = reclaim_shrinks [OF out]
  have closed: "\<exists>y. gc_heap s (syli_ownership_untag v) = Some y \<and> obj_marked (tracing_current_bit_mark s) y"
    if "gc_heap s q = Some x" "obj_marked (tracing_current_bit_mark s) x" "v \<in> set (own_refs x)" for q x v
    by (rule reclaim_invD(2) [OF inv(1) reachable.step [OF exact [OF that(1,2)] that(1,3)]])
  show "dom (gc_heap s') \<subseteq> {p. reachable ext (gc_heap s) p}"
  proof
    fix p
    assume "p \<in> dom (gc_heap s')"
    then obtain y where y: "gc_heap s' p = Some y" by blast
    have "obj_marked (tracing_current_bit_mark s') y"
      by (rule reclaim_left [OF inv out fin, where rank = rank]) (use closed rank y in blast)+
    with reclaim_old [OF inv(1) out y] exact show "p \<in> {p. reachable ext (gc_heap s) p}" by (metis mem_Collect_eq)
  qed
  show "{p. reachable ext (gc_heap s) p} \<subseteq> dom (gc_heap s')"
    using reclaim_reachable [OF _ inv(2) shr] reclaim_invD(2) [OF inv(2)] by blast
qed

text \<open>Reclaiming starts when marking ends with nothing torn or of count zero.\<close>

definition no_candidate_loop :: "Syli_state \<Rightarrow> bool" where
  "no_candidate_loop s \<longleftrightarrow> (\<forall>p x v. gc_heap s p = Some x \<longrightarrow> obj_flag Meta_Flags_Cyclic_Candidate x \<longrightarrow>
     \<not> obj_marked (tracing_current_bit_mark s) x \<longrightarrow> v \<in> set (own_refs x) \<longrightarrow> syli_ownership_untag v \<noteq> p)"

lemma reclaim_start:
  assumes inv: "marking_inv ext s" and idle: "tracing_worklist s = []" "tracing_mutations_worklist s = []"
    "lost_cycle_worklist s = []" and clean: "torn (gc_heap s) = {}" "zeros (gc_heap s) = {}"
    and loops: "no_candidate_loop s"
  shows "reclaim_inv ext s"
proof -
  have H: "heap_inv ext {} s" "tricolour ext s" using inv by (simp_all add: marking_inv_def)
  have "lost_inv ext {} s" using H(1) idle clean by (simp add: lost_inv_def)
  moreover have "\<not> obj_flag Meta_Flags_Children_Released x" if "gc_heap s p = Some x" for p x
    using clean(1) that by (auto simp: torn_def)
  ultimately show ?thesis
    using tricolour_done [OF H idle(1,2)] loops unfolding reclaim_inv_def no_candidate_loop_def by blast
qed

lemma reclaim_call:
  assumes "reclaim_inv ext s" and "covered s" and "tracing_state s = Reclaiming_Cyclic_Candidates"
    and "0 < sint (tracing_budget s)" and "cyclic_obj_alloc_at_trace s = cyclic_obj_alloc s"
  obtains s' where "syli_state_gc_tracing env s = Some (Inr s')" and "reclaim_inv ext s'" and "covered s'"
    and "reclaim_outer s s'" and "tracing_state s' = Tracing_Idle" and "lost_cycle_worklist s' = []"
    and "current_candidate_check_index s' = 0"
proof -
  obtain s' where s': "tracing_rounds env s s'" "reclaim_inv ext s'" "covered s'" "reclaim_outer s s'"
    "tracing_state s' = Tracing_Idle" "lost_cycle_worklist s' = []" "current_candidate_check_index s' = 0"
    using reclaim_rounds [OF assms(1-4)] by blast
  have "\<not> tracing_triggered s'"
    using s'(4) assms(5) by (simp add: tracing_triggered_def reclaim_outer_def reclaim_frame_def)
  then have "syli_state_gc_tracing env s' = Some (Inr s')"
    using s'(5) by (simp add: syli_state_gc_tracing_def run_loop_Return tracing_round_def)
  with tracing_rounds_call [OF s'(1)] s' show thesis by (intro that) simp_all
qed

section \<open>Properties\<close>

text \<open>C6: with everything reachable marked, no unmarked candidate referencing itself, the candidates from the check index on
  dealt with, no cyclic object allocated since the trace began and budget left, reclaiming returns in the idle state with
  its queue empty, touches no freed memory, keeps every reachable object with its contents
  and a positive count, and leaves no object of count zero. (The case of a
  candidate that references itself is \<open>gc_reclaiming_self_loop\<close>.)\<close>

theorem gc_reclaiming_safe:
  assumes "reclaim_inv ext s" and "covered s" and "tracing_state s = Reclaiming_Cyclic_Candidates"
    and "0 < sint (tracing_budget s)" and "cyclic_obj_alloc_at_trace s = cyclic_obj_alloc s"
  shows "\<exists>s'. syli_state_gc_tracing env s = Some (Inr s') \<and> tracing_state s' = Tracing_Idle
     \<and> lost_cycle_worklist s' = [] \<and> reclaim_inv ext s'
     \<and> (\<forall>p x. reachable ext (gc_heap s) p \<longrightarrow> gc_heap s p = Some x \<longrightarrow>
          (\<exists>y. gc_heap s' p = Some y \<and> same_fields x y \<and> 0 < obj_rc y
             \<and> \<not> obj_flag Meta_Flags_Children_Released y))
     \<and> (\<forall>p y. gc_heap s' p = Some y \<longrightarrow> 0 < obj_rc y)"
proof -
  obtain s' where s': "syli_state_gc_tracing env s = Some (Inr s')" "reclaim_inv ext s'"
    "reclaim_outer s s'" "tracing_state s' = Tracing_Idle" "lost_cycle_worklist s' = []"
    by (rule reclaim_call [OF assms])
  note shr = reclaim_shrinks [OF s'(3)]
  have "\<exists>y. gc_heap s' p = Some y \<and> same_fields x y \<and> 0 < obj_rc y
             \<and> \<not> obj_flag Meta_Flags_Children_Released y"
    if r: "reachable ext (gc_heap s) p" and x: "gc_heap s p = Some x" for p x
  proof -
    obtain y where y: "gc_heap s' p = Some y" "0 < obj_rc y" "\<not> obj_flag Meta_Flags_Children_Released y"
      using reclaim_live [OF s'(2) reclaim_reachable [OF r s'(2) shr]] by blast
    with heap_shrinksD [OF shr y(1)] x show ?thesis by auto
  qed
  with s' reclaim_alive [OF s'(2,5)] show ?thesis by blast
qed

text \<open>C7: when in addition to the conditions of \<open>gc_reclaiming_safe\<close> only reachable objects are marked, and the references of the unmarked objects that are
  not candidates go down in some order, so that every cycle of garbage runs through a
  registered candidate (which does not reference itself), reclaiming leaves exactly the reachable objects.\<close>

theorem gc_reclaiming_complete:
  assumes "reclaim_inv ext s" and "covered s" and "tracing_state s = Reclaiming_Cyclic_Candidates"
    and "0 < sint (tracing_budget s)" and "cyclic_obj_alloc_at_trace s = cyclic_obj_alloc s"
    and "\<And>p x. gc_heap s p = Some x \<Longrightarrow> obj_marked (tracing_current_bit_mark s) x \<Longrightarrow>
           reachable ext (gc_heap s) p"
    and "\<And>q x v. gc_heap s q = Some x \<Longrightarrow> \<not> obj_marked (tracing_current_bit_mark s) x \<Longrightarrow>
           \<not> obj_flag Meta_Flags_Cyclic_Candidate x \<Longrightarrow> v \<in> set (own_refs x) \<Longrightarrow>
           rank (syli_ownership_untag v) < (rank q :: nat)"
  shows "\<exists>s'. syli_state_gc_tracing env s = Some (Inr s')
     \<and> dom (gc_heap s') = {p. reachable ext (gc_heap s) p}
     \<and> dom (gc_heap s') = {p. reachable ext (gc_heap s') p}"
proof -
  obtain s' where s': "syli_state_gc_tracing env s = Some (Inr s')" "reclaim_inv ext s'" "covered s'"
    "reclaim_outer s s'" "lost_cycle_worklist s' = []" "current_candidate_check_index s' = 0"
    by (rule reclaim_call [OF assms(1-5)])
  have "dom (gc_heap s') = {p. reachable ext (gc_heap s) p}"
    by (rule reclaim_complete [OF assms(1) s'(2,4,3,5,6), where rank = rank]) (fact assms(6), fact assms(7))
  moreover from this have "dom (gc_heap s') = {p. reachable ext (gc_heap s') p}"
    using reclaim_reachable_set [OF assms(1) s'(2) reclaim_shrinks [OF s'(4)]] by simp
  ultimately show ?thesis using s'(1) by blast
qed

text \<open>A ring of two mutable cyclic objects at 8 and 16, each holding the only reference to the other,
  registered and unmarked.\<close>

definition ring_object :: "u64 \<Rightarrow> u64 \<Rightarrow> gc_object" where
  "ring_object v i = \<lparr>header_word = cons_header, meta_ref_count = Meta_Flags_Cyclic_Candidate OR 1,
     obj_value = [v, 0, i]\<rparr>"

definition ring_state :: Syli_state where
  "ring_state = (zero_state [8 \<mapsto> ring_object 17 0, 16 \<mapsto> ring_object 9 1])
     \<lparr>cyclic_candidates := [9, 17], current_candidate_check_index := 2,
      tracing_state := Reclaiming_Cyclic_Candidates, tracing_budget := 2000,
      tracing_current_bit_mark := MASK_MARKING_BIT\<rparr>"

lemma ring_facts:
  "obj_local (ring_object v i)" "obj_indexed (ring_object v i)" "obj_index (ring_object v i) = i"
  "obj_rc (ring_object v i) = 1" "obj_flag Meta_Flags_Cyclic_Candidate (ring_object v i)"
  "\<not> obj_flag Meta_Flags_Waiting_Remove (ring_object v i)" "\<not> obj_flag Meta_Flags_Tracing (ring_object v i)"
  "\<not> obj_flag Meta_Flags_Children_Released (ring_object v i)"
  "\<not> obj_marked MASK_MARKING_BIT (ring_object v i)" "header_word (ring_object v i) = cons_header"
  using cons_header_fields
  by (simp_all add: ring_object_def obj_indexed_def obj_index_def obj_local_def obj_len_def obj_bit_defs
      Meta_Flags_Children_Released_def)

lemma ring_refs:
  "own_refs (ring_object 17 i) = [17]" "own_refs (ring_object 9 i) = [9]"
  "obj_ok (ring_object 17 i)" "obj_ok (ring_object 9 i)"
proof -
  have "ref_slots cons_header = [0]"
    using cons_header_fields by (simp add: ref_slots_def ref_count_def is_ref_slot_def syli_bitmap_is_ref_def upt_rec)
  moreover have "is_own_field 17" "is_own_field 9"
    by (simp_all add: is_own_field_def syli_ownership_is_own_ref_def tag_defs)
  ultimately show "own_refs (ring_object 17 i) = [17]" "own_refs (ring_object 9 i) = [9]"
    "obj_ok (ring_object 17 i)" "obj_ok (ring_object 9 i)"
    using ring_facts(1) cons_header_fields(5)
    by (simp_all add: own_refs_def obj_ok_def ring_facts(10)) (simp_all add: ring_object_def)
qed

lemma ring_state_inv: "reclaim_inv (\<lambda>_. 0) ring_state" "covered ring_state"
  "tracing_state ring_state = Reclaiming_Cyclic_Candidates" "0 < sint (tracing_budget ring_state)"
  "cyclic_obj_alloc_at_trace ring_state = cyclic_obj_alloc ring_state"
proof -
  let ?h = "[8 \<mapsto> ring_object 17 0, 16 \<mapsto> ring_object 9 1]"
  have h: "gc_heap ring_state = ?h" by (simp add: ring_state_def zero_state_def)
  have hold: "holders {} ?h = {8, 16}" using ring_facts by (auto simp: holders_def)
  have sets: "torn ?h = {}" "zeros ?h = {}" "traced ?h = {}"
    using ring_facts by (auto simp: torn_def zeros_def traced_def split: if_splits)
  have inc: "incoming {} ?h p = (if p = 8 \<or> p = 16 then 1 else 0)" for p
    using ring_refs sample_untag by (simp add: incoming_def hold)
  have counts: "counts_ok (\<lambda>_. 0) {} ?h"
    using ring_facts inc by (auto simp: counts_ok_def rc_at_def split: if_splits)
  have reg: "registry_inv ?h [9, 17]"
    unfolding registry_inv_def registry_entry_def
    using ring_facts sample_untag by (auto simp: less_Suc_eq split: if_splits)
  have "heap_ok ?h" using ring_refs sample_untag by (auto simp: heap_ok_def split: if_splits)
  with counts reg have l: "lost_inv (\<lambda>_. 0) {} ring_state"
    by (simp add: lost_inv_def heap_inv_def h sets) (simp add: ring_state_def zero_state_def)
  have dead: "\<not> reachable (\<lambda>_. 0) ?h p" for p
  proof
    assume "reachable (\<lambda>_. 0) ?h p"
    then show False by induction simp_all
  qed
  show "reclaim_inv (\<lambda>_. 0) ring_state"
    unfolding reclaim_inv_def
    using l dead ring_facts ring_refs sample_untag by (auto simp: h split: if_splits)
  show "covered ring_state" by (simp add: covered_def ring_state_def zero_state_def)
qed (simp_all add: ring_state_def zero_state_def)

theorem gc_reclaiming_safe_witness:
  "\<exists>s'. syli_state_gc_tracing roots_env_null ring_state = Some (Inr s') \<and> lost_cycle_worklist s' = []"
  using gc_reclaiming_safe [OF ring_state_inv, of roots_env_null] by blast

theorem gc_reclaiming_complete_witness:
  "\<exists>s'. syli_state_gc_tracing roots_env_null ring_state = Some (Inr s') \<and> gc_heap s' = Map.empty"
proof -
  have "False" if "reachable (\<lambda>_. 0) (gc_heap ring_state) p" for p
    using that by induction simp_all
  moreover have "\<not> obj_marked (tracing_current_bit_mark ring_state) x"
    "obj_flag Meta_Flags_Cyclic_Candidate x" if "gc_heap ring_state p = Some x" for p x
    using that ring_facts by (auto simp: ring_state_def zero_state_def split: if_splits)
  ultimately show ?thesis
    using gc_reclaiming_complete [OF ring_state_inv, of "\<lambda>_. 0" roots_env_null] by fastforce
qed

section \<open>A candidate that references itself\<close>

text \<open>The hypothesis \<open>no_candidate_loop\<close> is needed: the scan lowers the count of the candidate it
  tears down to zero through its own field, which queues it, and then queues it again because
  its count is zero.\<close>

definition self_loop_state :: Syli_state where
  "self_loop_state = (zero_state [8 \<mapsto> ring_object 9 0])
     \<lparr>cyclic_candidates := [9], current_candidate_check_index := 1,
      tracing_state := Reclaiming_Cyclic_Candidates, tracing_budget := 2000,
      tracing_current_bit_mark := MASK_MARKING_BIT\<rparr>"

definition torn_loop :: gc_object where
  "torn_loop = set_meta (Meta_Flags_Cyclic_Candidate OR 1 OR Meta_Flags_Children_Released) (ring_object 9 0)"

definition freed_loop :: gc_object where
  "freed_loop = set_meta ((Meta_Flags_Cyclic_Candidate OR 1 OR Meta_Flags_Children_Released) - 1) (ring_object 9 0)"

lemma torn_loop_facts:
  "obj_local torn_loop" "obj_rc torn_loop = 1" "header_word torn_loop = cons_header"
  "obj_value torn_loop = [9, 0, 0]" "set_meta (meta_ref_count torn_loop - 1) torn_loop = freed_loop"
  "obj_local freed_loop" "obj_rc freed_loop = 0" "meta_ref_count freed_loop AND REFCOUNT_MASK = 0"
  "obj_flag Meta_Flags_Children_Released freed_loop" "header_word freed_loop = cons_header"
  "obj_flag Meta_Flags_Cyclic_Candidate freed_loop" "\<not> obj_flag Meta_Flags_Tracing freed_loop"
  "obj_indexed freed_loop" "obj_index freed_loop = 0" "obj_value freed_loop = [9, 0, 0]"
  using ring_facts(1,2,3,10) [of 9 0]
  by (simp_all add: torn_loop_def freed_loop_def set_meta_def ring_object_def obj_bit_defs
      Meta_Flags_Children_Released_def obj_local_def obj_indexed_def obj_index_def obj_len_def)

lemma self_loop_decr:
  assumes "gc_heap s = [8 \<mapsto> torn_loop]"
  shows "lost_cycle_child_decr 9 s = Inr (s\<lparr>gc_heap := [8 \<mapsto> freed_loop],
     lost_cycle_worklist := lost_cycle_worklist s @ [9]\<rparr>)"
  using assms object_ops_local(6) [of 8 "[8 \<mapsto> torn_loop]" torn_loop]
    object_ops_local(4) [of 8 "[8 \<mapsto> freed_loop]" freed_loop] torn_loop_facts sample_untag(2) cons_header_fields(5)
  by (simp add: lost_cycle_child_decr_def lost_cycle_enqueue_free_def syli_object_of_obj_ptr_def Let_def
      on_heap_def deref_def gc_vector_push_back_def)

lemma self_loop_children:
  assumes "gc_heap s = [8 \<mapsto> torn_loop]"
  shows "lost_cycle_release_children 8 s = Inr (s\<lparr>checking_budget := checking_budget s - 2,
     gc_heap := [8 \<mapsto> freed_loop], lost_cycle_worklist := lost_cycle_worklist s @ [9]\<rparr>)"
proof -
  have own: "syli_ownership_is_own_ref 9" by (simp add: syli_ownership_is_own_ref_def tag_defs)
  have slots: "syli_bitmap_is_ref 1 0" "\<not> syli_bitmap_is_ref 1 (Suc 0)"
    by (simp_all add: syli_bitmap_is_ref_def)
  have shape: "\<not> syli_object_is_mono_ref cons_header" "syli_object_is_mixed_bitmap cons_header"
    "syli_object_bitmap_length cons_header = Inr 2"
    using shape_accessors(1) [of cons_header] cons_header_fields(3,7) by (simp_all add: type_predicates)
  let ?t = "s\<lparr>checking_budget := checking_budget s - 2\<rparr>"
  have "scan_fields 8 (syli_bitmap_is_ref 1) 2 lost_cycle_child_decr ?t
      = Inr (?t\<lparr>gc_heap := [8 \<mapsto> freed_loop], lost_cycle_worklist := lost_cycle_worklist s @ [9]\<rparr>)"
    using assms self_loop_decr [of ?t] torn_loop_facts(4) own slots
    by (simp add: scan_fields_def for_range_step for_range.simps [of "Suc (Suc 0)"] read_field_def deref_def)
  with assms torn_loop_facts(3) shape cons_header_fields(8) show ?thesis
    by (simp add: lost_cycle_release_children_def deref_def Let_def)
qed

lemma self_loop_scan:
  "\<exists>s. gc_one_step_scan (self_loop_state\<lparr>checking_budget := c\<rparr>) = Inr s \<and> lost_cycle_worklist s = [9, 9]
     \<and> gc_heap s = [8 \<mapsto> freed_loop] \<and> cyclic_candidates s = [9] \<and> tracing_budget s = 2000
     \<and> tracing_state s = Reclaiming_Cyclic_Candidates"
proof -
  let ?x = "ring_object 9 0"
  let ?s = "self_loop_state\<lparr>checking_budget := c, current_candidate_check_index := 0\<rparr>"
  have h: "gc_heap self_loop_state = [8 \<mapsto> ?x]" by (simp add: self_loop_state_def zero_state_def)
  have "gc_is_object_mark_tagged 8 ?s = Inr False"
    using is_mark_tagged [of 8 ?s ?x] ring_facts(9) [of 9 0] h by (simp add: self_loop_state_def zero_state_def)
  moreover have "syli_object_has_flags 8 Meta_Flags_Children_Released [8 \<mapsto> ?x] = Inr False"
    using object_ops_local(3) [of 8 "[8 \<mapsto> ?x]" ?x] ring_facts(1,8) by simp
  moreover have "syli_object_set_flags 8 Meta_Flags_Children_Released [8 \<mapsto> ?x] = Inr [8 \<mapsto> torn_loop]"
    using object_ops_local(1) [of 8 "[8 \<mapsto> ?x]" ?x] ring_facts(1) by (simp add: torn_loop_def ring_object_def or.assoc)
  moreover have "syli_object_refcount 8 [8 \<mapsto> freed_loop] = Inr 0"
    using object_ops_local(4) [of 8 "[8 \<mapsto> freed_loop]" freed_loop] torn_loop_facts by simp
  moreover have "cyclic_candidates self_loop_state = [9]" "current_candidate_check_index self_loop_state = 1"
    "lost_cycle_worklist self_loop_state = []" "tracing_budget self_loop_state = 2000"
    "tracing_state self_loop_state = Reclaiming_Cyclic_Candidates"
    by (simp_all add: self_loop_state_def zero_state_def)
  ultimately show ?thesis
    using h self_loop_children [of "?s\<lparr>gc_heap := [8 \<mapsto> torn_loop]\<rparr>"] sample_untag(2)
    by (simp add: gc_one_step_scan_def Let_def candidate_at_def syli_object_of_obj_ptr_def on_heap_def when_r_def
        lost_cycle_enqueue_free_def gc_vector_push_back_def)
qed

text \<open>C22: a lost candidate that holds a reference to itself is queued twice and freed twice: the
  second round of the queue reads the header of a block that is no longer allocated.\<close>

theorem gc_reclaiming_self_loop:
  "syli_state_gc_tracing roots_env_null self_loop_state = Some (Inl InvalidAccess)"
proof -
  obtain s1 where s1: "gc_one_step_scan (self_loop_state\<lparr>checking_budget := checking_budget self_loop_state - 1\<rparr>) = Inr s1"
    "lost_cycle_worklist s1 = [9, 9]" "gc_heap s1 = [8 \<mapsto> freed_loop]" "cyclic_candidates s1 = [9]"
    "tracing_budget s1 = 2000" "tracing_state s1 = Reclaiming_Cyclic_Candidates"
    using self_loop_scan by blast
  let ?t = "s1\<lparr>checking_steps := checking_steps s1 + 1\<rparr>"
  have r1: "tracing_round roots_env_null self_loop_state = Inr (Continue ?t)"
    using s1(1) by (simp add: tracing_round_def self_loop_state_def zero_state_def)
  let ?u = "?t\<lparr>checking_budget := checking_budget s1 - 1, lost_cycle_worklist := [9]\<rparr>"
  have reg: "registry_inv (gc_heap ?u) (cyclic_candidates ?u)"
    using torn_loop_facts sample_untag(2)
    by (auto simp: s1 registry_inv_def registry_entry_def split: if_splits)
  obtain s2 where s2: "free_released_object 8 ?u = Inr s2" "gc_heap s2 8 = None"
    "lost_cycle_worklist s2 = [9]" "tracing_budget s2 = 2000" "tracing_state s2 = Reclaiming_Cyclic_Candidates"
    using free_released_object_spec [OF reg, of 8 freed_loop] torn_loop_facts(6,12) s1 by auto
  have "syli_object_has_flags 8 Meta_Flags_Children_Released (gc_heap s1) = Inr True"
    using object_ops_local(3) [of 8 "gc_heap s1" freed_loop] torn_loop_facts s1(3) by simp
  then have r2: "tracing_round roots_env_null ?t = Inr (Continue (s2\<lparr>checking_steps := checking_steps s2 + 1\<rparr>))"
    using s1 s2(1) sample_untag(2)
    by (simp add: tracing_round_def gc_one_step_free_unreachable_def gc_vector_pop_back_def Let_def
        syli_object_of_obj_ptr_def when_r_def)
  have "tracing_round roots_env_null (s2\<lparr>checking_steps := checking_steps s2 + 1\<rparr>) = Inl InvalidAccess"
    using s2 sample_untag(2)
    by (simp add: tracing_round_def gc_one_step_free_unreachable_def gc_vector_pop_back_def Let_def
        syli_object_of_obj_ptr_def syli_object_has_flags_def deref_def)
  with r1 r2 show ?thesis
    by (simp add: syli_state_gc_tracing_def run_loop_Continue run_loop_Inl)
qed

end
