(* ===== verification/Collection.thy ===== *)
theory Collection
  imports GcReclaim
begin

text \<open>
  A collection as a whole, from one quiet memory to the next, in one call of the tracer or in
  several: the invariant \<open>mid_collection\<close> holds whenever the budget stops a call, and the calls
  that resume the collection keep it until the memory is quiet again.
\<close>

section \<open>Between two collections\<close>

text \<open>The worklists are empty, nothing is half torn down, every object carries the mark of the last
  generation.\<close>

definition quiet :: "(u64 \<Rightarrow> nat) \<Rightarrow> Syli_state \<Rightarrow> bool" where
  "quiet ext s \<longleftrightarrow> heap_inv ext {} s \<and> tracing_state s = Tracing_Idle
     \<and> tracing_worklist s = [] \<and> tracing_mutations_worklist s = [] \<and> lost_cycle_worklist s = []
     \<and> releasing_waitlist s = [] \<and> releasing_worklist s = [] \<and> releasing_state s = Releasing_Idle
     \<and> torn (gc_heap s) = {} \<and> zeros (gc_heap s) = {}
     \<and> (\<forall>p x. gc_heap s p = Some x \<longrightarrow> obj_marked (tracing_current_bit_mark s) x)"

lemma quietD:
  assumes "quiet ext s"
  shows "heap_inv ext {} s" and "tracing_state s = Tracing_Idle" and "tracing_worklist s = []"
    and "tracing_mutations_worklist s = []" and "lost_cycle_worklist s = []"
    and "torn (gc_heap s) = {}" and "zeros (gc_heap s) = {}"
    and "\<And>p x. gc_heap s p = Some x \<Longrightarrow> obj_marked (tracing_current_bit_mark s) x"
    and "releasing_waitlist s = []" and "releasing_worklist s = []" and "releasing_state s = Releasing_Idle"
  using assms by (simp_all add: quiet_def)

text \<open>The references of objects whose release the tracer has to find: those of candidates do not
  loop, those of other objects go down in some order.\<close>

definition cycles_registered :: "(u64 \<Rightarrow> nat) \<Rightarrow> heap \<Rightarrow> bool" where
  "cycles_registered rank h \<longleftrightarrow> (\<forall>p x v. h p = Some x \<longrightarrow> \<not> obj_flag Meta_Flags_Waiting_Remove x
     \<longrightarrow> v \<in> set (own_refs x) \<longrightarrow>
     (if obj_flag Meta_Flags_Cyclic_Candidate x then syli_ownership_untag v \<noteq> p
      else rank (syli_ownership_untag v) < rank p))"

lemma cycles_registered_shrinks:
  assumes "cycles_registered rank h" and "heap_shrinks h h'"
    and "\<And>p x y. h p = Some x \<Longrightarrow> h' p = Some y \<Longrightarrow> \<not> obj_flag Meta_Flags_Waiting_Remove y \<Longrightarrow>
       obj_flag Meta_Flags_Cyclic_Candidate y = obj_flag Meta_Flags_Cyclic_Candidate x"
  shows "cycles_registered rank h'"
  unfolding cycles_registered_def
proof (intro allI impI)
  fix p y v
  assume y: "h' p = Some y" "\<not> obj_flag Meta_Flags_Waiting_Remove y" "v \<in> set (own_refs y)"
  obtain x where x: "h p = Some x" "same_fields x y" "\<not> obj_flag Meta_Flags_Waiting_Remove x"
    using heap_shrinksD [OF assms(2) y(1)] y(2) by blast
  then have "v \<in> set (own_refs x)" using y(3) same_fields_refs(1) [OF x(2)] by simp
  with assms(1) x(1,3) assms(3) [OF x(1) y(1,2)]
  show "if obj_flag Meta_Flags_Cyclic_Candidate y then syli_ownership_untag v \<noteq> p
      else rank (syli_ownership_untag v) < rank p" unfolding cycles_registered_def by metis
qed

text \<open>The registry decides which objects are candidates.\<close>

lemma cycles_registered_same:
  assumes "cycles_registered rank (gc_heap s)" and "heap_shrinks (gc_heap s) (gc_heap s')"
    and "heap_inv ext D s" and "heap_inv ext' D' s'" and "cyclic_candidates s' = cyclic_candidates s"
  shows "cycles_registered rank (gc_heap s')"
proof (rule cycles_registered_shrinks [OF assms(1,2)])
  fix p x y
  assume "gc_heap s p = Some x" "gc_heap s' p = Some y"
  with registry_flag_iff [OF heap_invD(3) [OF assms(3)]] registry_flag_iff [OF heap_invD(3) [OF assms(4)]] assms(5)
  show "obj_flag Meta_Flags_Cyclic_Candidate y = obj_flag Meta_Flags_Cyclic_Candidate x" by simp
qed

text \<open>A reclaimed memory in which everything is marked is quiet again.\<close>

lemma quiet_again:
  assumes inv: "reclaim_inv ext s" and idle: "tracing_state s = Tracing_Idle"
    "tracing_mutations_worklist s = []" "lost_cycle_worklist s = []"
    "releasing_waitlist s = []" "releasing_worklist s = []" "releasing_state s = Releasing_Idle"
    and all: "\<And>p x. gc_heap s p = Some x \<Longrightarrow> obj_marked (tracing_current_bit_mark s) x"
  shows "quiet ext s"
proof -
  have alive: "0 < obj_rc x" if "gc_heap s p = Some x" for p x by (rule reclaim_alive [OF inv idle(3) that])
  then have z: "zeros (gc_heap s) = {}" by (fastforce simp: zeros_def)
  have t: "torn (gc_heap s) = {}" using reclaim_invD(3) [OF inv] all alive by (fastforce simp: torn_def)
  with lost_invD [OF reclaim_invD(1) [OF inv]] idle z all show ?thesis by (simp add: quiet_def)
qed

lemma kept_reachable:
  assumes "heap_shrinks h h'" and "counts_ok ext {} h'" and "heap_ok h'"
  shows "reachable ext h' p \<longleftrightarrow> reachable ext h p"
proof
  assume "reachable ext h p"
  then show "reachable ext h' p"
  proof (rule reachable_forward)
    fix q x
    assume r: "reachable ext h q" and x: "h q = Some x"
    obtain y where y: "h' q = Some y" using reachable_kept [OF r assms] by blast
    with heap_shrinksD [OF assms(1) y] x same_fields_refs(1) [of x y]
    show "\<exists>y. h' q = Some y \<and> own_refs y = own_refs x" by auto
  qed
qed (rule reachable_shrinks [OF _ assms(1)])

section \<open>In the middle of a collection\<close>

text \<open>The candidates from the check index on carry the mark of this generation.\<close>

definition checked :: "Syli_state \<Rightarrow> bool" where
  "checked s \<longleftrightarrow> (\<forall>v \<in> set (drop (unat (current_candidate_check_index s)) (cyclic_candidates s)).
     syli_ownership_untag v \<notin> whites s)"

definition mid_collection :: "(u64 \<Rightarrow> nat) \<Rightarrow> Syli_state \<Rightarrow> bool" where
  "mid_collection ext s \<longleftrightarrow> marking_inv ext s
     \<and> (marking_phase s \<or> tracing_state s = Reclaiming_Cyclic_Candidates
          \<and> tracing_worklist s = [] \<and> tracing_mutations_worklist s = [])
     \<and> lost_cycle_worklist s = [] \<and> torn (gc_heap s) \<inter> holders {} (gc_heap s) = {} \<and> checked s"

definition nothing_queued :: "Syli_state \<Rightarrow> bool" where
  "nothing_queued s \<longleftrightarrow> releasing_waitlist s = [] \<and> releasing_worklist s = [] \<and> releasing_state s = Releasing_Idle
     \<and> dead {} (gc_heap s) = {}"

lemma mid_collectionD:
  assumes "mid_collection ext s"
  shows "marking_inv ext s" and "heap_inv ext {} s" and "tricolour ext s" and "mutations_ok s"
    and "lost_cycle_worklist s = []" and "torn (gc_heap s) \<inter> holders {} (gc_heap s) = {}" and "checked s"
  using assms by (simp_all add: mid_collection_def marking_inv_def)

lemma checked_covered:
  assumes "heap_inv ext D s" and "checked s"
  shows "covered s"
  unfolding covered_def
proof
  fix v
  assume v: "v \<in> set (drop (unat (current_candidate_check_index s)) (cyclic_candidates s))"
  then obtain i where "i < length (cyclic_candidates s)" "cyclic_candidates s ! i = v"
    by (metis in_set_conv_nth in_set_dropD)
  with registry_entryD [OF heap_invD(3) [OF assms(1)], of i]
  obtain x where "gc_heap s (syli_ownership_untag v) = Some x" by (auto simp: registry_entry_def)
  moreover from this assms(2) v have "obj_marked (tracing_current_bit_mark s) x"
    by (auto simp: checked_def whites_def)
  ultimately show "\<exists>x. gc_heap s (syli_ownership_untag v) = Some x
       \<and> (obj_marked (tracing_current_bit_mark s) x \<or> obj_flag Meta_Flags_Children_Released x)" by blast
qed


lemma phase_frameD:
  assumes "phase_frame s s'"
  shows "heap_shrinks (gc_heap s) (gc_heap s')" and "cyclic_candidates s' = cyclic_candidates s"
    and "tracing_current_bit_mark s' = tracing_current_bit_mark s" and "lost_cycle_worklist s' = lost_cycle_worklist s"
    and "current_candidate_check_index s' = current_candidate_check_index s"
    and "cyclic_obj_alloc s' = cyclic_obj_alloc s" and "cyclic_obj_alloc_at_trace s' = cyclic_obj_alloc_at_trace s"
    and "releasing_waitlist s' = releasing_waitlist s" and "releasing_worklist s' = releasing_worklist s"
    and "releasing_state s' = releasing_state s" and "gc_settings s' = gc_settings s"
  using assms by (simp_all add: phase_frame_def trace_frame_def)

text \<open>Marking changes neither the counts of the objects it does not free nor their teardown.\<close>

lemma phase_frame_old:
  assumes "phase_frame s s'" and "gc_heap s' p = Some y" and "\<not> obj_flag Meta_Flags_Waiting_Remove y"
  obtains x where "gc_heap s p = Some x" and "\<not> obj_flag Meta_Flags_Waiting_Remove x" and "obj_rc y = obj_rc x"
    and "obj_flag Meta_Flags_Children_Released y = obj_flag Meta_Flags_Children_Released x"
proof -
  obtain x where x: "gc_heap s p = Some x" "\<not> obj_flag Meta_Flags_Waiting_Remove x"
    using heap_shrinksD [OF phase_frameD(1) [OF assms(1)] assms(2)] assms(3) by blast
  have "trace_frame s (s'\<lparr>tracing_state := tracing_state s\<rparr>)" using assms(1) by (simp add: phase_frame_def)
  from trace_frame_kept [OF this x] x assms(2) show thesis by (intro that) auto
qed

lemma phase_frame_torn:
  assumes "phase_frame s s'" and "torn (gc_heap s) \<inter> holders {} (gc_heap s) = {}"
  shows "torn (gc_heap s') \<inter> holders {} (gc_heap s') = {}"
proof -
  have "p \<notin> holders {} (gc_heap s')" if p: "p \<in> torn (gc_heap s')" for p
  proof
    assume "p \<in> holders {} (gc_heap s')"
    then obtain y where y: "gc_heap s' p = Some y" "\<not> obj_flag Meta_Flags_Waiting_Remove y" by (auto simp: holders_def)
    obtain x where "gc_heap s p = Some x" "\<not> obj_flag Meta_Flags_Waiting_Remove x"
      "obj_flag Meta_Flags_Children_Released y = obj_flag Meta_Flags_Children_Released x"
      by (rule phase_frame_old [OF assms(1) y])
    then have "p \<in> torn (gc_heap s) \<inter> holders {} (gc_heap s)" using p y by (simp add: torn_def holders_def)
    with assms(2) show False by blast
  qed
  then show ?thesis by blast
qed

lemma phase_frame_queued:
  assumes "phase_frame s s'" and "nothing_queued s"
  shows "nothing_queued s'"
proof -
  have "p \<notin> dead {} (gc_heap s')" for p
  proof
    assume d: "p \<in> dead {} (gc_heap s')"
    then obtain y where y: "gc_heap s' p = Some y" "\<not> obj_flag Meta_Flags_Waiting_Remove y"
      by (auto simp: dead_def holders_def)
    obtain x where "gc_heap s p = Some x" "\<not> obj_flag Meta_Flags_Waiting_Remove x" "obj_rc y = obj_rc x"
      by (rule phase_frame_old [OF assms(1) y])
    then have "p \<in> dead {} (gc_heap s)" using d y by (simp add: dead_def holders_def rc_at_def)
    with assms(2) show False by (simp add: nothing_queued_def)
  qed
  then have "dead {} (gc_heap s') = {}" by blast
  with assms(2) phase_frameD(8-10) [OF assms(1)] show ?thesis by (simp add: nothing_queued_def)
qed

text \<open>Only what is reachable has been marked, and nothing is noted: so it is when the program does not run
  between the calls of a collection.\<close>

definition exact :: "(u64 \<Rightarrow> nat) \<Rightarrow> Syli_state \<Rightarrow> bool" where
  "exact ext s \<longleftrightarrow> tracing_mutations_worklist s = [] \<and> exact_marks ext s"

text \<open>Marking goes on until the budget is used up or reclaiming begins.\<close>

lemma mid_marked:
  assumes mid: "mid_collection ext s" and ph: "marking_phase s"
  obtains s' where "tracing_rounds env s s'" and "mid_collection ext s'" and "phase_frame s s'"
    and "s' = s \<or> (phase_measure s', phase_measure s) \<in> phase_order"
    and "sint (tracing_budget s') \<le> 0 \<and> marking_phase s' \<or> tracing_state s' = Reclaiming_Cyclic_Candidates"
    and "exact ext s \<longrightarrow> exact ext s'"
proof -
  note M = mid_collectionD [OF mid]
  obtain s' where s': "tracing_rounds env s s'" "marking_inv ext s'" "phase_frame s s'" "whites s' \<subseteq> whites s"
    "s' = s \<or> (phase_measure s', phase_measure s) \<in> phase_order"
    and st: "sint (tracing_budget s') \<le> 0 \<and> marking_phase s' \<or> tracing_state s' = Reclaiming_Cyclic_Candidates
          \<and> tracing_worklist s' = [] \<and> tracing_mutations_worklist s' = []"
    and ex: "tracing_mutations_worklist s = [] \<longrightarrow> tracing_mutations_worklist s' = []
          \<and> (exact_marks ext s \<longrightarrow> exact_marks ext s')"
    using marking_rounds [OF M(1) ph, of env] by blast
  note F = phase_frameD [OF s'(3)]
  have "checked s'" using M(7) F(2,5) s'(4) by (auto simp: checked_def)
  moreover have "lost_cycle_worklist s' = []" using F(4) M(5) by simp
  ultimately have "mid_collection ext s'"
    using s'(2) st phase_frame_torn [OF s'(3) M(6)] unfolding mid_collection_def by blast
  moreover have "exact ext s \<longrightarrow> exact ext s'" using ex by (simp add: exact_def)
  ultimately show thesis using s' st by (intro that) blast+
qed

section \<open>Reclaiming in the middle of a collection\<close>

lemma mid_reclaim:
  assumes mid: "mid_collection ext s" and st: "tracing_state s = Reclaiming_Cyclic_Candidates"
    and q: "nothing_queued s" and b: "0 < sint (tracing_budget s)" and reg: "cycles_registered rank (gc_heap s)"
  obtains s' where "tracing_rounds env s s'" and "quiet ext s'" and "reclaim_outer s s'"
    and "\<forall>p. reachable ext (gc_heap s') p \<longleftrightarrow> reachable ext (gc_heap s) p"
    and "exact ext s \<longrightarrow> dom (gc_heap s') = {p. reachable ext (gc_heap s) p}"
    and "cycles_registered rank (gc_heap s')"
proof -
  note M = mid_collectionD [OF mid]
  have none: "tracing_worklist s = []" "tracing_mutations_worklist s = []"
    using mid st by (simp_all add: mid_collection_def marking_phase_def)
  have nw: "\<not> obj_flag Meta_Flags_Waiting_Remove x" if "gc_heap s p = Some x" for p x
    by (rule no_waiting(1) [OF M(2) none(1) that])
  have hold: "p \<in> holders {} (gc_heap s)" if "gc_heap s p = Some x" for p x
    using nw [OF that] that by (simp add: holders_def)
  have t: "torn (gc_heap s) = {}" using M(6) hold by (auto simp: torn_def)
  have alive: "0 < obj_rc x" if "gc_heap s p = Some x" for p x
  proof -
    have "p \<notin> dead {} (gc_heap s)" using q by (simp add: nothing_queued_def)
    with hold [OF that] that show ?thesis by (simp add: dead_def rc_at_def)
  qed
  then have z: "zeros (gc_heap s) = {}" by (fastforce simp: zeros_def)
  have rankD: "if obj_flag Meta_Flags_Cyclic_Candidate x then syli_ownership_untag v \<noteq> p
      else rank (syli_ownership_untag v) < rank p"
    if "gc_heap s p = Some x" "v \<in> set (own_refs x)" for p x v
    using reg that nw [OF that(1)] unfolding cycles_registered_def by blast
  then have "no_candidate_loop s" unfolding no_candidate_loop_def by metis
  then have inv: "reclaim_inv ext s" by (rule reclaim_start [OF M(1) none M(5) t z])
  obtain s' where s': "tracing_rounds env s s'" "reclaim_inv ext s'" "covered s'" "reclaim_outer s s'"
    and fin: "tracing_state s' = Tracing_Idle" "lost_cycle_worklist s' = []" "current_candidate_check_index s' = 0"
    using reclaim_rounds [OF inv checked_covered [OF M(2,7)] st b, of env] by blast
  have rank': "rank (syli_ownership_untag v) < rank q"
    if "gc_heap s q = Some x" "\<not> obj_flag Meta_Flags_Cyclic_Candidate x" "v \<in> set (own_refs x)" for q x v
    using rankD [OF that(1,3)] that(2) by simp
  have left: "obj_marked (tracing_current_bit_mark s') y" if "gc_heap s' p = Some y" for p y
    by (rule reclaim_left [OF inv s'(2,4,3) fin(2,3) _ _ that, where rank = rank])
      (use tricolour_closed(2) [OF M(2,3) none] alive rank' in blast)+
  have out: "tracing_mutations_worklist s' = []" "releasing_waitlist s' = []" "releasing_worklist s' = []"
    "releasing_state s' = Releasing_Idle"
    using s'(4) none q by (simp_all add: reclaim_outer_def reclaim_frame_def nothing_queued_def)
  have "quiet ext s'" by (rule quiet_again [OF s'(2) fin(1) out(1) fin(2) out(2-4) left])
  moreover have "dom (gc_heap s') = {p. reachable ext (gc_heap s) p}" if ex: "exact ext s"
    by (rule reclaim_complete [OF inv s'(2,4,3) fin(2,3), where rank = rank])
      (use ex rank' in \<open>auto simp: exact_def exact_marks_def\<close>)
  moreover have "cycles_registered rank (gc_heap s')"
    by (rule cycles_registered_shrinks [OF reg reclaim_shrinks [OF s'(4)]])
      (use s'(4) in \<open>auto simp: reclaim_outer_def reclaim_frame_def\<close>)
  ultimately show thesis
    using s'(1,4) reclaim_reachable_set [OF inv s'(2) reclaim_shrinks [OF s'(4)]] by (intro that) blast+
qed

section \<open>The start of a collection\<close>

lemma collection_start:
  assumes q: "quiet ext s" and "tracing_triggered s" and "0 < sint (tracing_budget s)"
    and "stack_values env s vs" and "{p. 0 < ext p} = syli_ownership_untag ` {v \<in> set vs. is_own_field v}"
  obtains s' where "tracing_round env s = Inr (Continue s')" and "mid_collection ext s'" and "exact ext s'"
    and "nothing_queued s'" and "heap_shrinks (gc_heap s) (gc_heap s')"
    and "cyclic_candidates s' = cyclic_candidates s" and "cyclic_obj_alloc_at_trace s' = cyclic_obj_alloc s'"
    and "tracing_budget s' = tracing_budget s" and "snd (gc_settings s') = snd (gc_settings s)"
    and "cyclic_obj_alloc s' = cyclic_obj_alloc s" and "\<forall>us. stack_values env s us \<longrightarrow> stack_values env s' us"
proof -
  note Q = quietD [OF q]
  obtain s1 where s1: "tracing_round env s = Inr (Continue s1)" "marking_inv ext s1"
    and ph: "marking_phase s1 \<or> tracing_state s1 = Reclaiming_Cyclic_Candidates
          \<and> tracing_worklist s1 = [] \<and> tracing_mutations_worklist s1 = []"
    and m1: "tracing_mutations_worklist s1 = []" and g: "greyed (gc_heap s) (gc_heap s1)"
    and k1: "current_candidate_check_index s1 = gc_cyclic_candidate_count s"
      "cyclic_candidates s1 = cyclic_candidates s" "lost_cycle_worklist s1 = lost_cycle_worklist s"
      "cyclic_obj_alloc_at_trace s1 = cyclic_obj_alloc s1" "tracing_budget s1 = tracing_budget s"
      "releasing_waitlist s1 = releasing_waitlist s" "releasing_worklist s1 = releasing_worklist s"
      "releasing_state s1 = releasing_state s" "snd (gc_settings s1) = snd (gc_settings s)"
      "cyclic_obj_alloc s1 = cyclic_obj_alloc s" "\<forall>us. stack_values env s us \<longrightarrow> stack_values env s1 us"
    and ex: "tracing_worklist s = [] \<Longrightarrow>
          (\<And>p x. gc_heap s p = Some x \<Longrightarrow> obj_marked (tracing_current_bit_mark s) x) \<Longrightarrow> exact_marks ext s1"
    by (rule cycle_start_spec [OF Q(1,2) assms(2,3) Q(4) _ assms(4,5)]) (use Q(8) in auto)
  have c1: "0 < obj_rc y \<and> \<not> obj_flag Meta_Flags_Children_Released y" if y: "gc_heap s1 p = Some y" for p y
  proof -
    obtain x where x: "gc_heap s p = Some x" "obj_rc y = obj_rc x" by (rule greyedD [OF g y])
    moreover have "0 < obj_rc x" "\<not> obj_flag Meta_Flags_Children_Released x"
      using Q(6,7) x(1) by (auto simp: torn_def zeros_def)
    ultimately show ?thesis using greyed_released [OF g x(1) y] by simp
  qed
  have t: "torn (gc_heap s1) = {}" and d: "dead {} (gc_heap s1) = {}"
    using c1 by (fastforce simp: torn_def dead_def holders_def rc_at_def)+
  have "length (cyclic_candidates s) < 2 ^ 64" using heap_invD(3) [OF Q(1)] by (simp add: registry_inv_def)
  then have "checked s1" using k1(1,2) by (simp add: checked_def gc_cyclic_candidate_count_def unat_of_nat take_bit_nat_eq_self)
  then have "mid_collection ext s1" using s1(2) ph k1(3) Q(5) t by (simp add: mid_collection_def)
  moreover have "nothing_queued s1" using k1(6-8) Q(9-11) d by (simp add: nothing_queued_def)
  moreover have "exact_marks ext s1" by (rule ex [OF Q(3)]) (rule Q(8))
  then have "exact ext s1" using m1 by (simp add: exact_def)
  ultimately show thesis
    using s1(1) greyed_shrinks [OF g] k1(2,4,5,9,10,11) by (intro that)
qed

section \<open>A call of the tracer\<close>

text \<open>How far a collection is: a collection that has begun since the last allocation is the last of the
  call, and marking comes before reclaiming.\<close>

definition collection_measure :: "Syli_state \<Rightarrow> nat \<times> nat \<times> nat \<times> nat \<times> nat \<times> nat" where
  "collection_measure s = (if cyclic_obj_alloc_at_trace s < cyclic_obj_alloc s then 1 else 0,
     if marking_phase s then 1 else 0, phase_measure s)"

abbreviation collection_order ::
    "((nat \<times> nat \<times> nat \<times> nat \<times> nat \<times> nat) \<times> nat \<times> nat \<times> nat \<times> nat \<times> nat \<times> nat) set" where
  "collection_order \<equiv> less_than <*lex*> less_than <*lex*> phase_order"

definition stopped :: "(u64 \<Rightarrow> nat) \<Rightarrow> Syli_state \<Rightarrow> bool" where
  "stopped ext s \<longleftrightarrow> sint (tracing_budget s) \<le> 0 \<and> mid_collection ext s \<and> nothing_queued s"

text \<open>What holds before and after: reachability, the settings, the shape of the memory.\<close>

definition collected :: "'c roots_env \<Rightarrow> (u64 \<Rightarrow> nat) \<Rightarrow> (u64 \<Rightarrow> nat) \<Rightarrow> Syli_state \<Rightarrow> Syli_state \<Rightarrow> bool" where
  "collected env ext rank s s' \<longleftrightarrow> heap_shrinks (gc_heap s) (gc_heap s')
     \<and> (\<forall>p. reachable ext (gc_heap s') p \<longleftrightarrow> reachable ext (gc_heap s) p)
     \<and> cycles_registered rank (gc_heap s') \<and> snd (gc_settings s') = snd (gc_settings s)
     \<and> cyclic_obj_alloc s' = cyclic_obj_alloc s
     \<and> (\<forall>vs. stack_values env s vs \<longrightarrow> stack_values env s' vs)"

lemma stack_values_settings: "gc_settings s' = gc_settings s \<Longrightarrow> stack_values env s vs \<longrightarrow> stack_values env s' vs"
  using stack_values_cong [of env s vs s'] by simp

lemma collected_trans: "collected env ext rank s1 s2 \<Longrightarrow> collected env ext rank s2 s3 \<Longrightarrow> collected env ext rank s1 s3"
  using heap_shrinks_trans [of "gc_heap s1" "gc_heap s2" "gc_heap s3"] by (simp add: collected_def)

text \<open>The rest of a collection, until it ends or the budget is used up.\<close>

lemma mid_rounds:
  assumes mid: "mid_collection ext s" and q: "nothing_queued s" and reg: "cycles_registered rank (gc_heap s)"
  obtains s' where "tracing_rounds env s s'" and "collected env ext rank s s'" and "gc_settings s' = gc_settings s"
    and "cyclic_obj_alloc_at_trace s' = cyclic_obj_alloc_at_trace s"
    and "stopped ext s' \<and> (s' = s \<or> (collection_measure s', collection_measure s) \<in> collection_order)
          \<and> (exact ext s \<longrightarrow> exact ext s')
       \<or> quiet ext s' \<and> 0 < sint (tracing_budget s')
          \<and> (exact ext s \<longrightarrow> dom (gc_heap s') = {p. reachable ext (gc_heap s) p})"
proof -
  obtain s1 where s1: "tracing_rounds env s s1" "mid_collection ext s1" "phase_frame s s1"
    "s1 = s \<or> marking_phase s \<and> (phase_measure s1, phase_measure s) \<in> phase_order"
    "sint (tracing_budget s1) \<le> 0 \<and> marking_phase s1 \<or> tracing_state s1 = Reclaiming_Cyclic_Candidates"
    "exact ext s \<longrightarrow> exact ext s1"
  proof (cases "marking_phase s")
    case True
    show thesis by (rule mid_marked [OF mid True, of env]) (rule that; use True in blast)
  next
    case False
    then have "tracing_state s = Reclaiming_Cyclic_Candidates" using mid by (simp add: mid_collection_def)
    moreover have "phase_frame s s" by (simp add: phase_frame_def)
    ultimately show thesis using mid tracing_rounds.stop by (intro that [of s]) simp_all
  qed
  note F = phase_frameD [OF s1(3)]
  have H: "heap_inv ext {} s" "heap_inv ext {} s1" using mid_collectionD(2) mid s1(2) by blast+
  have q1: "nothing_queued s1" by (rule phase_frame_queued [OF s1(3) q])
  have reg1: "cycles_registered rank (gc_heap s1)" by (rule cycles_registered_same [OF reg F(1) H F(2)])
  have r1: "reachable ext (gc_heap s1) p \<longleftrightarrow> reachable ext (gc_heap s) p" for p
    by (rule kept_reachable [OF F(1) heap_invD(2,1) [OF H(2)]])
  have c1: "collected env ext rank s s1"
    using F(1,6,11) r1 reg1 by (simp add: collected_def stack_values_settings)
  show thesis
  proof (cases "sint (tracing_budget s1) \<le> 0")
    case True
    have "s1 = s \<or> (collection_measure s1, collection_measure s) \<in> collection_order"
      using s1(4) F(6,7) by (auto simp: collection_measure_def)
    with True s1(2,6) q1 show thesis by (intro that [OF s1(1) c1 F(11,7)]) (simp add: stopped_def)
  next
    case False
    then have st: "tracing_state s1 = Reclaiming_Cyclic_Candidates" and b: "0 < sint (tracing_budget s1)"
      using s1(5) by auto
    obtain s2 where s2: "tracing_rounds env s1 s2" "quiet ext s2" "reclaim_outer s1 s2"
      "\<forall>p. reachable ext (gc_heap s2) p \<longleftrightarrow> reachable ext (gc_heap s1) p"
      "exact ext s1 \<longrightarrow> dom (gc_heap s2) = {p. reachable ext (gc_heap s1) p}"
      "cycles_registered rank (gc_heap s2)"
      by (rule mid_reclaim [OF s1(2) st q1 b reg1, of env])
    have F2: "gc_settings s2 = gc_settings s1" "cyclic_obj_alloc_at_trace s2 = cyclic_obj_alloc_at_trace s1"
      "tracing_budget s2 = tracing_budget s1" "cyclic_obj_alloc s2 = cyclic_obj_alloc s1"
      using s2(3) by (simp_all add: reclaim_outer_def reclaim_frame_def)
    have "collected env ext rank s1 s2"
      using F2 s2(4,6) reclaim_shrinks [OF s2(3)] by (simp add: collected_def stack_values_settings)
    then have c2: "collected env ext rank s s2" by (rule collected_trans [OF c1])
    have "gc_settings s2 = gc_settings s" "cyclic_obj_alloc_at_trace s2 = cyclic_obj_alloc_at_trace s"
      using F2 F by simp_all
    then show thesis
      using s2(2,5) s1(6) b F2(3) r1
      by (intro that [OF tracing_rounds_trans [OF s1(1) s2(1)] c2]) auto
  qed
qed

lemma tracing_stops:
  assumes "sint (tracing_budget s) \<le> 0 \<or> tracing_state s = Tracing_Idle \<and> \<not> tracing_triggered s"
  shows "syli_state_gc_tracing env s = Some (Inr s)"
  unfolding syli_state_gc_tracing_def
  by (rule run_loop_Return) (use assms in \<open>auto simp: tracing_round_def\<close>)

text \<open>A call in a quiet memory: nothing is due, or a collection starts and reaches its end or the end of
  the budget.\<close>

lemma quiet_call:
  assumes q: "quiet ext s" and b: "0 < sint (tracing_budget s)" and reg: "cycles_registered rank (gc_heap s)"
    and roots: "stack_values env s vs" "{p. 0 < ext p} = syli_ownership_untag ` {v \<in> set vs. is_own_field v}"
  obtains s' where "syli_state_gc_tracing env s = Some (Inr s')" and "collected env ext rank s s'"
    and "\<not> tracing_triggered s \<and> s' = s
       \<or> cyclic_obj_alloc_at_trace s < cyclic_obj_alloc s \<and> cyclic_obj_alloc_at_trace s' = cyclic_obj_alloc s'
          \<and> (stopped ext s' \<and> exact ext s' \<or> quiet ext s' \<and> dom (gc_heap s') = {p. reachable ext (gc_heap s) p})"
proof (cases "tracing_triggered s")
  case False
  have "syli_state_gc_tracing env s = Some (Inr s)" using False quietD(2) [OF q] by (simp add: tracing_stops)
  moreover have "collected env ext rank s s" using reg by (simp add: collected_def)
  ultimately show thesis using that False by blast
next
  case True
  obtain s1 where s1: "tracing_round env s = Inr (Continue s1)" "mid_collection ext s1" "exact ext s1"
    "nothing_queued s1" "heap_shrinks (gc_heap s) (gc_heap s1)"
    "cyclic_candidates s1 = cyclic_candidates s" "cyclic_obj_alloc_at_trace s1 = cyclic_obj_alloc s1"
    "tracing_budget s1 = tracing_budget s" "snd (gc_settings s1) = snd (gc_settings s)"
    "cyclic_obj_alloc s1 = cyclic_obj_alloc s"
    and sv: "\<forall>us. stack_values env s us \<longrightarrow> stack_values env s1 us"
    by (rule collection_start [OF q True b roots])
  have H: "heap_inv ext {} s" "heap_inv ext {} s1" using quietD(1) [OF q] mid_collectionD(2) [OF s1(2)] by blast+
  have r1: "reachable ext (gc_heap s1) p \<longleftrightarrow> reachable ext (gc_heap s) p" for p
    by (rule kept_reachable [OF s1(5) heap_invD(2,1) [OF H(2)]])
  have c1: "collected env ext rank s s1"
    using s1(5,9,10) r1 sv cycles_registered_same [OF reg s1(5) H s1(6)] by (simp add: collected_def)
  then have reg1: "cycles_registered rank (gc_heap s1)" by (simp add: collected_def)
  obtain s2 where s2: "tracing_rounds env s1 s2" "collected env ext rank s1 s2"
    "cyclic_obj_alloc_at_trace s2 = cyclic_obj_alloc_at_trace s1"
    "stopped ext s2 \<and> (exact ext s1 \<longrightarrow> exact ext s2) \<or> quiet ext s2
        \<and> (exact ext s1 \<longrightarrow> dom (gc_heap s2) = {p. reachable ext (gc_heap s1) p})"
    by (rule mid_rounds [OF s1(2,4) reg1, of env]) (rule that; blast)
  have last: "cyclic_obj_alloc_at_trace s2 = cyclic_obj_alloc s2"
    using s2(2,3) s1(7) by (simp add: collected_def)
  have "syli_state_gc_tracing env s2 = Some (Inr s2)"
    using s2(4) quietD(2) last by (intro tracing_stops) (auto simp: stopped_def tracing_triggered_def)
  then have "syli_state_gc_tracing env s = Some (Inr s2)"
    using tracing_rounds_call [OF tracing_rounds.round [OF s1(1) s2(1)]] by simp
  moreover have "stopped ext s2 \<and> exact ext s2 \<or> quiet ext s2 \<and> dom (gc_heap s2) = {p. reachable ext (gc_heap s) p}"
    using s2(4) s1(3) r1 by auto
  moreover have "cyclic_obj_alloc_at_trace s < cyclic_obj_alloc s" using True by (simp add: tracing_triggered_def)
  ultimately show thesis using that collected_trans [OF c1 s2(2)] last by blast
qed

text \<open>A call that resumes a collection ends it or uses up its budget, and comes closer to the end.\<close>

lemma resume_call:
  assumes mid: "mid_collection ext s" and q: "nothing_queued s" and reg: "cycles_registered rank (gc_heap s)"
    and b: "0 < sint (tracing_budget s)"
    and roots: "stack_values env s vs" "{p. 0 < ext p} = syli_ownership_untag ` {v \<in> set vs. is_own_field v}"
  obtains s' where "syli_state_gc_tracing env s = Some (Inr s')" and "collected env ext rank s s'"
    and "stopped ext s' \<and> (collection_measure s', collection_measure s) \<in> collection_order
          \<and> (exact ext s \<longrightarrow> exact ext s')
       \<or> quiet ext s' \<and> (exact ext s \<longrightarrow> dom (gc_heap s') = {p. reachable ext (gc_heap s) p})"
proof -
  obtain s1 where s1: "tracing_rounds env s s1" "collected env ext rank s s1" "gc_settings s1 = gc_settings s"
    "cyclic_obj_alloc_at_trace s1 = cyclic_obj_alloc_at_trace s"
    "stopped ext s1 \<and> (s1 = s \<or> (collection_measure s1, collection_measure s) \<in> collection_order)
          \<and> (exact ext s \<longrightarrow> exact ext s1)
       \<or> quiet ext s1 \<and> 0 < sint (tracing_budget s1)
          \<and> (exact ext s \<longrightarrow> dom (gc_heap s1) = {p. reachable ext (gc_heap s) p})"
    by (rule mid_rounds [OF mid q reg, of env]) (rule that; blast)
  show thesis
  proof (cases "quiet ext s1 \<and> 0 < sint (tracing_budget s1)")
    case False
    with s1(5) have st: "stopped ext s1" "s1 = s \<or> (collection_measure s1, collection_measure s) \<in> collection_order"
      "exact ext s \<longrightarrow> exact ext s1" by blast+
    then have "s1 \<noteq> s" using b by (auto simp: stopped_def)
    moreover have "syli_state_gc_tracing env s1 = Some (Inr s1)" using st(1) by (simp add: tracing_stops stopped_def)
    ultimately show thesis using that [of s1] st s1(2) tracing_rounds_call [OF s1(1)] by simp
  next
    case True
    have reg1: "cycles_registered rank (gc_heap s1)" using s1(2) by (simp add: collected_def)
    have v1: "stack_values env s1 vs" by (rule stack_values_cong [OF roots(1)]) (use s1(3) in simp_all)
    obtain s2 where s2: "syli_state_gc_tracing env s1 = Some (Inr s2)" "collected env ext rank s1 s2"
      "\<not> tracing_triggered s1 \<and> s2 = s1
       \<or> cyclic_obj_alloc_at_trace s1 < cyclic_obj_alloc s1 \<and> cyclic_obj_alloc_at_trace s2 = cyclic_obj_alloc s2
          \<and> (stopped ext s2 \<and> exact ext s2 \<or> quiet ext s2 \<and> dom (gc_heap s2) = {p. reachable ext (gc_heap s1) p})"
      by (rule quiet_call [OF _ _ reg1 v1 roots(2)]) (use True in blast)+
    have call: "syli_state_gc_tracing env s = Some (Inr s2)"
      using tracing_rounds_call [OF s1(1)] s2(1) by simp
    have r1: "reachable ext (gc_heap s1) p \<longleftrightarrow> reachable ext (gc_heap s) p" for p
      using s1(2) by (simp add: collected_def)
    have "stopped ext s2 \<and> (collection_measure s2, collection_measure s) \<in> collection_order
          \<and> (exact ext s \<longrightarrow> exact ext s2)
       \<or> quiet ext s2 \<and> (exact ext s \<longrightarrow> dom (gc_heap s2) = {p. reachable ext (gc_heap s) p})"
    proof (cases "quiet ext s2")
      case False
      with s2(3) True have new: "cyclic_obj_alloc_at_trace s1 < cyclic_obj_alloc s1"
        "cyclic_obj_alloc_at_trace s2 = cyclic_obj_alloc s2" "stopped ext s2" "exact ext s2" by blast+
      moreover have "cyclic_obj_alloc s1 = cyclic_obj_alloc s" using s1(2) by (simp add: collected_def)
      ultimately show ?thesis using s1(4) by (simp add: collection_measure_def)
    next
      case quiet: True
      have "\<not> stopped ext s1" using True by (simp add: stopped_def)
      with s1(5) have e1: "exact ext s \<longrightarrow> dom (gc_heap s1) = {p. reachable ext (gc_heap s) p}" by blast
      have "\<not> stopped ext s2"
        using quietD(2) [OF quiet] by (simp add: stopped_def mid_collection_def marking_phase_def)
      with s2(3) have "s2 = s1 \<or> dom (gc_heap s2) = {p. reachable ext (gc_heap s) p}" unfolding r1 by blast
      with e1 quiet show ?thesis by auto
    qed
    then show thesis by (rule that [OF call collected_trans [OF s1(2) s2(2)]])
  qed
qed

text \<open>The idle sample of the marking theorems is quiet: one root and a leaf.\<close>

lemma idle_sample_quiet: "quiet one_root idle_sample"
  "cycles_registered (\<lambda>q. if q = 8 then 1 else 0) (gc_heap idle_sample)"
proof -
  let ?p = "set_meta 1 parent_object"
  have h: "gc_heap idle_sample = [8 \<mapsto> ?p, 16 \<mapsto> leaf_object]" by (simp add: idle_sample_def zero_state_def)
  have "torn (gc_heap idle_sample) = {}" "zeros (gc_heap idle_sample) = {}"
    by (auto simp: h torn_def zeros_def parent_object_def leaf_object_def set_meta_def obj_bit_defs
        Meta_Flags_Children_Released_def split: if_splits)
  then show "quiet one_root idle_sample"
    using idle_sample_inv idle_sample_ready idle_sample_marked
    by (simp add: quiet_def) (simp add: idle_sample_def zero_state_def)
  have "own_refs ?p = [17]" "\<not> obj_flag Meta_Flags_Cyclic_Candidate ?p"
    using parent_facts(2) by (simp_all add: set_meta_def obj_bit_defs) (simp add: own_refs_def)
  then show "cycles_registered (\<lambda>q. if q = 8 then 1 else 0) (gc_heap idle_sample)"
    using leaf_facts sample_untag by (auto simp: cycles_registered_def h split: if_splits)
qed


end
