(* ===== verification/GcCycle.thy ===== *)
theory GcCycle
  imports Collection
begin

text \<open>
  One call of \<open>syli_state_gc_cycle\<close>: the releasing collector, then the tracer. Between two
  calls memory is in one of two states. \<open>between\<close>: the tracer is idle, counts are exact, and
  the only objects of count zero are those that wait to be released. \<open>paused\<close>: the tracing
  budget has stopped a collection, which the next call resumes.
\<close>

section \<open>Between two collections\<close>

definition between :: "(u64 \<Rightarrow> nat) \<Rightarrow> Syli_state \<Rightarrow> bool" where
  "between ext s \<longleftrightarrow> rel_inv ext {} s \<and> releasing_sm_ok s \<and> tracing_state s = Tracing_Idle
     \<and> tracing_worklist s = [] \<and> tracing_mutations_worklist s = [] \<and> lost_cycle_worklist s = []
     \<and> torn (gc_heap s) = {}
     \<and> (\<forall>p x. gc_heap s p = Some x \<longrightarrow> obj_marked (tracing_current_bit_mark s) x)"

lemma betweenD:
  assumes "between ext s"
  shows "rel_inv ext {} s" and "releasing_sm_ok s" and "tracing_state s = Tracing_Idle"
    and "tracing_worklist s = []" and "tracing_mutations_worklist s = []" and "lost_cycle_worklist s = []"
    and "torn (gc_heap s) = {}"
    and "\<And>p x. gc_heap s p = Some x \<Longrightarrow> obj_marked (tracing_current_bit_mark s) x"
    and "heap_inv ext {} s"
  using assms by (simp_all add: between_def rel_inv_def)

lemma between_outside [simp]:
  "between ext (s\<lparr>tracing_budget := b\<rparr>) = between ext s"
  "between ext (s\<lparr>releasing_budget := b\<rparr>) = between ext s"
  "between ext (s\<lparr>checking_budget := b\<rparr>) = between ext s"
  "between ext (s\<lparr>BUDGET_GC_TRACING := n\<rparr>) = between ext s"
  "between ext (s\<lparr>BUDGET_GC_RELEASING := n\<rparr>) = between ext s"
  by (simp_all add: between_def rel_inv_def heap_inv_def rel_queue_def releasing_sm_ok_def)

text \<open>A quiet memory is such a state, with nothing waiting; and conversely.\<close>

lemma quiet_between: "quiet ext s \<longleftrightarrow> between ext s \<and> rel_queue s = []"
proof
  assume q: "quiet ext s"
  note Q = quietD [OF q]
  have "dead {} (gc_heap s) = {}" using Q(7) by (fastforce simp: dead_def holders_def zeros_def rc_at_def)
  then have "rel_inv ext {} s" using Q by (simp add: rel_inv_def rel_queue_def)
  with Q show "between ext s \<and> rel_queue s = []" by (simp add: between_def releasing_sm_ok_def rel_queue_def)
next
  assume a: "between ext s \<and> rel_queue s = []"
  then have b: "between ext s" and q: "releasing_worklist s = []" "releasing_waitlist s = []"
    by (simp_all add: rel_queue_def)
  note B = betweenD [OF b]
  have "dead {} (gc_heap s) = {}" using B(1) q by (simp add: rel_inv_def rel_queue_def)
  moreover have "p \<in> dead {} (gc_heap s)" if p: "p \<in> zeros (gc_heap s)" for p
  proof -
    obtain x where x: "gc_heap s p = Some x" "obj_rc x = 0" using p by (auto simp: zeros_def)
    with no_waiting(1) [OF B(9,4) x(1)] show ?thesis by (simp add: dead_def holders_def rc_at_def)
  qed
  moreover have "releasing_state s = Releasing_Idle"
    using B(2) q by (cases "releasing_state s") (simp_all add: releasing_sm_ok_def)
  ultimately show "quiet ext s" using B q by (auto simp: quiet_def)
qed

text \<open>The state between two collections survives whatever keeps the queues and the flags.\<close>

lemma tracer_keptD:
  assumes "tracer_kept s s'"
  shows "tracing_state s' = tracing_state s" and "tracing_current_bit_mark s' = tracing_current_bit_mark s"
    and "tracing_mutations_worklist s' = tracing_mutations_worklist s"
    and "lost_cycle_worklist s' = lost_cycle_worklist s" and "tracing_budget s' = tracing_budget s"
    and "gc_settings s' = gc_settings s" and "current_candidate_check_index s' = current_candidate_check_index s"
    and "suffix_shrinks (cyclic_candidates s) (cyclic_candidates s')"
  using assms by (simp_all add: tracer_kept_def)

lemma tracer_kept_object:
  assumes "tracer_kept s s'" and "heap_shrinks (gc_heap s) (gc_heap s')" and "gc_heap s' p = Some y"
    and "\<not> obj_flag Meta_Flags_Waiting_Remove y"
  obtains x where "gc_heap s p = Some x" and "\<not> obj_flag Meta_Flags_Waiting_Remove x" and "same_fields x y"
    and "obj_kept (tracing_current_bit_mark s) x y"
proof -
  obtain x where x: "gc_heap s p = Some x" "same_fields x y" "\<not> obj_flag Meta_Flags_Waiting_Remove x"
    using heap_shrinksD [OF assms(2,3)] assms(4) by blast
  moreover have "obj_kept (tracing_current_bit_mark s) x y"
    using assms(1,3,4) x(1) unfolding tracer_kept_def objects_kept_def by blast
  ultimately show thesis using that by blast
qed

lemma between_kept:
  assumes "between ext s" and "rel_inv ext' {} s'" and "releasing_sm_ok s'"
    and "heap_shrinks (gc_heap s) (gc_heap s')" and "tracing_worklist s' = tracing_worklist s" and "tracer_kept s s'"
  shows "between ext' s'"
proof -
  note B = betweenD [OF assms(1)] and K = tracer_keptD [OF assms(6)]
  have H: "heap_inv ext' {} s'" using assms(2) by (simp add: rel_inv_def)
  have w: "tracing_worklist s' = []" using assms(5) B(4) by simp
  have flags: "\<not> obj_flag Meta_Flags_Children_Released y \<and> obj_marked (tracing_current_bit_mark s') y"
    if y: "gc_heap s' p = Some y" for p y
  proof -
    obtain x where x: "gc_heap s p = Some x" "obj_kept (tracing_current_bit_mark s) x y"
      by (rule tracer_kept_object [OF assms(6,4) y no_waiting(1) [OF H w y]])
    have "\<not> obj_flag Meta_Flags_Children_Released x" using B(7) x by (auto simp: torn_def)
    with B(8) [OF x(1)] x(2) K(2) show ?thesis unfolding obj_kept_def by simp
  qed
  have "torn (gc_heap s') = {}" using flags by (auto simp: torn_def)
  with assms(2,3) B K w flags show ?thesis by (simp add: between_def)
qed

lemma between_frame:
  assumes "between ext s" and "rel_inv ext' {} s'" and "rel_frame D s s'"
  shows "between ext' s'"
  by (rule between_kept [OF assms(1,2)])
    (use assms(3) betweenD(2) [OF assms(1)] in \<open>simp_all add: rel_frame_def releasing_sm_ok_def\<close>)

section \<open>A paused collection\<close>

definition paused :: "(u64 \<Rightarrow> nat) \<Rightarrow> Syli_state \<Rightarrow> bool" where
  "paused ext s \<longleftrightarrow> rel_inv ext {} s \<and> releasing_sm_ok s \<and> mid_collection ext s"

lemma pausedD:
  assumes "paused ext s"
  shows "rel_inv ext {} s" and "releasing_sm_ok s" and "mid_collection ext s" and "heap_inv ext {} s"
    and "tricolour ext s" and "mutations_ok s" and "lost_cycle_worklist s = []"
    and "torn (gc_heap s) \<inter> holders {} (gc_heap s) = {}" and "checked s"
  using assms mid_collectionD [of ext s] by (simp_all add: paused_def)

lemma mid_collection_outside [simp]:
  "mid_collection ext (s\<lparr>tracing_budget := b\<rparr>) = mid_collection ext s"
  "mid_collection ext (s\<lparr>releasing_budget := b\<rparr>) = mid_collection ext s"
  "mid_collection ext (s\<lparr>checking_budget := b\<rparr>) = mid_collection ext s"
  by (simp_all add: mid_collection_def marking_inv_def heap_inv_def tricolour_def shaded_def pending_def mutations_ok_def
      marking_phase_def checked_def whites_def)

lemma paused_outside [simp]:
  "paused ext (s\<lparr>tracing_budget := b\<rparr>) = paused ext s"
  "paused ext (s\<lparr>releasing_budget := b\<rparr>) = paused ext s"
  "paused ext (s\<lparr>checking_budget := b\<rparr>) = paused ext s"
  by (simp_all add: paused_def rel_inv_def heap_inv_def rel_queue_def releasing_sm_ok_def)

text \<open>A call of the tracer that its budget stops with nothing queued leaves such a state.\<close>

lemma nothing_queued_rel:
  assumes "heap_inv ext {} s" and "nothing_queued s"
  shows "rel_inv ext {} s" and "releasing_sm_ok s" and "rel_queue s = []"
  using assms by (simp_all add: nothing_queued_def rel_inv_def rel_queue_def releasing_sm_ok_def)

lemma stopped_paused: "stopped ext s \<Longrightarrow> paused ext s \<and> rel_queue s = []"
  using nothing_queued_rel [of ext s] mid_collectionD(2) [of ext s] by (simp add: stopped_def paused_def)

lemma paused_nothing_queued:
  assumes "paused ext s" and "rel_queue s = []"
  shows "nothing_queued s"
proof -
  have "releasing_state s = Releasing_Idle"
    using pausedD(2) [OF assms(1)] assms(2) by (cases "releasing_state s") (simp_all add: releasing_sm_ok_def rel_queue_def)
  with pausedD(1) [OF assms(1)] assms(2) show ?thesis by (simp add: nothing_queued_def rel_inv_def rel_queue_def)
qed

text \<open>Work outside the tracer that frees only what nothing refers to keeps the tri-colour invariant.\<close>

lemma tricolour_kept:
  assumes tri: "tricolour ext s" and H: "heap_inv ext' {} s'" and ext: "\<And>p. 0 < ext' p \<Longrightarrow> shaded s p"
    and shr: "heap_shrinks (gc_heap s) (gc_heap s')" and k: "tracer_kept s s'"
  shows "tricolour ext' s'"
proof -
  note K = tracer_keptD [OF k]
  have pend: "pending s' = pending s" using K(3) by (simp add: pending_def)
  have live: "shaded s' p"
    if sh: "shaded s p" and z: "gc_heap s' p = Some z" "\<not> obj_flag Meta_Flags_Waiting_Remove z" for p z
  proof -
    obtain x where x: "gc_heap s p = Some x" "obj_kept (tracing_current_bit_mark s) x z"
      by (rule tracer_kept_object [OF k shr z])
    with sh z K(2) show ?thesis by (auto simp: shaded_def obj_kept_def)
  qed
  show ?thesis
    unfolding tricolour_def
  proof (intro conjI allI impI)
    fix p
    assume e: "0 < ext' p"
    then obtain z where "gc_heap s' p = Some z" "\<not> obj_flag Meta_Flags_Waiting_Remove z"
      using reachable_live [OF H reachable.root [of ext' p]] by blast
    then show "shaded s' p" by (rule live [OF ext [OF e]])
  next
    fix p y v
    assume y: "gc_heap s' p = Some y" "0 < obj_rc y" "obj_marked (tracing_current_bit_mark s') y"
      and np: "p \<notin> pending s'" and v: "v \<in> set (own_refs y)"
    have nw: "\<not> obj_flag Meta_Flags_Waiting_Remove y"
      using heap_invD(2) [OF H] y(1,2) unfolding counts_ok_def by fastforce
    obtain x where x: "gc_heap s p = Some x" "same_fields x y" "obj_kept (tracing_current_bit_mark s) x y"
      by (rule tracer_kept_object [OF k shr y(1) nw])
    have "0 < obj_rc x" "obj_marked (tracing_current_bit_mark s) x"
      using x(3) y(2,3) K(2) by (simp_all add: obj_kept_def)
    moreover have "v \<in> set (own_refs x)" using v same_fields_refs(1) [OF x(2)] by simp
    ultimately have "shaded s (syli_ownership_untag v)"
      using tri x(1) np unfolding tricolour_def pend by blast
    moreover obtain z where "gc_heap s' (syli_ownership_untag v) = Some z" "\<not> obj_flag Meta_Flags_Waiting_Remove z"
      using holder_child_live [OF H y(1) nw v] by blast
    ultimately show "shaded s' (syli_ownership_untag v)" by (rule live)
  qed
qed

lemma checked_kept:
  assumes "checked s" and "heap_inv ext' {} s'" and "heap_shrinks (gc_heap s) (gc_heap s')" and "tracer_kept s s'"
  shows "checked s'"
  unfolding checked_def
proof
  note K = tracer_keptD [OF assms(4)]
  fix v
  assume v': "v \<in> set (drop (unat (current_candidate_check_index s')) (cyclic_candidates s'))"
  then have v: "v \<in> set (drop (unat (current_candidate_check_index s)) (cyclic_candidates s))"
    using K(7,8) unfolding suffix_shrinks_def by auto
  show "syli_ownership_untag v \<notin> whites s'"
  proof
    assume "syli_ownership_untag v \<in> whites s'"
    then obtain y where y: "gc_heap s' (syli_ownership_untag v) = Some y"
      "\<not> obj_marked (tracing_current_bit_mark s') y" by (auto simp: whites_def)
    have "obj_flag Meta_Flags_Cyclic_Candidate y"
      using registry_flag_iff [OF heap_invD(3) [OF assms(2)] y(1)] in_set_dropD [OF v'] by simp
    then have nw: "\<not> obj_flag Meta_Flags_Waiting_Remove y"
      using heap_invD(2) [OF assms(2)] y(1) unfolding counts_ok_def by blast
    obtain x where x: "gc_heap s (syli_ownership_untag v) = Some x" "obj_kept (tracing_current_bit_mark s) x y"
      by (rule tracer_kept_object [OF assms(4,3) y(1) nw])
    then have "\<not> obj_marked (tracing_current_bit_mark s) x" using y(2) K(2) by (auto simp: obj_kept_def)
    with x(1) assms(1) v show False by (auto simp: checked_def whites_def)
  qed
qed

text \<open>A paused collection survives it when the noted targets do.\<close>

lemma paused_kept:
  assumes p: "paused ext s" and r: "rel_inv ext' {} s'" and sm: "releasing_sm_ok s'"
    and shr: "heap_shrinks (gc_heap s) (gc_heap s')" and w: "tracing_worklist s' = tracing_worklist s"
    and k: "tracer_kept s s'" and ext: "\<And>p. 0 < ext' p \<Longrightarrow> shaded s p" and m: "mutations_ok s'"
  shows "paused ext' s'"
proof -
  note P = pausedD [OF p] and K = tracer_keptD [OF k]
  have H: "heap_inv ext' {} s'" using r by (simp add: rel_inv_def)
  have "q \<notin> holders {} (gc_heap s')" if t: "q \<in> torn (gc_heap s')" for q
  proof
    assume "q \<in> holders {} (gc_heap s')"
    then obtain y where y: "gc_heap s' q = Some y" "\<not> obj_flag Meta_Flags_Waiting_Remove y" by (auto simp: holders_def)
    obtain x where x: "gc_heap s q = Some x" "\<not> obj_flag Meta_Flags_Waiting_Remove x"
      "obj_kept (tracing_current_bit_mark s) x y" by (rule tracer_kept_object [OF k shr y])
    then have "q \<in> torn (gc_heap s) \<inter> holders {} (gc_heap s)"
      using t y by (auto simp: torn_def holders_def obj_kept_def)
    with P(8) show False by blast
  qed
  moreover have "marking_inv ext' s'" using H tricolour_kept [OF P(5) H ext shr k] m by (simp add: marking_inv_def)
  moreover have "checked s'" by (rule checked_kept [OF P(9) H shr k])
  moreover have "marking_phase s' \<or> tracing_state s' = Reclaiming_Cyclic_Candidates \<and> tracing_worklist s' = []
      \<and> tracing_mutations_worklist s' = []"
    using P(3) K(1,3) w by (simp add: mid_collection_def marking_phase_def)
  ultimately have "mid_collection ext' s'" using K(4) P(7) unfolding mid_collection_def by auto
  with r sm show ?thesis by (simp add: paused_def)
qed

text \<open>Both states: the collector between two calls, whose noted targets the program still reaches.\<close>

definition ready :: "(u64 \<Rightarrow> nat) \<Rightarrow> Syli_state \<Rightarrow> bool" where
  "ready ext s \<longleftrightarrow> between ext s \<or> paused ext s"

definition noted_reachable :: "(u64 \<Rightarrow> nat) \<Rightarrow> Syli_state \<Rightarrow> bool" where
  "noted_reachable ext s \<longleftrightarrow> (\<forall>v \<in> set (tracing_mutations_worklist s).
     reachable ext (gc_heap s) (syli_ownership_untag v))"

lemma readyD:
  assumes "ready ext s"
  shows "rel_inv ext {} s" and "releasing_sm_ok s" and "heap_inv ext {} s"
  using assms betweenD(1,2,9) pausedD(1,2,4) unfolding ready_def by blast+

lemma ready_kept:
  assumes "ready ext s" and r: "rel_inv ext' {} s'" and "releasing_sm_ok s'" and shr: "heap_shrinks (gc_heap s) (gc_heap s')"
    and "tracing_worklist s' = tracing_worklist s" and k: "tracer_kept s s'"
    and ext: "\<And>p. paused ext s \<Longrightarrow> 0 < ext' p \<Longrightarrow> shaded s p" and m: "paused ext s \<Longrightarrow> mutations_ok s'"
  shows "ready ext' s'"
  using assms(1) between_kept [OF _ r assms(3) shr assms(5) k] paused_kept [OF _ r assms(3) shr assms(5) k _ m] ext
  unfolding ready_def by metis

lemma noted_kept:
  assumes "noted_reachable ext s" and "mutations_ok s" and "heap_inv ext {} s'" and "heap_shrinks (gc_heap s) (gc_heap s')"
    and "tracing_mutations_worklist s' = tracing_mutations_worklist s"
  shows "mutations_ok s'" and "noted_reachable ext s'"
proof -
  note I = heap_invD(2,1) [OF assms(3)]
  have "\<exists>y. gc_heap s' (syli_ownership_untag v) = Some y \<and> \<not> obj_flag Meta_Flags_Waiting_Remove y"
    if "v \<in> set (tracing_mutations_worklist s)" for v
    using assms(1) that reachable_kept [OF _ assms(4) I] unfolding noted_reachable_def by blast
  then show "mutations_ok s'" using assms(2,5) by (simp add: mutations_ok_def)
  show "noted_reachable ext s'"
    using assms(1,5) kept_reachable [OF assms(4) I] by (simp add: noted_reachable_def)
qed

text \<open>The releasing collector goes from one such state to another.\<close>

lemma releasing_ready:
  assumes "ready ext s" and "noted_reachable ext s"
  obtains s' where "syli_state_gc_releasing s = Some (Inr s')" and "ready ext s'" and "releasing_done s'"
    and "heap_shrinks (gc_heap s) (gc_heap s')" and "tracer_kept s s'" and "between ext s \<Longrightarrow> between ext s'"
    and "paused ext s \<Longrightarrow> paused ext s'"
proof -
  note R = readyD [OF assms(1)]
  obtain s' where s': "syli_state_gc_releasing s = Some (Inr s')" "releasing_loop_inv ext s s'" "releasing_done s'"
    using releasing_total [OF R(1,2)] by blast
  have L: "rel_inv ext {} s'" "releasing_sm_ok s'" "heap_shrinks (gc_heap s) (gc_heap s')"
    "tracing_worklist s' = tracing_worklist s" "tracer_kept s s'"
    using s'(2) by (simp_all add: releasing_loop_inv_def)
  have H: "heap_inv ext {} s'" using L(1) by (simp add: rel_inv_def)
  have b: "between ext s'" if "between ext s" by (rule between_kept [OF that L])
  have p: "paused ext s'" if p: "paused ext s"
    by (rule paused_kept [OF p L])
      (use pausedD(5) [OF p] noted_kept(1) [OF assms(2) pausedD(6) [OF p] H L(3) tracer_keptD(3) [OF L(5)]]
        in \<open>auto simp: tricolour_def\<close>)
  have "ready ext s'" using assms(1) b p unfolding ready_def by blast
  with s' L b p show thesis by (intro that)
qed

lemma releasing_empty:
  assumes "rel_queue s = []" and "releasing_sm_ok s"
  shows "syli_state_gc_releasing s = Some (Inr s)"
proof -
  have "releasing_state s = Releasing_Idle" "releasing_waitlist s = []"
    using assms by (cases "releasing_state s"; simp add: releasing_sm_ok_def rel_queue_def)+
  then show ?thesis unfolding syli_state_gc_releasing_def by (intro run_loop_Return) (simp add: releasing_round_def)
qed

lemma releasing_cycles_registered:
  assumes "cycles_registered rank (gc_heap s)" and "heap_shrinks (gc_heap s) (gc_heap s')" and "tracer_kept s s'"
  shows "cycles_registered rank (gc_heap s')"
proof (rule cycles_registered_shrinks [OF assms(1,2)])
  fix p x y
  assume x: "gc_heap s p = Some x" and y: "gc_heap s' p = Some y" "\<not> obj_flag Meta_Flags_Waiting_Remove y"
  obtain x' where "gc_heap s p = Some x'" "obj_kept (tracing_current_bit_mark s) x' y"
    by (rule tracer_kept_object [OF assms(3,2) y])
  with x show "obj_flag Meta_Flags_Cyclic_Candidate y = obj_flag Meta_Flags_Cyclic_Candidate x"
    by (simp add: obj_kept_def)
qed

text \<open>A call of the whole collector that leaves nothing queued for the tracer.\<close>

definition cycle_budgets :: "Syli_state \<Rightarrow> Syli_state" where
  "cycle_budgets s = s\<lparr>tracing_budget := ucast (BUDGET_GC_TRACING s),
     releasing_budget := ucast (BUDGET_GC_RELEASING s), checking_budget := ucast (BUDGET_GC_CHECKING s)\<rparr>"

lemma cycle_budgets_same [simp]:
  "gc_heap (cycle_budgets s) = gc_heap s" "stackmap_record_entry (cycle_budgets s) = stackmap_record_entry s"
  "stackmap_record_entry_len (cycle_budgets s) = stackmap_record_entry_len s"
  "BUDGET_GC_TRACING (cycle_budgets s) = BUDGET_GC_TRACING s"
  "between ext (cycle_budgets s) = between ext s" "paused ext (cycle_budgets s) = paused ext s"
  "ready ext (cycle_budgets s) = ready ext s" "noted_reachable ext (cycle_budgets s) = noted_reachable ext s"
  "rel_queue (cycle_budgets s) = rel_queue s" "releasing_sm_ok (cycle_budgets s) = releasing_sm_ok s"
  "tracing_budget (cycle_budgets s) = ucast (BUDGET_GC_TRACING s)"
  "THRESHOLD_RELEASING_BUCKET (cycle_budgets s) = THRESHOLD_RELEASING_BUCKET s"
  "collection_measure (cycle_budgets s) = collection_measure s" "exact ext (cycle_budgets s) = exact ext s"
  by (simp_all add: cycle_budgets_def ready_def noted_reachable_def rel_queue_def releasing_sm_ok_def
      collection_measure_def phase_measure_def marking_phase_def whites_def exact_def exact_marks_def)

lemma cycle_calls: "syli_state_gc_releasing (cycle_budgets s) = Some (Inr s1)
   \<Longrightarrow> syli_state_gc_cycle env s = syli_state_gc_tracing env s1"
  unfolding syli_state_gc_cycle_def by (simp add: cycle_budgets_def)

text \<open>The tracer after releasing has emptied its queue.\<close>

lemma tracing_after_releasing:
  assumes rd: "ready ext s" and q: "rel_queue s = []" and b: "0 < sint (tracing_budget s)"
    and reg: "cycles_registered rank (gc_heap s)"
    and roots: "stack_values env s vs" "{p. 0 < ext p} = syli_ownership_untag ` {v \<in> set vs. is_own_field v}"
  obtains s' where "syli_state_gc_tracing env s = Some (Inr s')" and "collected env ext rank s s'"
    and "ready ext s'" and "rel_queue s' = []"
    and "between ext s \<Longrightarrow> \<not> tracing_triggered s \<and> s' = s \<or> stopped ext s' \<and> exact ext s'
       \<or> quiet ext s' \<and> dom (gc_heap s') = {p. reachable ext (gc_heap s) p}"
    and "paused ext s \<Longrightarrow> stopped ext s' \<and> (collection_measure s', collection_measure s) \<in> collection_order
          \<and> (exact ext s \<longrightarrow> exact ext s')
       \<or> quiet ext s' \<and> (exact ext s \<longrightarrow> dom (gc_heap s') = {p. reachable ext (gc_heap s) p})"
proof -
  have fin: "ready ext t \<and> rel_queue t = []" if "stopped ext t \<or> quiet ext t" for t
    using that stopped_paused [of ext t] by (auto simp: ready_def quiet_between)
  show thesis
  proof (cases "between ext s")
    case True
    then have np: "\<not> paused ext s"
      using betweenD(3) by (auto simp: paused_def mid_collection_def marking_phase_def)
    have "quiet ext s" using True q by (simp add: quiet_between)
    then obtain s' where s': "syli_state_gc_tracing env s = Some (Inr s')" "collected env ext rank s s'"
      "\<not> tracing_triggered s \<and> s' = s
       \<or> cyclic_obj_alloc_at_trace s < cyclic_obj_alloc s \<and> cyclic_obj_alloc_at_trace s' = cyclic_obj_alloc s'
          \<and> (stopped ext s' \<and> exact ext s' \<or> quiet ext s' \<and> dom (gc_heap s') = {p. reachable ext (gc_heap s) p})"
      by (rule quiet_call [OF _ b reg roots])
    moreover have "ready ext s' \<and> rel_queue s' = []" using s'(3) fin rd q by blast
    ultimately show thesis using np by (intro that) blast+
  next
    case False
    then have p: "paused ext s" using rd by (simp add: ready_def)
    obtain s' where s': "syli_state_gc_tracing env s = Some (Inr s')" "collected env ext rank s s'"
      "stopped ext s' \<and> (collection_measure s', collection_measure s) \<in> collection_order
          \<and> (exact ext s \<longrightarrow> exact ext s')
       \<or> quiet ext s' \<and> (exact ext s \<longrightarrow> dom (gc_heap s') = {p. reachable ext (gc_heap s) p})"
      by (rule resume_call [OF pausedD(3) [OF p] paused_nothing_queued [OF p q] reg b roots])
    moreover have "ready ext s' \<and> rel_queue s' = []" using s'(3) fin by blast
    ultimately show thesis using False by (intro that) blast+
  qed
qed

lemma cycle_call:
  assumes rd: "ready ext s" and n: "noted_reachable ext s" and th: "THRESHOLD_RELEASING_BUCKET s = 0"
    and b: "0 < sint (ucast (BUDGET_GC_TRACING s) :: u32)"
    and roots: "stack_values env s vs" "{p. 0 < ext p} = syli_ownership_untag ` {v \<in> set vs. is_own_field v}"
    and reg: "cycles_registered rank (gc_heap s)"
    and rel: "syli_state_gc_releasing (cycle_budgets s) = Some (Inr s1)" "0 < sint (releasing_budget s1)"
  obtains s' where "syli_state_gc_cycle env s = Some (Inr s')" and "heap_shrinks (gc_heap s) (gc_heap s')"
    and "\<forall>p. reachable ext (gc_heap s') p \<longleftrightarrow> reachable ext (gc_heap s) p" and "cycles_registered rank (gc_heap s')"
    and "BUDGET_GC_TRACING s' = BUDGET_GC_TRACING s" and "stack_values env s' vs"
    and "ready ext s'" and "rel_queue s' = []"
    and "between ext s \<Longrightarrow> \<not> tracing_triggered s1 \<and> s' = s1 \<or> stopped ext s' \<and> exact ext s'
       \<or> quiet ext s' \<and> dom (gc_heap s') = {p. reachable ext (gc_heap s) p}"
    and "paused ext s \<Longrightarrow> stopped ext s' \<or> quiet ext s'" and "between ext s \<Longrightarrow> between ext s1"
proof -
  let ?s0 = "cycle_budgets s"
  obtain s1' where s1': "syli_state_gc_releasing ?s0 = Some (Inr s1')" "ready ext s1'" "releasing_done s1'"
    "heap_shrinks (gc_heap ?s0) (gc_heap s1')" "tracer_kept ?s0 s1'"
    "between ext s \<longrightarrow> between ext s1'" "paused ext s \<longrightarrow> paused ext s1'"
    by (rule releasing_ready [of ext ?s0]) (use rd n in auto)
  then have eq: "s1' = s1" using rel(1) by simp
  note s1 = s1' [unfolded eq] and K = tracer_keptD [OF s1' (5) [unfolded eq]]
  have H1: "heap_inv ext {} s1" by (rule readyD(3) [OF s1(2)])
  have r1: "reachable ext (gc_heap s1) p \<longleftrightarrow> reachable ext (gc_heap s) p" for p
    using kept_reachable [OF s1(4) heap_invD(2,1) [OF H1]] by simp
  have b1: "0 < sint (tracing_budget s1)" using K(5) b by simp
  have v1: "stack_values env s1 vs" by (rule stack_values_cong [OF roots(1)]) (use K(6) in simp_all)
  have reg1: "cycles_registered rank (gc_heap s1)"
    by (rule releasing_cycles_registered [OF _ s1(4,5)]) (simp add: reg)
  have "releasing_state s1 = Releasing_Idle" "releasing_waitlist s1 = []"
    using s1(3) K(6) th rel(2) by (auto simp: releasing_done_def)
  then have q1: "rel_queue s1 = []" using readyD(2) [OF s1(2)] by (simp add: rel_queue_def releasing_sm_ok_def)
  obtain s' where s': "syli_state_gc_tracing env s1 = Some (Inr s')" "collected env ext rank s1 s'"
    "ready ext s'" "rel_queue s' = []"
    "between ext s1 \<longrightarrow> \<not> tracing_triggered s1 \<and> s' = s1 \<or> stopped ext s' \<and> exact ext s'
       \<or> quiet ext s' \<and> dom (gc_heap s') = {p. reachable ext (gc_heap s1) p}"
    "paused ext s1 \<longrightarrow> stopped ext s' \<or> quiet ext s'"
    by (rule tracing_after_releasing [OF s1(2) q1 b1 reg1 v1 roots(2)]) blast
  have c: "heap_shrinks (gc_heap s1) (gc_heap s') \<and> BUDGET_GC_TRACING s' = BUDGET_GC_TRACING s1 \<and> stack_values env s' vs \<and> (\<forall>p. reachable ext (gc_heap s') p \<longleftrightarrow> reachable ext (gc_heap s1) p) \<and> cycles_registered rank (gc_heap s')"
    using s'(2) v1 by (simp add: collected_def)
  show thesis
  proof (rule that [of s'])
    show "syli_state_gc_cycle env s = Some (Inr s')" by (simp add: cycle_calls [OF rel(1)] s'(1))
  next
    show "heap_shrinks (gc_heap s) (gc_heap s')" using heap_shrinks_trans [OF s1(4)] c by simp
  qed (use s' s1(6,7) c r1 K(6) in simp_all)
qed

section \<open>Calls in a row\<close>

fun gc_calls :: "nat \<Rightarrow> 'c roots_env \<Rightarrow> Syli_state \<Rightarrow> Syli_state result option" where
  "gc_calls 0 env s = Some (Inr s)"
| "gc_calls (Suc n) env s = (case syli_state_gc_cycle env s of
     Some (Inr t) \<Rightarrow> gc_calls n env t
   | r \<Rightarrow> r)"

lemma calls_complete:
  assumes "paused ext s" and "rel_queue s = []" and "0 < sint (ucast (BUDGET_GC_TRACING s) :: u32)"
    and "stack_values env s vs" and "cycles_registered rank (gc_heap s)"
    and roots: "{p. 0 < ext p} = syli_ownership_untag ` {v \<in> set vs. is_own_field v}"
  shows "\<exists>n s'. gc_calls n env s = Some (Inr s') \<and> between ext s' \<and> rel_queue s' = []
     \<and> (\<forall>p. reachable ext (gc_heap s') p \<longleftrightarrow> reachable ext (gc_heap s) p)
     \<and> (exact ext s \<longrightarrow> dom (gc_heap s') = {p. reachable ext (gc_heap s) p})"
proof -
  have "wf collection_order" by auto
  then have "wf (inv_image collection_order collection_measure)" by (rule wf_inv_image)
  then show ?thesis using assms(1-5)
  proof (induction s rule: wf_induct_rule)
    case (less s)
    let ?s0 = "cycle_budgets s"
    have p0: "paused ext ?s0" "ready ext ?s0" "rel_queue ?s0 = []" using less.prems(1,2) by (simp_all add: ready_def)
    have v0: "stack_values env ?s0 vs" by (rule stack_values_cong [OF less.prems(4)]) simp_all
    obtain s1 where s1: "syli_state_gc_tracing env ?s0 = Some (Inr s1)" "collected env ext rank ?s0 s1"
      "rel_queue s1 = []" "stopped ext s1 \<and> (collection_measure s1, collection_measure ?s0) \<in> collection_order
          \<and> (exact ext ?s0 \<longrightarrow> exact ext s1)
       \<or> quiet ext s1 \<and> (exact ext ?s0 \<longrightarrow> dom (gc_heap s1) = {p. reachable ext (gc_heap ?s0) p})"
      by (rule tracing_after_releasing [OF p0(2,3) _ _ v0 roots, where rank = rank]) (use less.prems p0 in simp_all)
    have call: "syli_state_gc_cycle env s = Some (Inr s1)"
      using cycle_calls [OF releasing_empty [OF p0(3) pausedD(2) [OF p0(1)]], where env = env] s1(1) by simp
    have r1: "reachable ext (gc_heap s1) p \<longleftrightarrow> reachable ext (gc_heap s) p" for p
      using s1(2) by (simp add: collected_def)
    show ?case
    proof (cases "quiet ext s1")
      case True
      then have "gc_calls 1 env s = Some (Inr s1)" "between ext s1" using call by (simp_all add: quiet_between)
      moreover have "exact ext s \<longrightarrow> dom (gc_heap s1) = {p. reachable ext (gc_heap s) p}"
      proof
        assume "exact ext s"
        moreover have "\<not> stopped ext s1"
          using quietD(2) [OF True] by (simp add: stopped_def mid_collection_def marking_phase_def)
        ultimately show "dom (gc_heap s1) = {p. reachable ext (gc_heap s) p}" using s1(4) by simp
      qed
      ultimately show ?thesis using s1(3) r1 by blast
    next
      case False
      then have st: "stopped ext s1" "(s1, s) \<in> inv_image collection_order collection_measure"
        "exact ext s \<longrightarrow> exact ext s1" using s1(4) by simp_all
      have "0 < sint (ucast (BUDGET_GC_TRACING s1) :: u32)" "cycles_registered rank (gc_heap s1)" "stack_values env s1 vs"
        using s1(2) less.prems(3) v0 by (simp_all add: collected_def)
      then obtain n s' where n: "gc_calls n env s1 = Some (Inr s')" "between ext s'" "rel_queue s' = []"
        "\<forall>p. reachable ext (gc_heap s') p \<longleftrightarrow> reachable ext (gc_heap s1) p"
        "exact ext s1 \<longrightarrow> dom (gc_heap s') = {p. reachable ext (gc_heap s1) p}"
        using less.IH [OF st(2)] stopped_paused [OF st(1)] s1(3) by blast
      have "gc_calls (Suc n) env s = Some (Inr s')" using call n(1) by simp
      moreover have "exact ext s \<longrightarrow> dom (gc_heap s') = {p. reachable ext (gc_heap s) p}" using n(5) st(3) r1 by simp
      ultimately show ?thesis using n(2-4) r1 by blast
    qed
  qed
qed

section \<open>Properties\<close>

text \<open>C3: a whole call of the collector, from a state between two collections or with a collection paused,
  with threshold zero, a positive tracing budget, everything noted by the barrier still reachable, the program's
  references located by the stack map, and every cycle through a registered candidate, none of
  which references itself. Releasing returns and keeps the invariant. If it has left budget, the whole call returns,
  reachability is as before, everything reachable is still allocated, and either no
  collection was due, or the tracing budget has paused a collection, or the collection has
  ended, with exactly the reachable objects left when the call began between two collections. (When releasing has used up
  its budget nothing is said of the tracer, which may fail: \<open>backlog_candidate_freed\<close>.)\<close>

theorem gc_cycle_reclaims:
  assumes "ready ext s" and "noted_reachable ext s" and "THRESHOLD_RELEASING_BUCKET s = 0"
    and "0 < sint (ucast (BUDGET_GC_TRACING s) :: u32)"
    and "stack_values env s vs" and "{p. 0 < ext p} = syli_ownership_untag ` {v \<in> set vs. is_own_field v}"
    and "cycles_registered rank (gc_heap s)"
  shows "\<exists>s1. syli_state_gc_releasing (cycle_budgets s) = Some (Inr s1) \<and> ready ext s1
     \<and> (0 < sint (releasing_budget s1) \<longrightarrow>
        (\<exists>s'. syli_state_gc_cycle env s = Some (Inr s')
         \<and> (\<forall>p. reachable ext (gc_heap s') p \<longleftrightarrow> reachable ext (gc_heap s) p)
         \<and> {p. reachable ext (gc_heap s') p} \<subseteq> dom (gc_heap s')
         \<and> (\<not> tracing_triggered s1 \<and> s' = s1 \<and> between ext s'
            \<or> sint (tracing_budget s') \<le> 0 \<and> paused ext s'
            \<or> between ext s' \<and> (between ext s \<longrightarrow> dom (gc_heap s') = {p. reachable ext (gc_heap s) p}))))"
proof -
  have "ready ext (cycle_budgets s)" "noted_reachable ext (cycle_budgets s)" using assms(1,2) by simp_all
  then obtain s1 where s1: "syli_state_gc_releasing (cycle_budgets s) = Some (Inr s1)" "ready ext s1"
    by (rule releasing_ready)
  have "\<exists>s'. syli_state_gc_cycle env s = Some (Inr s')
         \<and> (\<forall>p. reachable ext (gc_heap s') p \<longleftrightarrow> reachable ext (gc_heap s) p)
         \<and> {p. reachable ext (gc_heap s') p} \<subseteq> dom (gc_heap s')
         \<and> (\<not> tracing_triggered s1 \<and> s' = s1 \<and> between ext s'
            \<or> sint (tracing_budget s') \<le> 0 \<and> paused ext s'
            \<or> between ext s' \<and> (between ext s \<longrightarrow> dom (gc_heap s') = {p. reachable ext (gc_heap s) p}))"
    if b: "0 < sint (releasing_budget s1)"
  proof -
    obtain s' where s': "syli_state_gc_cycle env s = Some (Inr s')" "ready ext s'"
      "\<forall>p. reachable ext (gc_heap s') p \<longleftrightarrow> reachable ext (gc_heap s) p"
      and fin: "between ext s \<longrightarrow> \<not> tracing_triggered s1 \<and> s' = s1 \<or> stopped ext s' \<and> exact ext s'
       \<or> quiet ext s' \<and> dom (gc_heap s') = {p. reachable ext (gc_heap s) p}"
      "paused ext s \<longrightarrow> stopped ext s' \<or> quiet ext s'" "between ext s \<longrightarrow> between ext s1"
      by (rule cycle_call [OF assms s1(1) b]) blast
    have "{p. reachable ext (gc_heap s') p} \<subseteq> dom (gc_heap s')"
      using reachable_live [OF readyD(3) [OF s'(2)]] by blast
    moreover have "\<not> tracing_triggered s1 \<and> s' = s1 \<and> between ext s' \<or> sint (tracing_budget s') \<le> 0 \<and> paused ext s'
        \<or> between ext s' \<and> (between ext s \<longrightarrow> dom (gc_heap s') = {p. reachable ext (gc_heap s) p})"
      using fin assms(1) stopped_paused [of ext s'] unfolding ready_def quiet_between stopped_def by blast
    ultimately show ?thesis using s' by blast
  qed
  with s1 show ?thesis by blast
qed

text \<open>The idle sample of the marking theorems, with budgets.\<close>

definition cycle_sample :: Syli_state where
  "cycle_sample = idle_sample\<lparr>BUDGET_GC_TRACING := BUDGET_BATCH_SIZE, BUDGET_GC_RELEASING := BUDGET_BATCH_SIZE\<rparr>"

lemma cycle_sample_between: "between one_root cycle_sample"
proof -
  have "between one_root idle_sample" using idle_sample_quiet(1) by (simp add: quiet_between)
  then show ?thesis
    by (simp add: cycle_sample_def)
qed

theorem gc_cycle_reclaims_witness:
  "\<exists>s'. syli_state_gc_cycle root_env cycle_sample = Some (Inr s') \<and> gc_heap s' 8 \<noteq> None"
proof -
  let ?s0 = "cycle_budgets cycle_sample"
  have b: "0 < sint (ucast (BUDGET_GC_TRACING cycle_sample) :: u32)"
    "0 < sint (releasing_budget ?s0)" "THRESHOLD_RELEASING_BUCKET cycle_sample = 0"
    by (simp_all add: cycle_budgets_def cycle_sample_def idle_sample_def zero_state_def BUDGET_BATCH_SIZE_def)
  have "releasing_round ?s0 = Inr (Return ?s0)"
    using b(2) quietD(9,11) [OF idle_sample_quiet(1)] by (simp add: releasing_round_def cycle_budgets_def cycle_sample_def)
  then have r: "syli_state_gc_releasing ?s0 = Some (Inr ?s0)" by (simp add: syli_state_gc_releasing_def run_loop_Return)
  have v: "stack_values root_env cycle_sample [9]"
    by (rule stack_values_cong [OF idle_sample_roots(1)]) (simp_all add: cycle_sample_def)
  have "reachable one_root (gc_heap cycle_sample) 8" by (rule reachable.root) simp
  moreover have "cycles_registered (\<lambda>q. if q = 8 then 1 else 0) (gc_heap cycle_sample)"
    using idle_sample_quiet(2) by (simp add: cycle_sample_def)
  moreover have "ready one_root cycle_sample" "noted_reachable one_root cycle_sample"
    using cycle_sample_between betweenD(5) [OF cycle_sample_between] by (simp_all add: ready_def noted_reachable_def)
  ultimately show ?thesis
    using gc_cycle_reclaims [of one_root cycle_sample root_env "[9]"] b v idle_sample_ready(8) r by fastforce
qed

text \<open>C39: a paused collection is completed by calling the collector often enough, when nothing is queued for
  release, the tracing budget is positive, the program's references are located by the stack map and every cycle runs
  through a registered candidate, none of which references itself: the
  calls return without an error, and after finitely many of them memory is in the state
  between two collections, with nothing queued and the same reachable objects, and with
  nothing else allocated when only reachable objects are marked and nothing is noted (as when the
  program has not run since the collection began).\<close>

theorem collection_completes:
  assumes "paused ext s" and "rel_queue s = []" and "0 < sint (ucast (BUDGET_GC_TRACING s) :: u32)"
    and "stack_values env s vs" and "{p. 0 < ext p} = syli_ownership_untag ` {v \<in> set vs. is_own_field v}"
    and "cycles_registered rank (gc_heap s)"
  shows "\<exists>n s'. gc_calls n env s = Some (Inr s') \<and> between ext s' \<and> rel_queue s' = []
     \<and> (\<forall>p. reachable ext (gc_heap s') p \<longleftrightarrow> reachable ext (gc_heap s) p)
     \<and> {p. reachable ext (gc_heap s) p} \<subseteq> dom (gc_heap s')
     \<and> (exact ext s \<longrightarrow> dom (gc_heap s') = {p. reachable ext (gc_heap s) p})"
proof -
  obtain n s' where s': "gc_calls n env s = Some (Inr s')" "between ext s'" "rel_queue s' = []"
     "\<forall>p. reachable ext (gc_heap s') p \<longleftrightarrow> reachable ext (gc_heap s) p"
     "exact ext s \<longrightarrow> dom (gc_heap s') = {p. reachable ext (gc_heap s) p}"
    using calls_complete [OF assms(1-4,6,5)] by blast
  with reachable_live [OF betweenD(9) [OF s'(2)]] show ?thesis by blast
qed

text \<open>The marking sample with its budget used up.\<close>

definition paused_sample :: Syli_state where
  "paused_sample = marking_sample\<lparr>tracing_budget := 0, BUDGET_GC_TRACING := BUDGET_BATCH_SIZE\<rparr>"

lemma paused_sample_heap: "gc_heap paused_sample = [8 \<mapsto> root_object, 16 \<mapsto> leaf_object]"
  by (simp add: paused_sample_def marking_sample_def zero_state_def)

lemma paused_sample_paused: "paused one_root paused_sample" "rel_queue paused_sample = []"
proof -
  have f: "lost_cycle_worklist paused_sample = []" "releasing_state paused_sample = Releasing_Idle"
    "cyclic_candidates paused_sample = []" and q: "rel_queue paused_sample = []"
    by (simp_all add: paused_sample_def marking_sample_def zero_state_def rel_queue_def)
  have m: "marking_inv one_root paused_sample" "marking_phase paused_sample"
    using marking_sample_inv by (simp_all add: paused_sample_def marking_inv_def heap_inv_def tricolour_def shaded_def
        pending_def mutations_ok_def marking_phase_def)
  have "\<not> obj_flag Meta_Flags_Children_Released root_object" "\<not> obj_flag Meta_Flags_Children_Released leaf_object"
    by (simp_all add: root_object_def leaf_object_def obj_bit_defs set_meta_def Meta_Flags_Children_Released_def)
  then have "torn (gc_heap paused_sample) = {}" by (auto simp: torn_def paused_sample_heap split: if_splits)
  then have mid: "mid_collection one_root paused_sample"
    using m f by (simp add: mid_collection_def checked_def)
  have "dead {} (gc_heap paused_sample) = {}"
    using root_facts(3) leaf_facts by (auto simp: dead_def holders_def rc_at_def paused_sample_heap split: if_splits)
  then have "nothing_queued paused_sample" using q f(2) by (simp add: nothing_queued_def rel_queue_def)
  from nothing_queued_rel [OF mid_collectionD(2) [OF mid] this] mid
  show "paused one_root paused_sample" "rel_queue paused_sample = []" by (simp_all add: paused_def)
qed

lemma paused_sample_registered: "cycles_registered (\<lambda>q. if q = 8 then 1 else 0) (gc_heap paused_sample)"
  using root_facts leaf_facts sample_untag by (auto simp: cycles_registered_def paused_sample_heap split: if_splits)

theorem collection_completes_witness:
  "\<exists>n s'. gc_calls n root_env paused_sample = Some (Inr s') \<and> between one_root s' \<and> gc_heap s' 8 \<noteq> None"
proof -
  have b: "0 < sint (ucast (BUDGET_GC_TRACING paused_sample) :: u32)"
    by (simp add: paused_sample_def BUDGET_BATCH_SIZE_def)
  have v: "stack_values root_env paused_sample [9]"
    by (rule stack_values_cong [OF idle_sample_roots(1)])
      (simp_all add: paused_sample_def marking_sample_def idle_sample_def zero_state_def)
  have "reachable one_root (gc_heap paused_sample) 8" by (rule reachable.root) simp
  with collection_completes [OF paused_sample_paused b v idle_sample_ready(8) paused_sample_registered]
  show ?thesis by blast
qed

end
