(* ===== verification/Runtime.thy ===== *)
theory Runtime
  imports GcCycle
begin

text \<open>
  The entry points of \<open>runtime/src/syli.c\<close> that compiled code calls: allocation, reference
  counts, the write barrier and the operations on ownership-tagged references. \<open>malloc_ptr\<close>
  and \<open>junk\<close> are what \<open>malloc\<close> returns: an address and the contents of the new block. The
  theorems say how each operation moves the invariants of the collectors: \<open>ext\<close> counts the
  references the program holds.
\<close>

section \<open>Allocation and reference counts\<close>

text \<open>\<open>memset\<close> of the first \<open>n\<close> bytes of a payload of 8-byte cells (little endian).\<close>

definition clear_bytes :: "nat \<Rightarrow> u64 list \<Rightarrow> u64 list" where
  "clear_bytes n vs = map (\<lambda>i.
     if 8 * (i + 1) \<le> n then 0
     else if n \<le> 8 * i then vs ! i
     else vs ! i AND NOT (mask (8 * (n - 8 * i)))) [0..<length vs]"

definition memset_value :: "u64 \<Rightarrow> u64 \<Rightarrow> nat \<Rightarrow> heap \<Rightarrow> heap result" where
  "memset_value obj data_bytes block_bytes h =
     and_then (deref obj h) (\<lambda>x.
     if 16 + unat data_bytes \<le> block_bytes
     then Inr (h(obj \<mapsto> x\<lparr>obj_value := clear_bytes (unat data_bytes) (obj_value x)\<rparr>))
     else Inl OutOfBounds)"

definition syli_rt_rc_alloc_object ::
    "u64 \<Rightarrow> (nat \<Rightarrow> u64) \<Rightarrow> u64 \<Rightarrow> u64 \<Rightarrow> u64 \<Rightarrow> Syli_state \<Rightarrow> (u64 \<times> Syli_state) result" where
  "syli_rt_rc_alloc_object malloc_ptr junk header refcount len s =
     (let meta = refcount OR tracing_current_bit_mark s in
      and_then (syli_object_alloc malloc_ptr junk header meta len (gc_heap s)) (\<lambda>(obj, h).
      let unit_shift = unat (drop_bit GC_UNIT_SHIFT_BITS (header AND GC_UNIT_MASK));
          data_bytes = push_bit unit_shift len in
      and_then (memset_value obj data_bytes (unat (object_block_bytes header len)) h) (\<lambda>h.
      Inr (obj, s\<lparr>gc_heap := h\<rparr>))))"

definition syli_rt_object_incr :: "u64 \<Rightarrow> Syli_state \<Rightarrow> Syli_state result" where
  "syli_rt_object_incr obj s =
     and_then (deref obj (gc_heap s)) (\<lambda>x.
     let zone = syli_object_get_zone (header_word x) in
     if zone = Zone_Static then Inr s
     else if zone = Zone_GcLocal then on_heap (write_meta obj (meta_ref_count x + 1)) s
     else Inr s)"

definition syli_rt_object_decr :: "u64 \<Rightarrow> obj_ptr \<Rightarrow> Syli_state \<Rightarrow> Syli_state result" where
  "syli_rt_object_decr obj obj_p s =
     check (obj \<noteq> 0) (and_then (deref obj (gc_heap s)) (\<lambda>x.
     let zone = syli_object_get_zone (header_word x) in
     if zone = Zone_Static then Inr s
     else if zone = Zone_GcLocal then
       and_then (on_heap (write_meta obj (meta_ref_count x - 1)) s) (\<lambda>s.
       and_then (syli_object_refcount obj (gc_heap s)) (\<lambda>rc.
       if rc = 0 then
         if syli_object_is_mono_imm (header_word x) then
           on_heap (free_block obj) (s\<lparr>total_objects_freed := total_objects_freed s + 1\<rparr>)
         else gc_releasing_worklist_push obj_p s
       else Inr s))
     else Inr s))"

text \<open>\<open>n\<close> is an \<open>int\<close>, converted to \<open>size_t\<close> by sign extension.\<close>

definition syli_rt_object_decr_n :: "u64 \<Rightarrow> u32 \<Rightarrow> Syli_state \<Rightarrow> Syli_state result" where
  "syli_rt_object_decr_n obj n s =
     and_then (deref obj (gc_heap s)) (\<lambda>x.
     let zone = syli_object_get_zone (header_word x) in
     if zone = Zone_Static then Inr s
     else if zone = Zone_GcLocal then on_heap (syli_object_decr_local_n obj (scast n)) s
     else Inr s)"

section \<open>Reading an object, match failure\<close>

definition syli_rt_get_object_tag :: "u64 \<Rightarrow> Syli_state \<Rightarrow> u64 result" where
  "syli_rt_get_object_tag obj s =
     check (obj \<noteq> 0) (and_then (deref obj (gc_heap s)) (\<lambda>x.
     Inr (syli_object_get_variant_tag (header_word x))))"

definition syli_rt_get_object_length :: "u64 \<Rightarrow> Syli_state \<Rightarrow> u64 result" where
  "syli_rt_get_object_length obj s =
     check (obj \<noteq> 0) (let raw = obj AND NOT 3 in
     and_then (deref raw (gc_heap s)) (\<lambda>x. syli_object_length (header_word x)))"

definition syli_rt_get_object_size :: "u64 \<Rightarrow> Syli_state \<Rightarrow> u64 result" where
  "syli_rt_get_object_size obj s =
     check (obj \<noteq> 0) (let raw = obj AND NOT 3 in
     and_then (deref raw (gc_heap s)) (\<lambda>x. syli_object_size_bytes (header_word x)))"

definition syli_match_failure :: "Syli_state \<Rightarrow> Syli_state result" where
  "syli_match_failure s = Inl Aborted"

section \<open>The write barrier and the collector\<close>

definition syli_rt_object_notify_mutation ::
    "u64 \<Rightarrow> u64 \<Rightarrow> obj_ptr \<Rightarrow> Syli_state \<Rightarrow> Syli_state result" where
  "syli_rt_object_notify_mutation obj target target_ptr s =
     check (obj \<noteq> 0 \<and> target \<noteq> 0)
     (and_then (gc_is_object_mark_tagged obj s) (\<lambda>marked.
      if \<not> marked then Inr s
      else and_then (deref obj (gc_heap s)) (\<lambda>x.
      if \<not> syli_object_is_traceable (header_word x) then Inr s
      else and_then (gc_is_object_mark_tagged target s) (\<lambda>target_marked.
      if target_marked then Inr s
      else and_then (gc_mark_tag_object target s) (\<lambda>s.
        Inr (s\<lparr>tracing_mutations_worklist :=
                 gc_vector_push_back (tracing_mutations_worklist s) target_ptr\<rparr>))))))"

definition syli_rt_gc_cycle :: "'c roots_env \<Rightarrow> Syli_state \<Rightarrow> Syli_state result option" where
  "syli_rt_gc_cycle env s = syli_state_gc_cycle env s"

section \<open>Ownership-tagged references\<close>

definition syli_rt_ownership_alloc_object ::
    "u64 \<Rightarrow> (nat \<Rightarrow> u64) \<Rightarrow> u64 \<Rightarrow> u64 \<Rightarrow> u64 \<Rightarrow> Syli_state \<Rightarrow> (obj_ptr \<times> Syli_state) result" where
  "syli_rt_ownership_alloc_object malloc_ptr junk header refcount len s =
     and_then (syli_rt_rc_alloc_object malloc_ptr junk header refcount len s) (\<lambda>(obj, s).
     let ptr = syli_ownership_set_own obj in
     and_then (deref obj (gc_heap s)) (\<lambda>x.
     if syli_object_is_cyclic (header_word x) then
       and_then (syli_object_total_bytes (header_word x)) (\<lambda>bytes.
       let s = s\<lparr>cyclic_mem_alloc := cyclic_mem_alloc s + bytes, cyclic_obj_alloc := cyclic_obj_alloc s + 1\<rparr> in
       and_then (when_r (syli_object_is_cyclic_mutable (header_word x)) (gc_register_candidate ptr) s) (\<lambda>s.
       Inr (ptr, s)))
     else Inr (ptr, s)))"

definition syli_rt_ownership_share :: "obj_ptr \<Rightarrow> Syli_state \<Rightarrow> (obj_ptr \<times> Syli_state) result" where
  "syli_rt_ownership_share ptr s =
     check (\<not> syli_ownership_is_always_borrow ptr) (check (\<not> syli_ownership_is_immediate ptr)
     (let obj = syli_ownership_untag ptr in
      check (obj \<noteq> 0) (and_then (syli_rt_object_incr obj s) (\<lambda>s. Inr (syli_ownership_set_own ptr, s)))))"

definition syli_rt_ownership_decr :: "obj_ptr \<Rightarrow> Syli_state \<Rightarrow> Syli_state result" where
  "syli_rt_ownership_decr ptr s =
     check (\<not> syli_ownership_is_always_borrow ptr) (check (\<not> syli_ownership_is_immediate ptr)
     (check (syli_ownership_is_own_ref ptr)
     (let obj = syli_ownership_untag ptr in
      check (obj \<noteq> 0) (syli_rt_object_decr obj ptr s))))"

definition syli_rt_ownership_untag :: "obj_ptr \<Rightarrow> obj_ptr" where
  "syli_rt_ownership_untag ptr = syli_ownership_untag ptr"

definition syli_rt_ownership_incr :: "obj_ptr \<Rightarrow> Syli_state \<Rightarrow> Syli_state result" where
  "syli_rt_ownership_incr ptr s =
     check (\<not> syli_ownership_is_always_borrow ptr) (check (\<not> syli_ownership_is_immediate ptr)
     (check (syli_ownership_is_own_ref ptr)
     (let obj = syli_ownership_untag ptr in
      check (obj \<noteq> 0) (syli_rt_object_incr obj s))))"

definition syli_rt_ownership_notify_mutation :: "obj_ptr \<Rightarrow> obj_ptr \<Rightarrow> Syli_state \<Rightarrow> Syli_state result" where
  "syli_rt_ownership_notify_mutation ptr target_ptr s =
     check (\<not> syli_ownership_is_immediate ptr)
     (if \<not> syli_ownership_is_own_ref ptr then Inr s
      else
        let obj = syli_object_of_obj_ptr ptr in
        if tracing_state s = Tracing \<or> tracing_state s = Mutation_Prepare then
          let target = syli_object_of_obj_ptr target_ptr in
          syli_rt_object_notify_mutation obj target target_ptr s
        else Inr s)"

definition syli_rt_ownership_release :: "obj_ptr \<Rightarrow> Syli_state \<Rightarrow> Syli_state result" where
  "syli_rt_ownership_release ptr s =
     check (\<not> syli_ownership_is_always_borrow ptr) (check (\<not> syli_ownership_is_immediate ptr)
     (if syli_ownership_is_own_ref ptr then
        let obj = syli_ownership_untag ptr in
        check (obj \<noteq> 0) (syli_rt_object_decr obj ptr s)
      else Inr s))"

definition syli_rt_ownership_own :: "obj_ptr \<Rightarrow> Syli_state \<Rightarrow> (obj_ptr \<times> Syli_state) result" where
  "syli_rt_ownership_own ptr s =
     check (\<not> syli_ownership_is_always_borrow ptr) (check (\<not> syli_ownership_is_immediate ptr)
     (if syli_ownership_is_own_ref ptr then Inr (ptr, s)
      else
        let obj = syli_ownership_untag ptr in
        check (obj \<noteq> 0) (and_then (syli_rt_object_incr obj s) (\<lambda>s. Inr (syli_ownership_set_own obj, s)))))"

definition syli_rt_ownership_borrow :: "obj_ptr \<Rightarrow> obj_ptr result" where
  "syli_rt_ownership_borrow ptr =
     check (\<not> syli_ownership_is_always_borrow ptr) (check (\<not> syli_ownership_is_immediate ptr)
     (Inr (syli_ownership_untag ptr)))"

section \<open>Sharing a reference\<close>

text \<open>One more reference from the program to \<open>p\<close>.\<close>

definition held :: "u64 \<Rightarrow> (u64 \<Rightarrow> nat) \<Rightarrow> u64 \<Rightarrow> nat" where
  "held p ext = ext(p := ext p + 1)"

lemma held_apply [simp]: "held p ext q = ext q + (if q = p then 1 else 0)"
  by (simp add: held_def)

lemma untag_own_any [simp]: "syli_ownership_untag (syli_ownership_set_own q) = syli_ownership_untag q"
  by (simp add: syli_ownership_untag_def syli_ownership_set_own_def own_tag_mask OWN_REF_TAG_def)
    (rule bit_word_eqI, auto simp: bit_simps bit_1_iff)

lemma incr_spec:
  assumes inv: "heap_inv ext {} s" and x: "gc_heap s p = Some x" "\<not> obj_flag Meta_Flags_Waiting_Remove x"
    and live: "0 < obj_rc x" and room: "obj_rc x + 1 < 2 ^ 56"
  obtains y where "syli_rt_object_incr p s = Inr (s\<lparr>gc_heap := (gc_heap s)(p \<mapsto> y)\<rparr>)"
    and "heap_inv (held p ext) {} (s\<lparr>gc_heap := (gc_heap s)(p \<mapsto> y)\<rparr>)"
    and "same_fields x y" and "obj_rc y = obj_rc x + 1"
    and "\<forall>(f, k) \<in> meta_bits. obj_flag f y = obj_flag f x"
    and "rel_frame {} s (s\<lparr>gc_heap := (gc_heap s)(p \<mapsto> y)\<rparr>)"
    and "same_refs (gc_heap s) ((gc_heap s)(p \<mapsto> y))"
proof -
  define y where "y = set_meta (meta_ref_count x + 1) x"
  have px: "p \<noteq> 0" "obj_local x" using heap_okD [OF heap_invD(1) [OF inv] x(1)] by auto
  have y: "obj_rc y = obj_rc x + 1" "\<And>f k. (f, k) \<in> meta_bits \<Longrightarrow> obj_flag f y = obj_flag f x"
    using obj_rc_plus [of x 1] obj_flag_plus [of _ _ x 1] room by (simp_all add: y_def)
  have sf: "same_fields x y" "obj_indexed y = obj_indexed x" "obj_index y = obj_index x"
    by (simp_all add: y_def)
  have run: "syli_rt_object_incr p s = Inr (s\<lparr>gc_heap := (gc_heap s)(p \<mapsto> y)\<rparr>)"
    using px x(1) by (simp add: syli_rt_object_incr_def deref_live write_meta_live on_heap_def y_def
        obj_local_def Let_def)
  have u: "heap_inv (held p ext) {} (s\<lparr>gc_heap := (gc_heap s)(p \<mapsto> y)\<rparr>)"
    "same_refs (gc_heap s) ((gc_heap s)(p \<mapsto> y))"
    by (rule heap_inv_upd_same [OF inv x(1), of _ "held p ext"]; use y x sf in auto)+
  have flags: "\<forall>(f, k) \<in> meta_bits. obj_flag f y = obj_flag f x" using y(2) by blast
  have "heap_shrinks (gc_heap s) ((gc_heap s)(p \<mapsto> y))"
    using x(1) sf(1) y(2) [OF waiting_bit_in] by (intro heap_shrinks_upd [where x = x]) auto
  then have "rel_frame {} s (s\<lparr>gc_heap := (gc_heap s)(p \<mapsto> y)\<rparr>)"
    using tracer_kept_upd [OF inv x(1) live flags] by (simp add: rel_frame_def)
  with run u(1) sf(1) y(1) flags u(2) that show thesis by blast
qed

text \<open>Nothing new is waiting for its release: the object was and is alive.\<close>

lemma incr_rel_inv:
  assumes "rel_inv ext {} s" and "gc_heap s p = Some x" and "0 < obj_rc x" and "0 < obj_rc y"
    and "heap_inv ext' {} (s\<lparr>gc_heap := (gc_heap s)(p \<mapsto> y)\<rparr>)"
    and "same_refs (gc_heap s) ((gc_heap s)(p \<mapsto> y))"
  shows "rel_inv ext' {} (s\<lparr>gc_heap := (gc_heap s)(p \<mapsto> y)\<rparr>)"
proof -
  have "dead {} ((gc_heap s)(p \<mapsto> y)) = dead {} (gc_heap s)"
    using assms(2-4) unfolding dead_def same_refs_holders [OF assms(6)] by (auto simp: rc_at_upd) (auto simp: rc_at_def)
  with assms(1,5) show ?thesis by (simp add: rel_inv_def rel_queue_def)
qed


lemma release_push_local:
  assumes "gc_releasing_worklist_push v s = Inr s'" and "c = syli_ownership_untag v"
  shows "(\<forall>p. p \<noteq> c \<longrightarrow> gc_heap s' p = gc_heap s p) \<and> releasing_waitlist s' = releasing_waitlist s @ [v]
     \<and> tracing_mutations_worklist s' = tracing_mutations_worklist s \<and> cyclic_candidates s' = cyclic_candidates s"
  using assms
  by (auto simp: gc_releasing_worklist_push_def syli_object_of_obj_ptr_def Let_def and_then_eq_Inr check_def when_r_def
      gc_mark_tag_object_def on_heap_eq_Inr write_meta_def gc_vector_push_back_def split: if_splits)

section \<open>Giving up a reference\<close>

text \<open>A block freed on the spot: nothing refers to it, it holds no reference, and neither the
  registry nor the tracing worklist knows it.\<close>

lemma free_plain_inv:
  assumes inv: "heap_inv ext {} s" and p: "gc_heap s p = Some y" "obj_rc y = 0" "own_refs y = []"
    and free: "\<not> obj_flag Meta_Flags_Waiting_Remove y" "\<not> obj_flag Meta_Flags_Tracing y"
      "\<not> obj_flag Meta_Flags_Cyclic_Candidate y"
  shows "heap_inv ext {} (s\<lparr>gc_heap := (gc_heap s)(p := None)\<rparr>)"
    and "dead {} ((gc_heap s)(p := None)) = dead {} (gc_heap s) - {p}"
proof -
  let ?h = "gc_heap s" and ?h' = "(gc_heap s)(p := None)"
  note I = heap_invD [OF inv]
  have ph: "p \<in> holders {} ?h" using p free by (simp add: holders_def)
  have hold: "holders {} ?h' = holders {p} ?h" by (auto simp: holders_def)
  have inc: "incoming {} ?h' q = incoming {} ?h q" for q
  proof -
    have "incoming {} ?h' q = incoming {p} ?h q"
      unfolding incoming_def hold by (rule sum.cong [OF refl]) (auto simp: holders_def)
    then show ?thesis using incoming_detach [OF I(1) ph, of q] p by simp
  qed
  have rc: "rc_at ?h' q = rc_at ?h q" for q using p by (simp add: rc_at_def)
  have "counts_ok ext {} ?h'" using I(2) by (auto simp: counts_ok_def inc rc)
  moreover have "heap_ok ?h'" using I(1) by (auto simp: heap_ok_def)
  moreover have "registry_inv ?h' (cyclic_candidates s)"
    by (rule registry_inv_frame [OF I(3)]) (use p free in \<open>auto split: if_splits\<close>)
  moreover have "traced ?h' = traced ?h" using p free by (auto simp: traced_delete traced_def)
  ultimately show "heap_inv ext {} (s\<lparr>gc_heap := ?h'\<rparr>)" using I(4-6) by (simp add: heap_inv_def)
  show "dead {} ?h' = dead {} ?h - {p}" by (auto simp: dead_def rc hold) (auto simp: holders_def)
qed

text \<open>What \<open>syli_rt_object_decr\<close> does when the count has gone down.\<close>

lemma decr_run:
  assumes low: "lowered ext D s c x y"
  shows "syli_rt_object_decr c v s =
      (if obj_rc y = 0 then
         if syli_object_is_mono_imm (header_word x) then
           on_heap (free_block c) (s\<lparr>gc_heap := (gc_heap s)(c \<mapsto> y), total_objects_freed := total_objects_freed s + 1\<rparr>)
         else gc_releasing_worklist_push v (s\<lparr>gc_heap := (gc_heap s)(c \<mapsto> y)\<rparr>)
       else Inr (s\<lparr>gc_heap := (gc_heap s)(c \<mapsto> y)\<rparr>))"
proof -
  note L = loweredD [OF low]
  have "(gc_heap s)(c \<mapsto> y) = (gc_heap s)(c \<mapsto> set_meta (meta_ref_count x - 1) x)"
    using L(7) object_ops_local(6) [of c "gc_heap s" x] L(1-4) by (auto simp: on_heap_def dest: arg_cong [where f = gc_heap])
  then have "write_meta c (meta_ref_count x - 1) (gc_heap s) = Inr ((gc_heap s)(c \<mapsto> y))"
    using L(1,3) by (simp add: write_meta_live)
  with L(1,3,4,13,14) show ?thesis
    by (simp add: syli_rt_object_decr_def deref_live on_heap_def obj_local_def Let_def cong: if_cong)
qed

lemma lowered_plain:
  assumes inv: "rel_inv ext' {} s" and low: "lowered ext {} s c x y"
    and zero: "obj_rc y = 0" and imm: "syli_object_is_mono_imm (header_word x)"
    and free: "\<not> obj_flag Meta_Flags_Tracing x \<and> \<not> obj_flag Meta_Flags_Cyclic_Candidate x"
    and s': "s' = s\<lparr>total_objects_freed := n, gc_heap := (gc_heap s)(c := None)\<rparr>"
  shows "rel_inv ext {} s' \<and> rel_frame {} s s'"
proof
  let ?h = "gc_heap s" and ?s1 = "s\<lparr>gc_heap := (gc_heap s)(c \<mapsto> y)\<rparr>"
  note L = loweredD [OF low] and same = lowered_same [OF low]
  have "own_refs y = []" using own_refs_mono_imm [OF imm] same(2) by simp
  from free_plain_inv [OF L(8), of c y] this zero same(3,5,6) free
  have k: "heap_inv ext {} (?s1\<lparr>gc_heap := (?h(c \<mapsto> y))(c := None)\<rparr>)"
    "dead {} ((?h(c \<mapsto> y))(c := None)) = dead {} (?h(c \<mapsto> y)) - {c}" by simp_all
  have "heap_inv ext {} s'" using k(1) by (simp add: s' heap_inv_def)
  moreover have "dead {} (gc_heap s') = dead {} ?h" using k(2) L(17,18) zero by (simp add: s')
  ultimately show "rel_inv ext {} s'" using inv by (simp add: rel_inv_def rel_queue_def) (simp add: s')
  show "rel_frame {} s s'"
    using heap_shrinks_delete [OF heap_shrinks_refl, of ?h c]
    by (simp add: rel_frame_def s' tracer_kept_def objects_kept_def)
qed

lemma decr_spec:
  assumes inv: "rel_inv (held (syli_ownership_untag v) ext) {} s"
  defines "c \<equiv> syli_ownership_untag v"
  assumes imm: "\<And>x. gc_heap s c = Some x \<Longrightarrow> syli_object_is_mono_imm (header_word x) \<Longrightarrow> obj_rc x = 1 \<Longrightarrow>
       \<not> obj_flag Meta_Flags_Tracing x \<and> \<not> obj_flag Meta_Flags_Cyclic_Candidate x"
  shows "\<exists>s'. syli_rt_object_decr c v s = Inr s' \<and> rel_inv ext {} s' \<and> rel_frame {} s s'
     \<and> (\<forall>p. p \<noteq> c \<longrightarrow> gc_heap s' p = gc_heap s p)
     \<and> tracing_mutations_worklist s' = tracing_mutations_worklist s
     \<and> (rc_at (gc_heap s) c = 1 \<and> (\<exists>x. gc_heap s c = Some x \<and> syli_object_is_mono_imm (header_word x))
          \<longrightarrow> gc_heap s' c = None \<and> total_objects_freed s' = total_objects_freed s + 1)
     \<and> (rc_at (gc_heap s) c = 1 \<and> (\<exists>x. gc_heap s c = Some x \<and> \<not> syli_object_is_mono_imm (header_word x))
          \<longrightarrow> releasing_waitlist s' = releasing_waitlist s @ [v])
     \<and> ((\<exists>x. gc_heap s c = Some x \<and> syli_object_is_mono_imm (header_word x) \<and> obj_rc x = 1)
        \<or> (\<exists>y. gc_heap s' c = Some y \<and> \<not> obj_flag Meta_Flags_Waiting_Remove y))
     \<and> rc_at (gc_heap s') c = rc_at (gc_heap s) c - 1 \<and> cyclic_candidates s' = cyclic_candidates s"
proof -
  have rinv: "rel_inv (\<lambda>r. ext r + (if r = c then 1 else 0)) {} s"
    using inv by (simp add: held_def c_def fun_upd_def if_distrib cong: if_cong)
  then have hinv: "heap_inv (\<lambda>r. ext r + (if r = c then 1 else 0)) {} s" by (simp add: rel_inv_def)
  let ?h = "gc_heap s"
  obtain x y where low: "lowered ext {} s c x y" using decr_keeps_inv [OF hinv] by blast
  note L = loweredD [OF low] and same = lowered_same [OF low]
  let ?s1 = "s\<lparr>gc_heap := ?h(c \<mapsto> y)\<rparr>"
  have step: "syli_rt_object_decr c v s =
      (if obj_rc y = 0 then
         if syli_object_is_mono_imm (header_word x) then
           on_heap (free_block c) (?s1\<lparr>total_objects_freed := total_objects_freed s + 1\<rparr>)
         else gc_releasing_worklist_push v ?s1
       else Inr ?s1)"
    by (rule decr_run [OF low])
  have rx: "rc_at ?h c = obj_rc x" using L(1) by (simp add: rc_at_def)
  consider (alive) "obj_rc y \<noteq> 0" | (plain) "obj_rc y = 0" "syli_object_is_mono_imm (header_word x)"
    | (queued) "obj_rc y = 0" "\<not> syli_object_is_mono_imm (header_word x)" by blast
  then show ?thesis
  proof cases
    case alive
    then have "rel_inv ext {} ?s1" using L(8,17) inv by (simp add: rel_inv_def rel_queue_def)
    moreover have "rc_at (gc_heap ?s1) c = rc_at ?h c - 1" using L(16) by simp
    ultimately show ?thesis using step alive lowered_frame [OF hinv low] L(11) rx same(3) by (intro exI [of _ ?s1]) auto
  next
    case plain
    have one: "obj_rc x = 1" using L(2,11) plain(1) by simp
    define s2 where "s2 = s\<lparr>total_objects_freed := total_objects_freed s + 1, gc_heap := ?h(c := None)\<rparr>"
    have "syli_rt_object_decr c v s = Inr s2"
      using plain L(3) by (simp add: step on_heap_def free_block_def s2_def)
    moreover have "rel_inv ext {} s2 \<and> rel_frame {} s s2"
      by (rule lowered_plain [OF rinv low plain imm [OF L(1) plain(2) one] s2_def])
    moreover have "rc_at (gc_heap s2) c = rc_at ?h c - 1" using rx one by (simp add: s2_def rc_at_def)
    ultimately show ?thesis using plain L(1) one by (intro exI [of _ s2]) (auto simp: s2_def)
  next
    case queued
    obtain s2 where s2: "gc_releasing_worklist_push v ?s1 = Inr s2" "rel_inv ext {} s2" "rel_frame {} s s2"
      using lowered_queued [OF rinv low _ queued(1), of v] by (auto simp: c_def)
    have loc: "(\<forall>p. p \<noteq> c \<longrightarrow> gc_heap s2 p = gc_heap ?s1 p) \<and> releasing_waitlist s2 = releasing_waitlist ?s1 @ [v]
        \<and> tracing_mutations_worklist s2 = tracing_mutations_worklist ?s1 \<and> cyclic_candidates s2 = cyclic_candidates ?s1"
      by (rule release_push_local [OF s2(1)]) (simp add: c_def)
    have "c \<in> dead {} (gc_heap s2)" using s2(2) loc unfolding rel_inv_def rel_queue_def c_def by auto
    then have "\<exists>y. gc_heap s2 c = Some y \<and> \<not> obj_flag Meta_Flags_Waiting_Remove y" "rc_at (gc_heap s2) c = 0"
      by (simp_all add: dead_def holders_def)
    moreover have "rc_at ?h c - 1 = 0" using rx L(11) queued(1) by simp
    ultimately show ?thesis using step queued s2 loc L(1) by (intro exI [of _ s2]) auto
  qed
qed

section \<open>Allocating\<close>

definition new_object :: "u64 \<Rightarrow> u64 \<Rightarrow> nat \<Rightarrow> u64 list \<Rightarrow> gc_object" where
  "new_object header meta n extra =
     \<lparr>header_word = header, meta_ref_count = meta, obj_value = replicate n 0 @ extra\<rparr>"

lemma clear_bytes_cells:
  "n \<le> length vs \<Longrightarrow> clear_bytes (8 * n) vs = replicate n 0 @ drop n vs"
  by (rule nth_equalityI) (auto simp: clear_bytes_def nth_append)

lemma rc_alloc_run:
  assumes "malloc_ptr \<noteq> 0" and "unat len < 2 ^ 32" and "syli_object_unit_shift header = 3"
  shows "\<exists>extra. syli_rt_rc_alloc_object malloc_ptr junk header refcount len s = Inr (malloc_ptr,
       s\<lparr>gc_heap := (gc_heap s)(malloc_ptr \<mapsto>
          new_object header (refcount OR tracing_current_bit_mark s) (unat len) extra)\<rparr>)
     \<and> length extra = (if syli_object_is_cyclic_mutable header then 1 else 0)"
proof -
  note sz = object_block_size [of len header, OF assms(2)]
  have b: "unat (push_bit 3 len) = 8 * unat len"
    "unat (object_block_bytes header len) = 16 + 8 * unat len + (if syli_object_is_cyclic_mutable header then 8 else 0)"
    using sz assms(3) by simp_all
  let ?m = "unat len + (if syli_object_is_cyclic_mutable header then 1 else 0)"
  have m: "(unat (object_block_bytes header len) - 16) div 8 = ?m" by (simp add: b(2))
  have shift: "unat (drop_bit GC_UNIT_SHIFT_BITS (header AND GC_UNIT_MASK)) = 3"
    using assms(3) by (simp add: syli_object_unit_shift_def)
  show ?thesis
    unfolding syli_rt_rc_alloc_object_def Let_def shift
    using assms(1) b m clear_bytes_cells [of "unat len" "map junk [0..<?m]"]
    by (intro exI [of _ "drop (unat len) (map junk [0..<?m])"])
      (simp add: syli_object_alloc_def memset_value_def deref_def Let_def new_object_def)
qed

lemma new_object_count:
  assumes "unat refcount < 2 ^ 56" and "b \<in> {0, MASK_MARKING_BIT}"
  shows "obj_rc (new_object header (refcount OR b) n extra) = unat refcount"
    and "(f, k) \<in> meta_bits \<Longrightarrow> f \<noteq> MASK_MARKING_BIT \<Longrightarrow> \<not> obj_flag f (new_object header (refcount OR b) n extra)"
    and "obj_marked b (new_object header (refcount OR b) n extra)"
proof -
  let ?x = "new_object header refcount n extra"
  have tb: "take_bit 56 refcount = refcount"
    by (rule word_unat_eq_iff [THEN iffD2])
      (use assms(1) in \<open>simp only: unsigned_take_bit_eq take_bit_nat_eq_self\<close>)
  have bits: "\<not> bit refcount k" if "56 \<le> k" for k
    using arg_cong [OF tb, of "\<lambda>w. bit w k"] that by (simp add: bit_take_bit_iff)
  have "refcount AND REFCOUNT_MASK = refcount"
  proof -
    have "REFCOUNT_MASK = mask 56" by (simp add: REFCOUNT_MASK_def mask_eq_exp_minus_1)
    with tb show ?thesis by (simp add: take_bit_eq_mask)
  qed
  then have rc: "obj_rc ?x = unat refcount" by (simp add: obj_rc_def new_object_def)
  have fl: "\<not> obj_flag f ?x" if "(f, k) \<in> meta_bits" for f k
    using obj_flag_bit [OF that, of ?x] bits [of k] meta_bits_cases(2) [OF that] by (simp add: new_object_def)
  have sm: "set_meta (meta_ref_count ?x OR b) ?x = new_object header (refcount OR b) n extra"
    by (simp add: set_meta_def new_object_def)
  consider "b = 0" | "b = MASK_MARKING_BIT" using assms(2) by blast
  then have all: "obj_rc (new_object header (refcount OR b) n extra) = unat refcount
      \<and> (\<forall>f k. (f, k) \<in> meta_bits \<longrightarrow>
           (obj_flag f (new_object header (refcount OR b) n extra) \<longleftrightarrow> b = MASK_MARKING_BIT \<and> f = MASK_MARKING_BIT))"
  proof cases
    case 1
    moreover have "(0 :: u64) \<noteq> MASK_MARKING_BIT" by (simp add: MASK_MARKING_BIT_def)
    ultimately show ?thesis using rc fl by simp
  next
    case 2
    then show ?thesis
      using obj_rc_set_flag(1) [OF mark_in_meta_bits, of ?x] obj_flag_set_flag(1) [OF mark_in_meta_bits, of _ _ ?x]
        rc fl sm by auto
  qed
  then show "obj_rc (new_object header (refcount OR b) n extra) = unat refcount" by simp
  show "\<not> obj_flag f (new_object header (refcount OR b) n extra)"
    if "(f, k) \<in> meta_bits" "f \<noteq> MASK_MARKING_BIT" using all that by blast
  show "obj_marked b (new_object header (refcount OR b) n extra)"
    unfolding obj_marked_flag [OF assms(2)] using all mark_in_meta_bits by blast
qed

text \<open>A fresh object without references, counted by the program, fits into memory.\<close>

lemma new_object_inv:
  assumes inv: "heap_inv ext {} s" and p: "p \<noteq> 0" "untagged p" "gc_heap s p = None"
    and x: "own_refs x = []" "obj_ok x" "\<And>f k. (f, k) \<in> meta_bits \<Longrightarrow> f \<noteq> MASK_MARKING_BIT \<Longrightarrow> \<not> obj_flag f x"
  shows "heap_inv (ext(p := obj_rc x)) {} (s\<lparr>gc_heap := (gc_heap s)(p \<mapsto> x)\<rparr>)"
    and "ext p = 0" and "0 < obj_rc x \<Longrightarrow> dead {} ((gc_heap s)(p \<mapsto> x)) = dead {} (gc_heap s)"
    and "traced ((gc_heap s)(p \<mapsto> x)) = traced (gc_heap s)"
proof -
  let ?h = "gc_heap s" and ?h' = "(gc_heap s)(p \<mapsto> x)"
  note I = heap_invD [OF inv]
  have fl: "\<not> obj_flag Meta_Flags_Waiting_Remove x" "\<not> obj_flag Meta_Flags_Tracing x"
    "\<not> obj_flag Meta_Flags_Cyclic_Candidate x"
    using x(3) [OF waiting_bit_in] x(3) [OF tracing_bit_in] x(3) [OF candidate_bit_in] flags_distinct by auto
  have "rc_at ?h p = ext p + incoming {} ?h p" using I(2) by (simp add: counts_ok_def)
  then have none: "ext p = 0" "incoming {} ?h p = 0" using p(3) by (simp_all add: rc_at_def)
  show "ext p = 0" by (rule none(1))
  have hold: "holders {} ?h' = insert p (holders {} ?h)" using fl(1) by (auto simp: holders_def)
  have pn: "p \<notin> holders {} ?h" using p(3) by (simp add: holders_def)
  have fin: "finite (holders {} ?h)" using I(1) holders_subset [of "{}" ?h] by (meson finite_subset heap_ok_def)
  have inc: "incoming {} ?h' q = incoming {} ?h q" for q
  proof -
    have "(\<Sum>r \<in> holders {} ?h. refs_to q (own_refs (the (?h' r)))) = incoming {} ?h q"
      unfolding incoming_def by (rule sum.cong [OF refl]) (use pn in auto)
    with fin pn x(1) show ?thesis unfolding incoming_def hold by simp
  qed
  have "counts_ok (ext(p := obj_rc x)) {} ?h'"
    using I(2) none(2) fl(1) by (auto simp: counts_ok_def inc rc_at_upd)
  moreover have "heap_ok ?h'" using I(1) p x(2) by (auto simp: heap_ok_def)
  moreover have "registry_inv ?h' (cyclic_candidates s)"
    by (rule registry_inv_frame [OF I(3)]) (use p fl in \<open>auto split: if_splits\<close>)
  moreover show tr: "traced ?h' = traced ?h" using p(3) fl by (auto simp: traced_upd traced_def)
  ultimately show "heap_inv (ext(p := obj_rc x)) {} (s\<lparr>gc_heap := ?h'\<rparr>)" using I(4-6) by (simp add: heap_inv_def)
  show "dead {} ?h' = dead {} ?h" if "0 < obj_rc x"
    using that pn by (auto simp: dead_def hold rc_at_upd)
qed

text \<open>The cells the header calls references are cleared.\<close>

lemma new_object_refs:
  assumes "syli_object_length header = Inr len" and "syli_object_get_zone header = Zone_GcLocal"
  shows "own_refs (new_object header m (unat len) extra) = []" and "obj_ok (new_object header m (unat len) extra)"
proof -
  let ?x = "new_object header m (unat len) extra"
  have len: "obj_len ?x = unat len" using assms(1) by (simp add: obj_len_def new_object_def)
  have slot: "i < unat len" if "i \<in> set (ref_slots header)" for i
    using ref_slot_less [of i ?x] that len by (simp add: new_object_def)
  then show refs: "own_refs ?x = []"
    by (auto simp: own_refs_def new_object_def filter_empty_conv nth_append is_own_field_def)
  show "obj_ok ?x"
    using refs slot assms(2) by (auto simp: obj_ok_def obj_local_def new_object_def dest: slot)
qed

lemma new_object_contents:
  assumes "syli_object_length header = Inr len"
    and "length extra = (if syli_object_is_cyclic_mutable header then 1 else 0)"
  shows "contents (new_object header m (unat len) extra)
    = replicate (unat len + (if syli_object_is_cyclic_mutable header then 1 else 0)) 0"
proof (cases extra)
  case Nil
  with assms(2) show ?thesis by (auto simp: contents_def new_object_def)
next
  case (Cons e es)
  with assms show ?thesis
    by (simp add: contents_def new_object_def obj_len_def list_update_append replicate_append_same split: if_splits)
qed

text \<open>Registration of a fresh candidate changes its index and flag only.\<close>

lemma register_new_inv:
  assumes inv: "heap_inv ext {} s" and p: "gc_heap s p = Some x" "p = syli_ownership_untag v"
    and x: "obj_indexed x" "\<not> obj_flag Meta_Flags_Cyclic_Candidate x" "\<not> obj_flag Meta_Flags_Waiting_Remove x"
    and room: "length (cyclic_candidates s) + 1 < 2 ^ 64"
  obtains y where "gc_register_candidate v s
      = Inr (s\<lparr>gc_heap := (gc_heap s)(p \<mapsto> y), cyclic_candidates := cyclic_candidates s @ [v]\<rparr>)"
    and "heap_inv ext {} (s\<lparr>gc_heap := (gc_heap s)(p \<mapsto> y), cyclic_candidates := cyclic_candidates s @ [v]\<rparr>)"
    and "own_refs y = own_refs x" and "same_fields x y" and "obj_rc y = obj_rc x"
    and "\<And>f k. (f, k) \<in> meta_bits \<Longrightarrow>
      obj_flag f y \<longleftrightarrow> f = Meta_Flags_Cyclic_Candidate \<or> obj_flag f x"
    and "same_refs (gc_heap s) ((gc_heap s)(p \<mapsto> y))"
proof -
  let ?h = "gc_heap s"
  note I = heap_invD [OF inv]
  have p0: "p \<noteq> 0" using heap_okD [OF I(1) p(1)] by blast
  obtain y i where run: "gc_register_candidate v s
      = Inr (s\<lparr>gc_heap := ?h(p \<mapsto> y), cyclic_candidates := cyclic_candidates s @ [v]\<rparr>)"
    and y: "header_word y = header_word x" "obj_rc y = obj_rc x"
      "registry_inv (?h(p \<mapsto> y)) (cyclic_candidates s @ [v])"
    and eq: "y = set_meta (meta_ref_count x OR Meta_Flags_Cyclic_Candidate) (set_index i x)"
    using gc_register_candidate_spec [OF I(3) p p0 x(1,2) room] by blast
  have refs: "own_refs y = own_refs x" "obj_ok y = obj_ok x" "same_fields x y" using x(1) by (simp_all add: eq)
  have fl: "obj_flag f y \<longleftrightarrow> f = Meta_Flags_Cyclic_Candidate \<or> obj_flag f x" if "(f, k) \<in> meta_bits" for f k
    using obj_flag_set_flag(1) [OF candidate_bit_in that, of "set_index i x"]
    by (auto simp: eq obj_flag_def set_index_def set_meta_def)
  have w: "obj_flag Meta_Flags_Waiting_Remove y = obj_flag Meta_Flags_Waiting_Remove x"
    "obj_flag Meta_Flags_Tracing y = obj_flag Meta_Flags_Tracing x"
    using fl [OF waiting_bit_in] fl [OF tracing_bit_in] flags_distinct by auto
  have sr: "same_refs ?h (?h(p \<mapsto> y))" by (rule same_refs_upd [where x = x]) (use p(1) refs(1,2) w in auto)
  have rc: "rc_at (?h(p \<mapsto> y)) q = rc_at ?h q" for q using p(1) y(2) by (simp add: rc_at_def)
  have "counts_ok ext {} (?h(p \<mapsto> y))"
    using I(2) w(1) x(3) by (auto simp: counts_ok_def same_refs_incoming [OF sr] rc)
  moreover have "traced (?h(p \<mapsto> y)) = traced ?h" using p(1) w(2) by (auto simp: traced_upd) (auto simp: traced_def)
  ultimately have "heap_inv ext {} (s\<lparr>gc_heap := ?h(p \<mapsto> y), cyclic_candidates := cyclic_candidates s @ [v]\<rparr>)"
    using I(4-6) y(3) same_refs_heap_ok [OF sr I(1)] by (simp add: heap_inv_def)
  with run refs(1,3) y(2) fl sr that show thesis by blast
qed

text \<open>For an object that has no flag but its mark, also the rest of the collectors' view stays.\<close>

lemma register_alloc:
  assumes inv: "heap_inv ext {} s" and p: "gc_heap s p = Some x" "p = syli_ownership_untag v" and x: "obj_indexed x"
    and flags: "\<forall>(f, k) \<in> meta_bits. f \<noteq> MASK_MARKING_BIT \<longrightarrow> \<not> obj_flag f x"
    and mark: "obj_marked (tracing_current_bit_mark s) x" and room: "length (cyclic_candidates s) + 1 < 2 ^ 64"
  obtains y where "gc_register_candidate v s
      = Inr (s\<lparr>gc_heap := (gc_heap s)(p \<mapsto> y), cyclic_candidates := cyclic_candidates s @ [v]\<rparr>)"
    and "heap_inv ext {} (s\<lparr>gc_heap := (gc_heap s)(p \<mapsto> y), cyclic_candidates := cyclic_candidates s @ [v]\<rparr>)"
    and "own_refs y = own_refs x" and "same_fields x y" and "obj_rc y = obj_rc x"
    and "obj_marked (tracing_current_bit_mark s) y"
    and "\<forall>(f, k) \<in> meta_bits. f \<noteq> MASK_MARKING_BIT \<longrightarrow> (obj_flag f y \<longleftrightarrow> f = Meta_Flags_Cyclic_Candidate)"
    and "dead {} ((gc_heap s)(p \<mapsto> y)) = dead {} (gc_heap s)" and "traced ((gc_heap s)(p \<mapsto> y)) = traced (gc_heap s)"
proof -
  have fl: "\<not> obj_flag Meta_Flags_Waiting_Remove x" "\<not> obj_flag Meta_Flags_Cyclic_Candidate x"
    using flags waiting_bit_in candidate_bit_in flags_distinct by fastforce+
  obtain y where y: "gc_register_candidate v s
      = Inr (s\<lparr>gc_heap := (gc_heap s)(p \<mapsto> y), cyclic_candidates := cyclic_candidates s @ [v]\<rparr>)"
      "heap_inv ext {} (s\<lparr>gc_heap := (gc_heap s)(p \<mapsto> y), cyclic_candidates := cyclic_candidates s @ [v]\<rparr>)"
      "own_refs y = own_refs x" "same_fields x y" "obj_rc y = obj_rc x"
    and yf: "\<And>f k. (f, k) \<in> meta_bits \<Longrightarrow> obj_flag f y \<longleftrightarrow> f = Meta_Flags_Cyclic_Candidate \<or> obj_flag f x"
    and sr: "same_refs (gc_heap s) ((gc_heap s)(p \<mapsto> y))"
    by (rule register_new_inv [OF inv p x fl(2,1) room]) (rule that, assumption+)
  have mk: "obj_marked (tracing_current_bit_mark s) y"
    using yf [OF mark_in_meta_bits] mark flags_distinct(7) obj_marked_flag [OF heap_invD(6) [OF inv]] by simp
  have "obj_flag Meta_Flags_Tracing y = obj_flag Meta_Flags_Tracing x"
    using yf [OF tracing_bit_in] flags_distinct(1) by auto
  then have tr: "traced ((gc_heap s)(p \<mapsto> y)) = traced (gc_heap s)"
    using p(1) by (auto simp: traced_upd) (auto simp: traced_def)
  have de: "dead {} ((gc_heap s)(p \<mapsto> y)) = dead {} (gc_heap s)"
    using same_refs_holders [OF sr, of "{}"] y(5) p(1) by (auto simp: dead_def rc_at_upd) (auto simp: rc_at_def)
  have fs: "\<forall>(f, k) \<in> meta_bits. f \<noteq> MASK_MARKING_BIT \<longrightarrow> (obj_flag f y \<longleftrightarrow> f = Meta_Flags_Cyclic_Candidate)"
    using yf flags by blast
  show thesis by (rule that [OF y mk fs de tr])
qed

text \<open>A new block from \<open>malloc\<close>, a header of 8-byte cells, a count the program hands out.\<close>

definition alloc_ok :: "u64 \<Rightarrow> u64 \<Rightarrow> u64 \<Rightarrow> u64 \<Rightarrow> Syli_state \<Rightarrow> bool" where
  "alloc_ok malloc_ptr header refcount len s \<longleftrightarrow>
     malloc_ptr \<noteq> 0 \<and> untagged malloc_ptr \<and> gc_heap s malloc_ptr = None
     \<and> syli_object_get_zone header = Zone_GcLocal \<and> syli_object_unit_shift header = 3
     \<and> syli_object_length header = Inr len
     \<and> (syli_object_is_cyclic_mutable header \<longrightarrow> syli_object_is_cyclic header)
     \<and> 0 < refcount \<and> unat refcount < 2 ^ 56 \<and> length (cyclic_candidates s) + 1 < 2 ^ 64"

lemma alloc_spec:
  assumes inv: "heap_inv ext {} s" and ok: "alloc_ok p header refcount len s"
  obtains s' x h cs m n where "syli_rt_ownership_alloc_object p junk header refcount len s
       = Inr (syli_ownership_set_own p, s')"
    and "s' = s\<lparr>gc_heap := h, cyclic_candidates := cs, cyclic_mem_alloc := m, cyclic_obj_alloc := n\<rparr>"
    and "h = (gc_heap s)(p \<mapsto> x)" and "heap_inv (ext(p := unat refcount)) {} s'" and "ext p = 0"
    and "dead {} h = dead {} (gc_heap s)" and "traced h = traced (gc_heap s)"
    and "header_word x = header" and "obj_rc x = unat refcount" and "own_refs x = []"
    and "contents x = replicate (unat len + (if syli_object_is_cyclic_mutable header then 1 else 0)) 0"
    and "obj_marked (tracing_current_bit_mark s) x"
    and "\<forall>(f, k) \<in> meta_bits. f \<noteq> MASK_MARKING_BIT \<longrightarrow>
      (obj_flag f x \<longleftrightarrow> f = Meta_Flags_Cyclic_Candidate \<and> syli_object_is_cyclic_mutable header)"
    and "cs = cyclic_candidates s @ (if syli_object_is_cyclic_mutable header then [syli_ownership_set_own p] else [])"
    and "n = cyclic_obj_alloc s + (if syli_object_is_cyclic header then 1 else 0)"
proof -
  let ?h = "gc_heap s" and ?b = "tracing_current_bit_mark s" and ?v = "syli_ownership_set_own p"
  have o: "p \<noteq> 0" "untagged p" "?h p = None" "syli_object_get_zone header = Zone_GcLocal"
    "syli_object_unit_shift header = 3" "syli_object_length header = Inr len"
    "syli_object_is_cyclic_mutable header \<longrightarrow> syli_object_is_cyclic header"
    "0 < unat refcount" "unat refcount < 2 ^ 56" "length (cyclic_candidates s) + 1 < 2 ^ 64"
    using ok by (simp_all add: alloc_ok_def unat_gt_0 word_gt_0)
  have len: "unat len < 2 ^ 32" using syli_object_length_total [of header] o(6) by (metis sum.inject(2))
  obtain extra where run: "syli_rt_rc_alloc_object p junk header refcount len s = Inr (p,
       s\<lparr>gc_heap := ?h(p \<mapsto> new_object header (refcount OR ?b) (unat len) extra)\<rparr>)"
    and ex: "length extra = (if syli_object_is_cyclic_mutable header then 1 else 0)"
    using rc_alloc_run [OF o(1) len o(5)] by blast
  define x where "x = new_object header (refcount OR ?b) (unat len) extra"
  note cnt = new_object_count [OF o(9) heap_invD(6) [OF inv], where header = header and n = "unat len" and extra = extra, folded x_def]
  have x: "own_refs x = []" "obj_ok x" "header_word x = header"
    using new_object_refs [OF o(6,4), where m = "refcount OR ?b" and extra = extra] by (simp_all add: x_def) (simp add: new_object_def)
  have z: "contents x = replicate (unat len + (if syli_object_is_cyclic_mutable header then 1 else 0)) 0"
    using new_object_contents [OF o(6) ex, of "refcount OR ?b"] by (simp add: x_def)
  have unt: "syli_ownership_untag ?v = p" using untag_id [OF o(2)] by simp
  note N = new_object_inv [OF inv o(1-3) x(1,2) cnt(2)]
  define s1 where "s1 = s\<lparr>gc_heap := ?h(p \<mapsto> x)\<rparr>"
  have H1: "heap_inv (ext(p := unat refcount)) {} s1" and d1: "dead {} (?h(p \<mapsto> x)) = dead {} ?h"
    using N(1,3) cnt(1) o(8) by (simp_all add: s1_def)
  obtain bytes where bytes: "syli_object_total_bytes header = Inr bytes"
    using o(6) by (simp add: syli_object_total_bytes_def syli_object_size_bytes_def Let_def)
  have flags: "\<forall>(f, k) \<in> meta_bits. f \<noteq> MASK_MARKING_BIT \<longrightarrow> \<not> obj_flag f x" using cnt(2) by blast
  have start: "syli_rt_ownership_alloc_object p junk header refcount len s =
      (if syli_object_is_cyclic header then
         and_then (when_r (syli_object_is_cyclic_mutable header) (gc_register_candidate ?v)
           (s1\<lparr>cyclic_mem_alloc := cyclic_mem_alloc s + bytes, cyclic_obj_alloc := cyclic_obj_alloc s + 1\<rparr>))
           (\<lambda>s. Inr (?v, s))
       else Inr (?v, s1))"
    using o(1) bytes x(3) unfolding syli_rt_ownership_alloc_object_def run x_def [symmetric] s1_def Let_def
    by (simp add: deref_live)
  show thesis
  proof (cases "syli_object_is_cyclic_mutable header")
    case False
    define s2 where "s2 = (if syli_object_is_cyclic header then
      s1\<lparr>cyclic_mem_alloc := cyclic_mem_alloc s + bytes, cyclic_obj_alloc := cyclic_obj_alloc s + 1\<rparr> else s1)"
    show thesis
      by (rule that [where s' = s2 and x = x and h = "?h(p \<mapsto> x)" and cs = "cyclic_candidates s"
            and m = "cyclic_mem_alloc s2" and n = "cyclic_obj_alloc s2"])
        (use False start H1 N(2,4) d1 x z cnt(1,3) flags in \<open>simp_all add: s2_def s1_def when_r_def heap_inv_def\<close>)
  next
    case True
    then have cyc: "syli_object_is_cyclic header" using o(7) by blast
    define s2 where "s2 = s1\<lparr>cyclic_mem_alloc := cyclic_mem_alloc s + bytes, cyclic_obj_alloc := cyclic_obj_alloc s + 1\<rparr>"
    have H2: "heap_inv (ext(p := unat refcount)) {} s2" using H1 by (simp add: s2_def heap_inv_def)
    have "obj_indexed x"
      using True o(4,6) ex by (simp add: obj_indexed_def obj_local_def obj_len_def x_def new_object_def)
    then obtain y where y: "gc_register_candidate ?v s2
      = Inr (s2\<lparr>gc_heap := (gc_heap s2)(p \<mapsto> y), cyclic_candidates := cyclic_candidates s2 @ [?v]\<rparr>)"
      "heap_inv (ext(p := unat refcount)) {} (s2\<lparr>gc_heap := (gc_heap s2)(p \<mapsto> y), cyclic_candidates := cyclic_candidates s2 @ [?v]\<rparr>)"
      "own_refs y = own_refs x" "same_fields x y" "obj_rc y = obj_rc x" "obj_marked ?b y"
      "\<forall>(f, k) \<in> meta_bits. f \<noteq> MASK_MARKING_BIT \<longrightarrow> (obj_flag f y \<longleftrightarrow> f = Meta_Flags_Cyclic_Candidate)"
      "dead {} ((gc_heap s2)(p \<mapsto> y)) = dead {} (gc_heap s2)" "traced ((gc_heap s2)(p \<mapsto> y)) = traced (gc_heap s2)"
      using register_alloc [OF H2, of p x ?v] flags cnt(3) o(10) unt by (auto simp: s2_def s1_def)
    have "(gc_heap s2)(p \<mapsto> y) = ?h(p \<mapsto> y)" "gc_heap s2 = ?h(p \<mapsto> x)" by (simp_all add: s2_def s1_def)
    with y(8,9) N(4) d1 have "dead {} (?h(p \<mapsto> y)) = dead {} ?h" "traced (?h(p \<mapsto> y)) = traced ?h" by simp_all
    then show thesis
      using True cyc start y(1-7) H1 N(2) x z cnt(1)
      by (intro that [where s' = "s2\<lparr>gc_heap := (gc_heap s2)(p \<mapsto> y), cyclic_candidates := cyclic_candidates s2 @ [?v]\<rparr>"
            and x = y and h = "?h(p \<mapsto> y)" and cs = "cyclic_candidates s @ [?v]"
            and m = "cyclic_mem_alloc s2" and n = "cyclic_obj_alloc s2"])
        (simp_all add: when_r_def s2_def s1_def same_fields_def)
  qed
qed

section \<open>A store by the program\<close>

text \<open>Compiled code writes a field itself: the reference \<open>v\<close> it held moves into cell \<open>i\<close> of the
  object at \<open>p\<close>, and the reference that was there becomes one of the program's.\<close>

definition moved :: "obj_ptr \<Rightarrow> obj_ptr \<Rightarrow> (u64 \<Rightarrow> nat) \<Rightarrow> (u64 \<Rightarrow> nat) \<Rightarrow> bool" where
  "moved v w ext ext' \<longleftrightarrow> (\<forall>q. ext' q + (if is_own_field v \<and> syli_ownership_untag v = q then 1 else 0)
     = ext q + (if is_own_field w \<and> syli_ownership_untag w = q then 1 else 0))"

lemma refs_to_store:
  assumes "i \<in> set (ref_slots (header_word x))" and "i < length (obj_value x)"
    and "y = x\<lparr>obj_value := (obj_value x)[i := v]\<rparr>"
  shows "refs_to q (own_refs y) + (if is_own_field (obj_value x ! i) \<and> syli_ownership_untag (obj_value x ! i) = q then 1 else 0)
       = refs_to q (own_refs x) + (if is_own_field v \<and> syli_ownership_untag v = q then 1 else 0)"
proof -
  have d: "distinct (ref_slots (header_word x))" by (simp add: ref_slots_def)
  obtain as bs where split: "ref_slots (header_word x) = as @ i # bs" using assms(1) by (meson split_list)
  with d have ni: "i \<notin> set as" "i \<notin> set bs" by auto
  have away: "map ((!) ((obj_value x)[i := v])) ks = map ((!) (obj_value x)) ks" if "i \<notin> set ks" for ks
    by (rule map_cong [OF refl]) (use that in \<open>metis nth_list_update_neq\<close>)
  have app: "refs_to q (us @ vs) = refs_to q us + refs_to q vs" for us vs by (simp add: refs_to_def)
  show ?thesis
    using assms(2) by (simp add: own_refs_def assms(3) split away [OF ni(1)] away [OF ni(2)] app)
qed

lemma store_spec:
  assumes inv: "heap_inv ext {} s" and x: "gc_heap s p = Some x" "\<not> obj_flag Meta_Flags_Waiting_Remove x"
    and i: "i \<in> set (ref_slots (header_word x))" and has: "syli_object_has_pointers (header_word x)"
    and mv: "moved v (obj_value x ! i) ext ext'"
  defines "y \<equiv> x\<lparr>obj_value := (obj_value x)[i := v]\<rparr>"
  shows "on_heap (write_field p i v) s = Inr (s\<lparr>gc_heap := (gc_heap s)(p \<mapsto> y)\<rparr>)"
    and "heap_inv ext' {} (s\<lparr>gc_heap := (gc_heap s)(p \<mapsto> y)\<rparr>)"
    and "dead {} ((gc_heap s)(p \<mapsto> y)) = dead {} (gc_heap s)"
    and "set (own_refs y) \<subseteq> insert v (set (own_refs x))" and "obj_flag f y = obj_flag f x" and "obj_rc y = obj_rc x"
proof -
  let ?h = "gc_heap s" and ?h' = "(gc_heap s)(p \<mapsto> y)"
  have y: "y = x\<lparr>obj_value := (obj_value x)[i := v]\<rparr>" by (simp add: y_def)
  note I = heap_invD [OF inv]
  have px: "p \<noteq> 0" "untagged p" "obj_ok x" "obj_local x" using heap_okD [OF I(1) x(1)] by auto
  have len: "i < length (obj_value x)" using px(3) i by (simp add: obj_ok_def)
  show "on_heap (write_field p i v) s = Inr (s\<lparr>gc_heap := ?h'\<rparr>)"
    using px(1) x(1) len by (simp add: on_heap_def write_field_def deref_live y_def)
  have flag [simp]: "obj_flag f y = obj_flag f x" for f by (simp add: y_def obj_flag_def)
  have rc [simp]: "obj_rc y = obj_rc x" by (simp add: y_def obj_rc_def)
  have hw [simp]: "header_word y = header_word x" by (simp add: y_def)
  show "obj_flag f y = obj_flag f x" "obj_rc y = obj_rc x" by simp_all
  show "set (own_refs y) \<subseteq> insert v (set (own_refs x))"
    using len by (auto simp: own_refs_def y_def nth_list_update)
  have rca: "rc_at ?h' q = rc_at ?h q" for q using x(1) by (simp add: rc_at_def)
  have hold: "holders D ?h' = holders D ?h" for D using x by (auto simp: holders_def)
  show "dead {} ?h' = dead {} ?h" by (simp add: dead_def hold rca)
  have ph: "p \<in> holders {} ?h" using x by (simp add: holders_def)
  have ok: "obj_ok y" using px(3,4) has by (auto simp: obj_ok_def y_def obj_local_def)
  then have hok: "heap_ok ?h'" using I(1) x(1) by (auto simp: heap_ok_def)
  have rest: "incoming {p} ?h' q = incoming {p} ?h q" for q
    unfolding incoming_def hold by (rule sum.cong [OF refl]) (auto simp: holders_def)
  have inc: "incoming {} ?h' q + refs_to q (own_refs x) = incoming {} ?h q + refs_to q (own_refs y)" for q
    using incoming_detach [OF I(1) ph, of q] incoming_detach [OF hok, of p "{}" q] ph x(1) rest by (simp add: hold)
  have "rc_at ?h' q = ext' q + incoming {} ?h' q" for q
    using I(2) inc [of q] refs_to_store [OF i len y, of q] mv rca [of q]
    unfolding counts_ok_def moved_def by (smt (verit) add.commute add.left_commute add_left_cancel)
  then have "counts_ok ext' {} ?h'" using I(2) x by (auto simp: counts_ok_def)
  moreover have "registry_inv ?h' (cyclic_candidates s)"
  proof (rule registry_inv_frame [OF I(3)])
    fix q z
    assume z: "?h q = Some z" "obj_flag Meta_Flags_Cyclic_Candidate z"
    have "i < obj_len x" by (rule ref_slot_less [OF i])
    moreover have "obj_len y = obj_len x" by (simp add: obj_len_def)
    ultimately show "\<exists>x'. ?h' q = Some x' \<and> obj_flag Meta_Flags_Cyclic_Candidate x'
        \<and> obj_indexed x' = obj_indexed z \<and> obj_index x' = obj_index z"
      using z x(1) by (auto simp: obj_indexed_def obj_index_def obj_local_def) (simp_all add: y_def)
  qed (use x(1) in \<open>auto split: if_splits\<close>)
  moreover have "traced ?h' = traced ?h" using x(1) by (auto simp: traced_upd) (auto simp: traced_def)
  ultimately show "heap_inv ext' {} (s\<lparr>gc_heap := ?h'\<rparr>)" using I(4-6) hok by (simp add: heap_inv_def)
qed

section \<open>The operations between two calls of the collector\<close>

lemma ready_frame:
  assumes "ready ext s" and "rel_inv ext' {} s'" and "rel_frame D s s'"
    and "\<And>p. paused ext s \<Longrightarrow> 0 < ext' p \<Longrightarrow> shaded s p" and "paused ext s \<Longrightarrow> mutations_ok s'"
  shows "ready ext' s'"
  by (rule ready_kept [OF assms(1,2) _ _ _ _ assms(4,5)])
    (use assms(3) readyD(2) [OF assms(1)] in \<open>simp_all add: rel_frame_def releasing_sm_ok_def\<close>)

lemma ready_between: "ready ext s \<Longrightarrow> between ext s \<longleftrightarrow> tracing_state s = Tracing_Idle"
  using betweenD(3) by (auto simp: ready_def paused_def mid_collection_def marking_phase_def)

lemma alive_not_waiting:
  assumes "heap_inv ext D s" and "gc_heap s p = Some x" and "0 < obj_rc x"
  shows "\<not> obj_flag Meta_Flags_Waiting_Remove x"
  using heap_invD(2) [OF assms(1)] assms(2,3) unfolding counts_ok_def by fastforce

text \<open>A new object has the present mark and no references.\<close>

lemma paused_alloc:
  assumes p: "paused ext s" and new: "gc_heap s p = None" and r: "rel_inv (ext(p := k)) {} s2"
    and s2: "s2 = s\<lparr>gc_heap := (gc_heap s)(p \<mapsto> x), cyclic_candidates := cyclic_candidates s @ cs,
       cyclic_mem_alloc := m, cyclic_obj_alloc := n\<rparr>"
    and x: "own_refs x = []" "obj_marked (tracing_current_bit_mark s) x" "\<not> obj_flag Meta_Flags_Children_Released x"
    and cs: "\<And>v. v \<in> set cs \<Longrightarrow> syli_ownership_untag v = p"
  shows "paused (ext(p := k)) s2"
proof -
  note P = pausedD [OF p]
  have old: "shaded s q \<Longrightarrow> shaded s2 q" for q using new by (auto simp: shaded_def s2)
  have "shaded s2 p" using x(2) by (simp add: shaded_def s2)
  then have "tricolour (ext(p := k)) s2"
    using P(5) old x(1) unfolding tricolour_def by (auto simp: s2 pending_def split: if_splits)
  moreover have "mutations_ok s2" using P(6) new by (fastforce simp: mutations_ok_def s2)
  moreover have "whites s2 \<subseteq> whites s" using x(2) by (auto simp: whites_def s2 split: if_splits)
  then have "checked s2"
    using P(9) cs x(2) by (auto simp: checked_def s2 drop_append) (auto simp: whites_def dest!: in_set_dropD)
  moreover have "torn (gc_heap s2) \<inter> holders {} (gc_heap s2) = {}"
    using P(8) x(3) by (auto simp: torn_def holders_def s2 split: if_splits)
  moreover have "marking_phase s2 = marking_phase s" by (simp add: marking_phase_def s2)
  ultimately show ?thesis
    using P(2,3) r by (auto simp: paused_def mid_collection_def marking_inv_def rel_inv_def releasing_sm_ok_def)
      (simp_all add: s2)
qed

lemma ready_alloc:
  assumes b: "ready ext s" and ok: "alloc_ok p header refcount len s"
    and run: "syli_rt_ownership_alloc_object p junk header refcount len s = Inr (v, s')"
  shows "ready (ext(p := unat refcount)) s' \<and> tracing_state s' = tracing_state s \<and> v = syli_ownership_set_own p \<and> ext p = 0
     \<and> (\<exists>x. gc_heap s' = (gc_heap s)(p \<mapsto> x) \<and> header_word x = header \<and> obj_rc x = unat refcount
          \<and> own_refs x = [] \<and> contents x = replicate (unat len + (if syli_object_is_cyclic_mutable header then 1 else 0)) 0)
     \<and> cyclic_candidates s' = cyclic_candidates s @ (if syli_object_is_cyclic_mutable header then [v] else [])
     \<and> cyclic_obj_alloc s' = cyclic_obj_alloc s + (if syli_object_is_cyclic header then 1 else 0)"
proof -
  obtain s2 x h cs m n where r: "syli_rt_ownership_alloc_object p junk header refcount len s
       = Inr (syli_ownership_set_own p, s2)"
    and s2: "s2 = s\<lparr>gc_heap := h, cyclic_candidates := cs, cyclic_mem_alloc := m, cyclic_obj_alloc := n\<rparr>"
    and h: "h = (gc_heap s)(p \<mapsto> x)" and H: "heap_inv (ext(p := unat refcount)) {} s2" and e: "ext p = 0"
    and d: "dead {} h = dead {} (gc_heap s)" and t: "traced h = traced (gc_heap s)"
    and x: "header_word x = header" "obj_rc x = unat refcount" "own_refs x = []"
      "contents x = replicate (unat len + (if syli_object_is_cyclic_mutable header then 1 else 0)) 0"
    and mk: "obj_marked (tracing_current_bit_mark s) x"
    and fl: "\<forall>(f, k) \<in> meta_bits. f \<noteq> MASK_MARKING_BIT \<longrightarrow>
      (obj_flag f x \<longleftrightarrow> f = Meta_Flags_Cyclic_Candidate \<and> syli_object_is_cyclic_mutable header)"
    and c: "cs = cyclic_candidates s @ (if syli_object_is_cyclic_mutable header then [syli_ownership_set_own p] else [])"
      "n = cyclic_obj_alloc s + (if syli_object_is_cyclic header then 1 else 0)"
    by (rule alloc_spec [OF readyD(3) [OF b] ok, where junk = junk]) (rule that; assumption)
  have s': "s' = s2" "v = syli_ownership_set_own p" using r run by simp_all
  have nr: "\<not> obj_flag Meta_Flags_Children_Released x" using fl released_bit_in flags_distinct by fastforce
  have rel: "rel_inv (ext(p := unat refcount)) {} s2"
    using readyD(1) [OF b] H d by (simp add: rel_inv_def rel_queue_def s2)
  have "ready (ext(p := unat refcount)) s2"
  proof (cases "between ext s")
    case True
    note B = betweenD [OF True]
    have "torn h = {}" using B(7) nr by (auto simp: torn_def h)
    then have "between (ext(p := unat refcount)) s2"
      using B mk rel by (simp add: between_def s2 h releasing_sm_ok_def)
    then show ?thesis by (simp add: ready_def)
  next
    case False
    then have "paused ext s" using b by (simp add: ready_def)
    then have "paused (ext(p := unat refcount)) s2"
      by (rule paused_alloc [OF _ _ rel _ x(3) mk nr])
        (use s2 h c ok untag_id [of p] in \<open>auto simp: alloc_ok_def split: if_splits\<close>)
    then show ?thesis by (simp add: ready_def)
  qed
  with s' e x c show ?thesis by (intro conjI exI [of _ x]) (simp_all add: s2 h)
qed

lemma alloc_runs:
  assumes "heap_inv ext {} s" and "alloc_ok p header refcount len s"
  shows "\<exists>s'. syli_rt_ownership_alloc_object p junk header refcount len s = Inr (syli_ownership_set_own p, s')"
  by (rule alloc_spec [OF assms, where junk = junk]) blast

text \<open>An untagged or an own reference: the tags the operations accept.\<close>

definition shareable :: "obj_ptr \<Rightarrow> bool" where
  "shareable v \<longleftrightarrow> \<not> syli_ownership_is_always_borrow v \<and> \<not> syli_ownership_is_immediate v
     \<and> syli_ownership_untag v \<noteq> 0"

lemma share_runs:
  assumes "shareable v"
  shows "syli_rt_ownership_share v s
      = and_then (syli_rt_object_incr (syli_ownership_untag v) s) (\<lambda>s. Inr (syli_ownership_set_own v, s))"
    and "syli_ownership_is_own_ref v \<Longrightarrow> syli_rt_ownership_incr v s = syli_rt_object_incr (syli_ownership_untag v) s"
    and "syli_rt_ownership_own v s = (if syli_ownership_is_own_ref v then Inr (v, s)
      else and_then (syli_rt_object_incr (syli_ownership_untag v) s)
        (\<lambda>s. Inr (syli_ownership_set_own (syli_ownership_untag v), s)))"
    and "syli_ownership_is_own_ref v \<Longrightarrow> syli_rt_ownership_release v s = syli_rt_object_decr (syli_ownership_untag v) v s"
    and "\<not> syli_ownership_is_own_ref v \<Longrightarrow> syli_rt_ownership_release v s = Inr s"
    and "syli_ownership_is_own_ref v \<Longrightarrow> syli_rt_ownership_decr v s = syli_rt_object_decr (syli_ownership_untag v) v s"
  using assms
  by (simp_all add: shareable_def check_def syli_rt_ownership_share_def syli_rt_ownership_incr_def
      syli_rt_ownership_own_def syli_rt_ownership_release_def syli_rt_ownership_decr_def Let_def)

lemma own_shareable: "syli_ownership_is_own_ref v \<Longrightarrow> syli_ownership_untag v \<noteq> 0 \<Longrightarrow> shareable v"
  by (auto simp: shareable_def syli_ownership_is_own_ref_def syli_ownership_is_always_borrow_def
      syli_ownership_is_immediate_def tag_defs)

lemma set_own_shareable: "shareable v \<Longrightarrow> syli_ownership_is_own_ref (syli_ownership_set_own v)"
proof -
  assume v: "shareable v"
  have "unat (v AND 3) \<le> 3" using word_and_le1 [of v "3 :: u64"] by (simp add: word_le_nat_alt)
  then have n: "unat (v AND 3) = 0 \<or> unat (v AND 3) = 1 \<or> unat (v AND 3) = 2 \<or> unat (v AND 3) = 3" by linarith
  have w: "v AND 3 = word_of_nat k" if "unat (v AND 3) = k" for k using that by auto
  from n w [of 0] w [of 1] w [of 2] w [of 3] have "v AND 3 = 0 \<or> v AND 3 = 1 \<or> v AND 3 = 2 \<or> v AND 3 = 3"
    using semiring_1_class.of_nat_0 of_nat_1 of_nat_numeral by (metis word_unat_eq_iff unat_0)
  with v have "v AND 3 = 0 \<or> v AND 3 = 1"
    by (auto simp: shareable_def syli_ownership_is_always_borrow_def syli_ownership_is_immediate_def tag_defs)
  then show ?thesis
    by (auto simp: syli_ownership_is_own_ref_def syli_ownership_set_own_def tag_defs bit.conj_disj_distrib2)
qed

text \<open>What the program may share: while a collection is under way, an object the tracer has seen.\<close>

definition tracer_sees :: "Syli_state \<Rightarrow> u64 \<Rightarrow> bool" where
  "tracer_sees s p \<longleftrightarrow> tracing_state s = Tracing_Idle \<or> shaded s p"

lemma paused_sees:
  assumes "paused ext s" and "tracer_sees s p"
  shows "shaded s p"
  using assms ready_between [of ext s] by (auto simp: tracer_sees_def paused_def mid_collection_def marking_phase_def)

lemma ready_incr:
  assumes b: "ready ext s" and x: "gc_heap s p = Some x" "0 < obj_rc x" "obj_rc x + 1 < 2 ^ 56"
    and sees: "tracer_sees s p"
  obtains s' where "syli_rt_object_incr p s = Inr s'" and "ready (held p ext) s'"
    and "rel_frame {} s s'" and "rc_at (gc_heap s') p = obj_rc x + 1"
    and "\<forall>q. q \<noteq> p \<longrightarrow> gc_heap s' q = gc_heap s q"
proof -
  note R = readyD [OF b]
  have w: "\<not> obj_flag Meta_Flags_Waiting_Remove x" by (rule alive_not_waiting [OF R(3) x(1,2)])
  obtain y where run: "syli_rt_object_incr p s = Inr (s\<lparr>gc_heap := (gc_heap s)(p \<mapsto> y)\<rparr>)"
    and y: "heap_inv (held p ext) {} (s\<lparr>gc_heap := (gc_heap s)(p \<mapsto> y)\<rparr>)" "obj_rc y = obj_rc x + 1"
      "rel_frame {} s (s\<lparr>gc_heap := (gc_heap s)(p \<mapsto> y)\<rparr>)"
      "same_refs (gc_heap s) ((gc_heap s)(p \<mapsto> y))"
    using incr_spec [OF R(3) x(1) w x(2,3)] by blast
  define s' where "s' = s\<lparr>gc_heap := (gc_heap s)(p \<mapsto> y)\<rparr>"
  have rel: "rel_inv (held p ext) {} s'"
    unfolding s'_def by (rule incr_rel_inv [OF R(1) x(1,2) _ y(1,4)]) (simp add: y(2))
  have wy: "\<not> obj_flag Meta_Flags_Waiting_Remove y" by (rule alive_not_waiting [OF y(1), of p]) (simp_all add: y(2))
  have "ready (held p ext) s'"
  proof (rule ready_frame [OF b rel y(3) [folded s'_def]])
    fix q
    assume pa: "paused ext s" and q: "0 < held p ext q"
    show "shaded s q"
      using pausedD(5) [OF pa] paused_sees [OF pa sees] q by (auto simp: tricolour_def split: if_splits)
  next
    assume "paused ext s"
    from pausedD(6) [OF this] wy show "mutations_ok s'" by (fastforce simp: mutations_ok_def s'_def)
  qed
  moreover have "rc_at (gc_heap s') p = obj_rc x + 1" "\<forall>q. q \<noteq> p \<longrightarrow> gc_heap s' q = gc_heap s q"
    using y(2) by (simp_all add: rc_at_def s'_def)
  ultimately show thesis using that run y(3) by (simp add: s'_def)
qed

text \<open>No object without references is a candidate: what the compiler guarantees of the headers.\<close>

definition plain_imm :: "heap \<Rightarrow> bool" where
  "plain_imm h \<longleftrightarrow> (\<forall>p x. h p = Some x \<longrightarrow> syli_object_is_mono_imm (header_word x) \<longrightarrow>
     \<not> syli_object_is_cyclic_mutable (header_word x))"

lemma plain_imm_shrinks: "plain_imm h \<Longrightarrow> heap_shrinks h h' \<Longrightarrow> plain_imm h'"
  unfolding plain_imm_def by (auto simp: same_fields_def dest!: heap_shrinksD)

lemma plain_imm_candidate:
  assumes "plain_imm (gc_heap s)" and "heap_inv ext {} s" and "gc_heap s p = Some x"
    and "syli_object_is_mono_imm (header_word x)"
  shows "\<not> obj_flag Meta_Flags_Cyclic_Candidate x"
proof
  assume "obj_flag Meta_Flags_Cyclic_Candidate x"
  from registry_position(2) [OF heap_invD(3) [OF assms(2)] assms(3) this] assms(1,3,4)
  show False by (auto simp: plain_imm_def obj_indexed_def)
qed

text \<open>What the program may release: a block that is freed at once is not on a worklist of the tracer.\<close>

definition releasable :: "obj_ptr \<Rightarrow> Syli_state \<Rightarrow> bool" where
  "releasable v s \<longleftrightarrow> (\<forall>x. gc_heap s (syli_ownership_untag v) = Some x \<longrightarrow> syli_object_is_mono_imm (header_word x)
     \<longrightarrow> obj_rc x = 1 \<longrightarrow> \<not> obj_flag Meta_Flags_Tracing x \<and> syli_ownership_untag v \<notin> pending s)"

lemma between_releasable: "between ext s \<Longrightarrow> releasable v s"
  unfolding releasable_def pending_def using no_waiting(2) betweenD(4,5,9) by fastforce

lemma ready_decr:
  assumes b: "ready (held (syli_ownership_untag v) ext) s" and "plain_imm (gc_heap s)" and fr: "releasable v s"
  shows "\<exists>s'. syli_rt_object_decr (syli_ownership_untag v) v s = Inr s' \<and> ready ext s' \<and> rel_frame {} s s'
     \<and> (\<forall>p. p \<noteq> syli_ownership_untag v \<longrightarrow> gc_heap s' p = gc_heap s p)
     \<and> (rc_at (gc_heap s) (syli_ownership_untag v) = 1 \<longrightarrow>
          (if \<exists>x. gc_heap s (syli_ownership_untag v) = Some x \<and> syli_object_is_mono_imm (header_word x)
           then gc_heap s' (syli_ownership_untag v) = None
           else releasing_waitlist s' = releasing_waitlist s @ [v]))
     \<and> rc_at (gc_heap s') (syli_ownership_untag v) = rc_at (gc_heap s) (syli_ownership_untag v) - 1
     \<and> cyclic_candidates s' = cyclic_candidates s"
proof -
  note R = readyD [OF b]
  let ?c = "syli_ownership_untag v"
  have "\<not> obj_flag Meta_Flags_Tracing x \<and> \<not> obj_flag Meta_Flags_Cyclic_Candidate x"
    if "gc_heap s ?c = Some x" "syli_object_is_mono_imm (header_word x)" "obj_rc x = 1" for x
    using fr plain_imm_candidate [OF assms(2) R(3) that(1,2)] that unfolding releasable_def by blast
  from decr_spec [OF R(1) this] obtain s' where s': "syli_rt_object_decr ?c v s = Inr s'" "rel_inv ext {} s'"
    "rel_frame {} s s'" "\<forall>p. p \<noteq> ?c \<longrightarrow> gc_heap s' p = gc_heap s p"
    "tracing_mutations_worklist s' = tracing_mutations_worklist s"
    "rc_at (gc_heap s) ?c = 1 \<and> (\<exists>x. gc_heap s ?c = Some x \<and> syli_object_is_mono_imm (header_word x))
          \<longrightarrow> gc_heap s' ?c = None"
    "rc_at (gc_heap s) ?c = 1 \<and> (\<exists>x. gc_heap s ?c = Some x \<and> \<not> syli_object_is_mono_imm (header_word x))
          \<longrightarrow> releasing_waitlist s' = releasing_waitlist s @ [v]"
    "(\<exists>x. gc_heap s ?c = Some x \<and> syli_object_is_mono_imm (header_word x) \<and> obj_rc x = 1)
        \<or> (\<exists>y. gc_heap s' ?c = Some y \<and> \<not> obj_flag Meta_Flags_Waiting_Remove y)"
    "rc_at (gc_heap s') ?c = rc_at (gc_heap s) ?c - 1" "cyclic_candidates s' = cyclic_candidates s"
    by blast
  have c: "\<exists>x. gc_heap s ?c = Some x"
    using counts_ok_live [OF heap_invD(2) [OF R(3)], of ?c] by auto
  have "ready ext s'"
  proof (rule ready_frame [OF b s'(2,3)])
    fix q
    assume "paused (held ?c ext) s" and "0 < ext q"
    then show "shaded s q" using pausedD(5) by (fastforce simp: tricolour_def)
  next
    assume pa: "paused (held ?c ext) s"
    have "?c \<in> pending s \<Longrightarrow> \<exists>y. gc_heap s' ?c = Some y \<and> \<not> obj_flag Meta_Flags_Waiting_Remove y"
      using s'(8) fr unfolding releasable_def by blast
    with pausedD(6) [OF pa] s'(4) show "mutations_ok s'"
      unfolding mutations_ok_def s'(5) pending_def by (metis image_eqI)
  qed
  with s' c show ?thesis by (intro exI [of _ s']) auto
qed

lemma between_store:
  assumes b: "between ext s" and x: "gc_heap s p = Some x"
    and i: "i \<in> set (ref_slots (header_word x))" and has: "syli_object_has_pointers (header_word x)"
    and mv: "moved v (obj_value x ! i) ext ext'" and st: "on_heap (write_field p i v) s = Inr s'"
  shows "between ext' s' \<and> (\<exists>y. s' = s\<lparr>gc_heap := (gc_heap s)(p \<mapsto> y)\<rparr> \<and> header_word y = header_word x)"
proof -
  note B = betweenD [OF b]
  define y where "y = x\<lparr>obj_value := (obj_value x)[i := v]\<rparr>"
  note S = store_spec [OF B(9) x no_waiting(1) [OF B(9,4) x] i has mv, folded y_def]
  have s': "s' = s\<lparr>gc_heap := (gc_heap s)(p \<mapsto> y)\<rparr>" using S(1) st by simp
  have "rel_inv ext' {} s'" using B(1) S(2,3) by (simp add: rel_inv_def rel_queue_def s')
  moreover have "torn (gc_heap s') = {}" using B(7) x S(5) by (auto simp: torn_def s')
  moreover have "obj_marked b y = obj_marked b x" for b by (simp add: obj_marked_def y_def)
  ultimately have "between ext' s'" using B x by (auto simp: between_def s' releasing_sm_ok_def)
  then show ?thesis by (auto simp: s' y_def)
qed

section \<open>Properties\<close>

text \<open>C16: allocation, also while a collection is paused, with a header of this runtime and a new
  block, returns an own-tagged reference to an object with the header and count asked for and
  no references, all its words zero, with the mark of the present generation; a mutable cyclic object is registered as the last
  candidate. The invariant holds with the count handed to the program, and nothing else has
  changed.\<close>

theorem alloc_object_correct:
  assumes "ready ext s" and "alloc_ok p header refcount len s"
  shows "\<exists>s' x. syli_rt_ownership_alloc_object p junk header refcount len s = Inr (syli_ownership_set_own p, s')
     \<and> ready (ext(p := unat refcount)) s' \<and> tracing_state s' = tracing_state s \<and> ext p = 0
     \<and> gc_heap s' = (gc_heap s)(p \<mapsto> x) \<and> header_word x = header \<and> obj_rc x = unat refcount \<and> own_refs x = []
     \<and> contents x = replicate (unat len + (if syli_object_is_cyclic_mutable header then 1 else 0)) 0
     \<and> cyclic_candidates s' = cyclic_candidates s
         @ (if syli_object_is_cyclic_mutable header then [syli_ownership_set_own p] else [])
     \<and> cyclic_obj_alloc s' = cyclic_obj_alloc s + (if syli_object_is_cyclic header then 1 else 0)"
proof -
  obtain s' where s': "syli_rt_ownership_alloc_object p junk header refcount len s = Inr (syli_ownership_set_own p, s')"
    using alloc_runs [OF readyD(3) [OF assms(1)] assms(2)] by blast
  from ready_alloc [OF assms s'] s' show ?thesis by blast
qed

lemma cycle_sample_heap: "gc_heap cycle_sample = [8 \<mapsto> set_meta 1 parent_object, 16 \<mapsto> leaf_object]"
  "cyclic_candidates cycle_sample = []"
  by (simp_all add: cycle_sample_def idle_sample_def zero_state_def)

lemma cycle_sample_ready: "ready one_root cycle_sample" "tracer_sees cycle_sample p"
  using cycle_sample_between betweenD(3) [OF cycle_sample_between] by (simp_all add: ready_def tracer_sees_def)

lemma cycle_sample_alloc: "alloc_ok 24 cons_header 1 2 cycle_sample"
  using cons_header_fields
  by (simp add: alloc_ok_def cycle_sample_heap untagged_def tag_defs syli_object_is_cyclic_def)

theorem alloc_object_correct_witness:
  "\<exists>s' x. syli_rt_ownership_alloc_object 24 (\<lambda>_. 0) cons_header 1 2 cycle_sample = Inr (syli_ownership_set_own 24, s')
     \<and> gc_heap s' 24 = Some x \<and> obj_rc x = 1"
  using alloc_object_correct [OF cycle_sample_ready(1) cycle_sample_alloc] by fastforce

text \<open>Releasing what has just been shared gives back the state exactly, whatever the count, the
  flags and the zone of the object, as long as it was alive.\<close>

lemma share_release:
  assumes "shareable v" and "gc_heap s (syli_ownership_untag v) = Some x" and "0 < obj_rc x"
    and "syli_rt_ownership_share v s = Inr (w, s1)"
  shows "w = syli_ownership_set_own v \<and> syli_rt_ownership_release w s1 = Inr s"
proof -
  let ?p = "syli_ownership_untag v"
  have p: "?p \<noteq> 0" using assms(1) by (simp add: shareable_def)
  have w: "w = syli_ownership_set_own v" and s1: "syli_rt_object_incr ?p s = Inr s1"
    using assms(4) share_runs(1) [OF assms(1), of s] by (auto simp: and_then_eq_Inr)
  have own: "syli_ownership_is_own_ref w" "syli_ownership_untag w = ?p" using set_own_shareable [OF assms(1)] by (simp_all add: w)
  from share_runs(4) [OF own_shareable [OF own(1)] own(1), of s1] p own(2)
  have run: "syli_rt_ownership_release w s1 = syli_rt_object_decr ?p w s1" by simp
  show ?thesis
  proof (cases "syli_object_get_zone (header_word x) = Zone_GcLocal")
    case True
    let ?y = "set_meta (meta_ref_count x + 1) x"
    have s1': "s1 = s\<lparr>gc_heap := (gc_heap s)(?p \<mapsto> ?y)\<rparr>"
      using s1 True assms(2) p
      by (simp add: syli_rt_object_incr_def deref_live write_meta_live on_heap_def Let_def)
    have restored: "set_meta (meta_ref_count x) x = x" by (simp add: set_meta_def)
    have keep: "(gc_heap s)(?p \<mapsto> x) = gc_heap s" "s\<lparr>gc_heap := gc_heap s\<rparr> = s" using assms(2) by auto
    have "syli_object_refcount ?p (gc_heap s) = Inr (meta_ref_count x AND REFCOUNT_MASK)"
      using object_ops_local(4) [of ?p "gc_heap s" x] p assms(2) True by (simp add: obj_local_def)
    moreover have "meta_ref_count x AND REFCOUNT_MASK \<noteq> 0" using assms(3) by (auto simp: obj_rc_def)
    ultimately show ?thesis
      using True p keep w assms(2) unfolding run
      by (simp add: syli_rt_object_decr_def s1' deref_live write_meta_live on_heap_def Let_def check_def restored)
  next
    case False
    then have "s1 = s" using s1 assms(2) p by (simp add: syli_rt_object_incr_def deref_live Let_def split: if_splits)
    with False p assms(2) w show ?thesis unfolding run
      by (simp add: syli_rt_object_decr_def deref_live Let_def check_def)
  qed
qed

text \<open>C17: sharing a reference to a live object whose count is below its 56-bit limit, and that the tracer
  has seen when a collection is paused, returns it own-tagged, with the count one higher,
  the invariant with one more reference of the program, and every other object untouched;
  making a borrow owned does the same (an own reference is returned as it is), and releasing the
  new reference gives back exactly the state before.\<close>

theorem share_counts:
  assumes "ready ext s" and "shareable v" and "gc_heap s (syli_ownership_untag v) = Some x"
    and "0 < obj_rc x" and "obj_rc x + 1 < 2 ^ 56" and "tracer_sees s (syli_ownership_untag v)"
  shows "\<exists>s'. syli_rt_ownership_share v s = Inr (syli_ownership_set_own v, s')
     \<and> (\<not> syli_ownership_is_own_ref v \<longrightarrow>
          syli_rt_ownership_own v s = Inr (syli_ownership_set_own (syli_ownership_untag v), s'))
     \<and> (syli_ownership_is_own_ref v \<longrightarrow> syli_rt_ownership_own v s = Inr (v, s))
     \<and> ready (held (syli_ownership_untag v) ext) s'
     \<and> rc_at (gc_heap s') (syli_ownership_untag v) = obj_rc x + 1
     \<and> (\<forall>q. q \<noteq> syli_ownership_untag v \<longrightarrow> gc_heap s' q = gc_heap s q)
     \<and> syli_rt_ownership_release (syli_ownership_set_own v) s' = Inr s"
proof -
  obtain s' where s': "syli_rt_object_incr (syli_ownership_untag v) s = Inr s'"
    "ready (held (syli_ownership_untag v) ext) s'" "rc_at (gc_heap s') (syli_ownership_untag v) = obj_rc x + 1"
    "\<forall>q. q \<noteq> syli_ownership_untag v \<longrightarrow> gc_heap s' q = gc_heap s q"
    using ready_incr [OF assms(1,3-6)] by blast
  moreover have run: "syli_rt_ownership_share v s = Inr (syli_ownership_set_own v, s')"
    using share_runs(1) [OF assms(2), of s] s'(1) by simp
  moreover note share_release [OF assms(2-4) run]
  ultimately show ?thesis using share_runs(3) [OF assms(2), of s] by (intro exI [of _ s']) simp
qed

theorem share_counts_witness:
  "\<exists>s'. syli_rt_ownership_share 9 cycle_sample = Inr (syli_ownership_set_own 9, s') \<and> rc_at (gc_heap s') 8 = 2
     \<and> syli_rt_ownership_release (syli_ownership_set_own 9) s' = Inr cycle_sample"
proof -
  have "shareable 9" by (rule own_shareable) (simp_all add: sample_untag syli_ownership_is_own_ref_def tag_defs)
  moreover have "gc_heap cycle_sample (syli_ownership_untag 9) = Some (set_meta 1 parent_object)"
    by (simp add: cycle_sample_heap sample_untag)
  ultimately show ?thesis
    using share_counts [OF cycle_sample_ready(1) _ _ _ _ cycle_sample_ready(2)] idle_facts(2) by (fastforce simp: sample_untag)
qed


lemma cycle_sample_plain: "plain_imm (gc_heap cycle_sample)"
  by (auto simp: plain_imm_def cycle_sample_heap set_meta_def parent_object_def leaf_object_def
      syli_object_is_cyclic_mutable_def header_mask_defs imm_flag_defs split: if_splits)


end
