(* ===== verification/Mutator.thy ===== *)
theory Mutator
  imports Runtime
begin

text \<open>
  The program and the collectors together: a store with its write barrier while marking is
  under way or paused, and whole runs of the program as a step relation with its invariant.
\<close>

section \<open>A store while marking is under way\<close>

text \<open>No marked object points to a white one, except those whose children are still to be pushed.\<close>

definition tri_edges :: "Syli_state \<Rightarrow> bool" where
  "tri_edges s \<longleftrightarrow> (\<forall>p x v. gc_heap s p = Some x \<longrightarrow> 0 < obj_rc x
     \<longrightarrow> obj_marked (tracing_current_bit_mark s) x \<longrightarrow> p \<notin> pending s \<longrightarrow> v \<in> set (own_refs x)
     \<longrightarrow> shaded s (syli_ownership_untag v))"

lemma tricolour_edges: "tricolour ext s \<longleftrightarrow> (\<forall>p. 0 < ext p \<longrightarrow> shaded s p) \<and> tri_edges s"
  by (simp add: tricolour_def tri_edges_def)

text \<open>What a store with its barrier leaves alone: every object is there with its header, its count and
  the state of its teardown, and marks are only set.\<close>

definition touched :: "u64 \<Rightarrow> heap \<Rightarrow> heap \<Rightarrow> bool" where
  "touched b h h' \<longleftrightarrow> dom h' = dom h \<and> (\<forall>p x y. h p = Some x \<longrightarrow> h' p = Some y \<longrightarrow>
     header_word y = header_word x \<and> obj_rc y = obj_rc x
     \<and> obj_flag Meta_Flags_Waiting_Remove y = obj_flag Meta_Flags_Waiting_Remove x
     \<and> obj_flag Meta_Flags_Children_Released y = obj_flag Meta_Flags_Children_Released x
     \<and> (obj_marked b x \<longrightarrow> obj_marked b y))"

lemma touched_upd:
  assumes "h p = Some x" and "header_word y = header_word x" and "obj_rc y = obj_rc x"
    and "obj_flag Meta_Flags_Waiting_Remove y = obj_flag Meta_Flags_Waiting_Remove x"
    and "obj_flag Meta_Flags_Children_Released y = obj_flag Meta_Flags_Children_Released x"
    and "obj_marked b x \<longrightarrow> obj_marked b y"
  shows "touched b h (h(p \<mapsto> y))"
  using assms by (auto simp: touched_def)

lemma touched_trans:
  assumes "touched b h1 h2" and "touched b h2 h3"
  shows "touched b h1 h3"
  unfolding touched_def
proof (intro conjI allI impI)
  show "dom h3 = dom h1" using assms by (simp add: touched_def)
  fix p x z
  assume x: "h1 p = Some x" and z: "h3 p = Some z"
  then obtain y where y: "h2 p = Some y" using assms(1) unfolding touched_def by blast
  note xy = assms(1) [unfolded touched_def, THEN conjunct2, rule_format, OF x y]
    and yz = assms(2) [unfolded touched_def, THEN conjunct2, rule_format, OF y z]
  from xy yz show "header_word z = header_word x" and "obj_rc z = obj_rc x"
    and "obj_flag Meta_Flags_Waiting_Remove z = obj_flag Meta_Flags_Waiting_Remove x"
    and "obj_flag Meta_Flags_Children_Released z = obj_flag Meta_Flags_Children_Released x"
    and "obj_marked b x \<Longrightarrow> obj_marked b z" by simp_all
qed

definition stored :: "nat \<Rightarrow> obj_ptr \<Rightarrow> gc_object \<Rightarrow> gc_object" where
  "stored i v x = x\<lparr>obj_value := (obj_value x)[i := v]\<rparr>"

lemma stored_refs:
  assumes "i \<in> set (ref_slots (header_word x))" and "i < length (obj_value x)"
  shows "is_own_field v \<Longrightarrow> v \<in> set (own_refs (stored i v x))"
    and "is_own_field (obj_value x ! i) \<Longrightarrow> obj_value x ! i \<in> set (own_refs x)"
    and "set (own_refs (stored i v x)) \<subseteq> insert v (set (own_refs x))"
  using assms by (auto simp: own_refs_def stored_def nth_list_update image_iff)

lemma stored_same [simp]:
  "header_word (stored i v x) = header_word x" "obj_marked b (stored i v x) = obj_marked b x"
  "obj_flag f (stored i v x) = obj_flag f x" "obj_rc (stored i v x) = obj_rc x"
  by (simp_all add: stored_def obj_marked_def obj_flag_def obj_rc_def)

text \<open>The barrier, after the store: nothing, or the new child is marked and noted.\<close>

lemma notify_run:
  assumes "tracing_state s = Tracing \<or> tracing_state s = Mutation_Prepare"
    and "syli_ownership_is_own_ref cp" and "syli_ownership_untag cp = p" and "syli_ownership_untag v = c"
    and "p \<noteq> 0" and "c \<noteq> 0" and "gc_heap s p = Some y" and "gc_heap s c = Some z"
  shows "syli_rt_ownership_notify_mutation cp v s =
    (if obj_marked (tracing_current_bit_mark s) y \<and> syli_object_is_traceable (header_word y)
        \<and> \<not> obj_marked (tracing_current_bit_mark s) z
     then and_then (gc_mark_tag_object c s) (\<lambda>s.
       Inr (s\<lparr>tracing_mutations_worklist := tracing_mutations_worklist s @ [v]\<rparr>))
     else Inr s)"
proof -
  have "\<not> syli_ownership_is_immediate cp"
    using assms(2) by (simp add: syli_ownership_is_own_ref_def syli_ownership_is_immediate_def tag_defs)
  with assms show ?thesis
    by (simp add: syli_rt_ownership_notify_mutation_def syli_rt_object_notify_mutation_def Let_def check_def
        syli_object_of_obj_ptr_def is_mark_tagged deref_live gc_vector_push_back_def)
qed

text \<open>The store alone: the only new edge is the one from the container to \<open>v\<close>.\<close>

lemma store_edges:
  assumes inv: "heap_inv ext {} s" and mut: "mutations_ok s" and tri: "tri_edges s"
    and x: "gc_heap s p = Some x" "reachable ext (gc_heap s) p"
    and i: "i \<in> set (ref_slots (header_word x))" "syli_object_has_pointers (header_word x)"
    and mv: "moved v (obj_value x ! i) ext ext'"
    and st: "on_heap (write_field p i v) s = Inr s1"
  obtains h1 where "h1 = (gc_heap s)(p \<mapsto> stored i v x)" and "s1 = s\<lparr>gc_heap := h1\<rparr>" and "heap_inv ext' {} s1"
    and "h1 p = Some (stored i v x)" and "touched (tracing_current_bit_mark s) (gc_heap s) h1"
    and "\<forall>q. shaded s1 q \<longleftrightarrow> shaded s q" and "mutations_ok s1"
    and "\<forall>q a u. h1 q = Some a \<longrightarrow> 0 < obj_rc a \<longrightarrow> obj_marked (tracing_current_bit_mark s) a \<longrightarrow> q \<notin> pending s
       \<longrightarrow> u \<in> set (own_refs a) \<longrightarrow> shaded s (syli_ownership_untag u) \<or> q = p \<and> u = v"
proof -
  let ?b = "tracing_current_bit_mark s" and ?y = "stored i v x"
  define h1 where "h1 = (gc_heap s)(p \<mapsto> ?y)"
  have xw: "0 < obj_rc x" "\<not> obj_flag Meta_Flags_Waiting_Remove x" using reachable_live [OF inv x(2)] x(1) by auto
  note S = store_spec [OF inv x(1) xw(2) i mv, folded stored_def, folded h1_def]
  have s1: "s1 = s\<lparr>gc_heap := h1\<rparr>" using S(1) st by simp
  have H1: "heap_inv ext' {} s1" using S(2) by (simp add: s1)
  have px: "p \<noteq> 0" "obj_ok x" using heap_okD [OF heap_invD(1) [OF inv] x(1)] by auto
  have len: "i < length (obj_value x)" using px(2) i(1) by (simp add: obj_ok_def)
  have h1p: "h1 p = Some ?y" by (simp add: h1_def)
  have t1: "touched ?b (gc_heap s) h1" unfolding h1_def by (rule touched_upd [where h = "gc_heap s", OF x(1)]) simp_all
  have shade1: "\<forall>q. shaded s1 q \<longleftrightarrow> shaded s q" using x(1) by (auto simp: shaded_def s1 h1_def)
  have mut1: "mutations_ok s1" using mut x(1) xw by (fastforce simp: mutations_ok_def s1 h1_def)
  have edge: "shaded s (syli_ownership_untag u) \<or> q = p \<and> u = v"
    if q: "h1 q = Some a" "0 < obj_rc a" "obj_marked ?b a" "q \<notin> pending s" "u \<in> set (own_refs a)" for q a u
  proof (cases "q = p")
    case True
    then have "u = v \<or> u \<in> set (own_refs x)" "obj_marked ?b x"
      using q(1,3,5) h1p stored_refs(3) [OF i(1) len, of v] by auto
    with tri x q(4) xw(1) True show ?thesis unfolding tri_edges_def by blast
  next
    case False
    then have "gc_heap s q = Some a" using q(1) by (simp add: h1_def)
    with tri q(2-5) show ?thesis unfolding tri_edges_def by blast
  qed
  show thesis by (rule that [OF h1_def s1 H1 h1p t1 shade1 mut1]) (use edge in blast)
qed

text \<open>Marking the child \<open>z\<close> and noting it for the mutation round.\<close>

lemma note_child:
  assumes H1: "heap_inv ext {} s" and mut: "mutations_ok s" and own: "syli_ownership_is_own_ref v"
    and z: "gc_heap s (syli_ownership_untag v) = Some z" "\<not> obj_flag Meta_Flags_Waiting_Remove z"
  obtains s' z' where "and_then (gc_mark_tag_object (syli_ownership_untag v) s)
        (\<lambda>s. Inr (s\<lparr>tracing_mutations_worklist := tracing_mutations_worklist s @ [v]\<rparr>)) = Inr s'"
    and "s' = s\<lparr>gc_heap := (gc_heap s)(syli_ownership_untag v \<mapsto> z'),
        tracing_mutations_worklist := tracing_mutations_worklist s @ [v]\<rparr>"
    and "heap_inv ext {} s'" and "mutations_ok s'"
    and "touched (tracing_current_bit_mark s) (gc_heap s) (gc_heap s')" and "\<And>q. shaded s q \<Longrightarrow> shaded s' q"
    and "shaded s' (syli_ownership_untag v)"
proof -
  let ?b = "tracing_current_bit_mark s" and ?c = "syli_ownership_untag v"
  obtain z' where m: "gc_mark_tag_object ?c s = Inr (s\<lparr>gc_heap := (gc_heap s)(?c \<mapsto> z')\<rparr>)"
    "heap_inv ext {} (s\<lparr>gc_heap := (gc_heap s)(?c \<mapsto> z')\<rparr>)" "same_fields z z'" "obj_rc z' = obj_rc z"
    "\<forall>(f, k) \<in> meta_bits. f \<noteq> MASK_MARKING_BIT \<longrightarrow> obj_flag f z' = obj_flag f z" "obj_marked ?b z'"
    using mark_keeps_inv [OF H1, of ?c z] z by auto
  define s' where "s' = s\<lparr>gc_heap := (gc_heap s)(?c \<mapsto> z'), tracing_mutations_worklist := tracing_mutations_worklist s @ [v]\<rparr>"
  have h': "gc_heap s' = (gc_heap s)(?c \<mapsto> z')" by (simp add: s'_def)
  have H': "heap_inv ext {} s'" using m(2) by (simp add: s'_def heap_inv_def)
  have fl: "obj_flag Meta_Flags_Waiting_Remove z' = obj_flag Meta_Flags_Waiting_Remove z"
    "obj_flag Meta_Flags_Children_Released z' = obj_flag Meta_Flags_Children_Released z"
    using m(5) waiting_bit_in released_bit_in flags_distinct by fastforce+
  have t: "touched ?b (gc_heap s) (gc_heap s')"
    unfolding h' by (rule touched_upd [where h = "gc_heap s", OF z(1)]) (use m(3,4,6) fl in \<open>simp_all add: same_fields_def\<close>)
  have sh: "shaded s' q" if "shaded s q" for q using that m(6) by (auto simp: shaded_def s'_def)
  have c: "shaded s' ?c" using m(6) by (simp add: shaded_def s'_def)
  have live: "\<exists>a. gc_heap s' q = Some a \<and> \<not> obj_flag Meta_Flags_Waiting_Remove a"
    if "gc_heap s q = Some a" "\<not> obj_flag Meta_Flags_Waiting_Remove a" for q a using that fl z(2) by (auto simp: h')
  then have "\<forall>u \<in> set (tracing_mutations_worklist s). syli_ownership_is_own_ref u
      \<and> (\<exists>a. gc_heap s' (syli_ownership_untag u) = Some a \<and> \<not> obj_flag Meta_Flags_Waiting_Remove a)"
    using mut unfolding mutations_ok_def by blast
  moreover have "tracing_mutations_worklist s' = tracing_mutations_worklist s @ [v]" by (simp add: s'_def)
  ultimately have mo: "mutations_ok s'" using live [OF z] own unfolding mutations_ok_def by simp
  have "and_then (gc_mark_tag_object ?c s) (\<lambda>s. Inr (s\<lparr>tracing_mutations_worklist := tracing_mutations_worklist s @ [v]\<rparr>)) = Inr s'"
    unfolding m(1) by (simp add: s'_def)
  then show thesis by (rule that [OF _ s'_def H' mo t sh c])
qed

text \<open>A container that is white or not traceable, or a shaded child: the barrier has nothing to do. All
  edges are of the kind that \<open>store_edges\<close> leaves.\<close>

lemma shaded_edges:
  assumes edge: "\<forall>q a u. gc_heap s1 q = Some a \<longrightarrow> 0 < obj_rc a \<longrightarrow> obj_marked (tracing_current_bit_mark s1) a
       \<longrightarrow> q \<notin> pending s1 \<longrightarrow> u \<in> set (own_refs a) \<longrightarrow> shaded s1 (syli_ownership_untag u) \<or> q = p \<and> u = v"
    and y: "gc_heap s1 p = Some y"
    and new: "obj_marked (tracing_current_bit_mark s1) y \<Longrightarrow> shaded s1 (syli_ownership_untag v)"
  shows "tri_edges s1"
  unfolding tri_edges_def
proof (intro allI impI)
  fix q a u
  assume q: "gc_heap s1 q = Some a" "0 < obj_rc a" "obj_marked (tracing_current_bit_mark s1) a" "q \<notin> pending s1"
    "u \<in> set (own_refs a)"
  with edge have "shaded s1 (syli_ownership_untag u) \<or> q = p \<and> u = v" by blast
  with q(1,3) y new show "shaded s1 (syli_ownership_untag u)" by auto
qed

lemma barrier_spec:
  assumes inv: "heap_inv ext {} s" and mut: "mutations_ok s" and tri: "tri_edges s"
    and phase: "tracing_state s = Tracing \<or> tracing_state s = Mutation_Prepare"
    and x: "gc_heap s p = Some x" "reachable ext (gc_heap s) p"
    and i: "i \<in> set (ref_slots (header_word x))" "syli_object_has_pointers (header_word x)"
      "syli_object_is_traceable (header_word x) \<or> shaded s (syli_ownership_untag v)"
    and v: "is_own_field v" and mv: "moved v (obj_value x ! i) ext ext'"
    and cp: "syli_ownership_is_own_ref cp" "syli_ownership_untag cp = p"
    and st: "on_heap (write_field p i v) s = Inr s1"
  obtains s' h ms where "syli_rt_ownership_notify_mutation cp v s1 = Inr s'"
    and "s' = s\<lparr>gc_heap := h, tracing_mutations_worklist := ms\<rparr>" and "heap_inv ext' {} s'" and "mutations_ok s'"
    and "tri_edges s'" and "\<forall>q. shaded s q \<longrightarrow> shaded s' q"
    and "obj_marked (tracing_current_bit_mark s) x \<longrightarrow> shaded s' (syli_ownership_untag v)"
    and "touched (tracing_current_bit_mark s) (gc_heap s) h"
proof -
  let ?b = "tracing_current_bit_mark s" and ?c = "syli_ownership_untag v" and ?y = "stored i v x"
  obtain h1 where s1: "s1 = s\<lparr>gc_heap := h1\<rparr>" and H1: "heap_inv ext' {} s1" and h1p: "h1 p = Some ?y"
    and t1: "touched ?b (gc_heap s) h1"
    and sh: "\<forall>q. shaded s1 q \<longleftrightarrow> shaded s q" and mut1: "mutations_ok s1"
    and ed: "\<forall>q a u. h1 q = Some a \<longrightarrow> 0 < obj_rc a \<longrightarrow> obj_marked ?b a \<longrightarrow> q \<notin> pending s
       \<longrightarrow> u \<in> set (own_refs a) \<longrightarrow> shaded s (syli_ownership_untag u) \<or> q = p \<and> u = v"
    by (rule store_edges [OF inv mut tri x i(1,2) mv st])
  have px: "p \<noteq> 0" "i < length (obj_value x)"
    using heap_okD [OF heap_invD(1) [OF inv] x(1)] i(1) by (auto simp: obj_ok_def)
  have "\<not> obj_flag Meta_Flags_Waiting_Remove x" using reachable_live [OF inv x(2)] x(1) by auto
  then obtain z where z: "h1 ?c = Some z" "\<not> obj_flag Meta_Flags_Waiting_Remove z"
    using holder_child_live [OF H1, of p ?y v] h1p stored_refs(1) [OF i(1) px(2) v] by (auto simp: s1)
  have c0: "?c \<noteq> 0" using heap_okD [OF heap_invD(1) [OF H1]] z(1) by (auto simp: s1)
  have shade1: "shaded s1 q \<longleftrightarrow> shaded s q" for q using sh by blast
  have edge: "shaded s (syli_ownership_untag u) \<or> q = p \<and> u = v"
    if "h1 q = Some a" "0 < obj_rc a" "obj_marked ?b a" "q \<notin> pending s" "u \<in> set (own_refs a)" for q a u
    using ed that by blast
  note run = notify_run [of s1 cp p v ?c ?y z, OF _ cp refl px(1) c0]
  have phase1: "tracing_state s1 = Tracing \<or> tracing_state s1 = Mutation_Prepare" using phase by (simp add: s1)
  show thesis
  proof (cases "obj_marked ?b x \<and> syli_object_is_traceable (header_word x) \<and> \<not> obj_marked ?b z")
    case False
    then have r: "syli_rt_ownership_notify_mutation cp v s1 = Inr s1"
      using run phase1 h1p z(1) by (auto simp: s1)
    have new: "shaded s1 ?c" if "obj_marked ?b x"
    proof (cases "obj_marked ?b z")
      case True
      then show ?thesis using z(1) by (simp add: shaded_def s1)
    next
      case nz: False
      with False that i(3) shade1 show ?thesis by blast
    qed
    have "tri_edges s1"
      by (rule shaded_edges [where p = p and v = v and y = ?y])
        (use ed h1p shade1 new in \<open>auto simp: s1 pending_def\<close>)
    with r H1 mut1 shade1 new t1 show thesis
      by (intro that [where s' = s1 and h = h1 and ms = "tracing_mutations_worklist s"]) (simp_all add: s1)
  next
    case True
    have own: "syli_ownership_is_own_ref v" using v by (simp add: is_own_field_def)
    have z1: "gc_heap s1 ?c = Some z" using z(1) by (simp add: s1)
    obtain s' z' where m: "and_then (gc_mark_tag_object ?c s1)
        (\<lambda>s. Inr (s\<lparr>tracing_mutations_worklist := tracing_mutations_worklist s @ [v]\<rparr>)) = Inr s'"
      and s': "s' = s1\<lparr>gc_heap := (gc_heap s1)(?c \<mapsto> z'), tracing_mutations_worklist := tracing_mutations_worklist s1 @ [v]\<rparr>"
      and H': "heap_inv ext' {} s'" and mut': "mutations_ok s'"
      and t2: "touched (tracing_current_bit_mark s1) (gc_heap s1) (gc_heap s')"
      and shade': "\<And>q. shaded s1 q \<Longrightarrow> shaded s' q" and c': "shaded s' ?c"
      by (rule note_child [OF H1 mut1 own z1 z(2)]) blast
    have "syli_rt_ownership_notify_mutation cp v s1
        = and_then (gc_mark_tag_object ?c s1) (\<lambda>s. Inr (s\<lparr>tracing_mutations_worklist := tracing_mutations_worklist s @ [v]\<rparr>))"
      using run phase1 h1p z(1) True by (auto simp: s1)
    with m have r: "syli_rt_ownership_notify_mutation cp v s1 = Inr s'" by simp
    have t: "touched ?b (gc_heap s) (gc_heap s')"
      by (rule touched_trans [OF t1]) (use t2 in \<open>simp add: s1\<close>)
    have "shaded s' (syli_ownership_untag u)"
      if q: "gc_heap s' q = Some a" "0 < obj_rc a" "obj_marked ?b a" "q \<notin> pending s'" "u \<in> set (own_refs a)" for q a u
    proof -
      have q': "q \<noteq> ?c" "q \<notin> pending s" using q(4) by (auto simp: pending_def s' s1)
      then have "h1 q = Some a" using q(1) by (simp add: s' s1)
      from edge [OF this q(2,3) q'(2) q(5)] shade' shade1 c' show ?thesis by blast
    qed
    then have "tri_edges s'" unfolding tri_edges_def by (simp add: s' s1)
    moreover have "s' = s\<lparr>gc_heap := gc_heap s', tracing_mutations_worklist := tracing_mutations_worklist s @ [v]\<rparr>"
      by (simp add: s' s1)
    ultimately show thesis using r H' mut' shade' shade1 c' t by (intro that [OF r]) blast+
  qed
qed

text \<open>C11: a store, through an own reference to its container, of an own reference into a field of a reachable object while
  marking is under way, followed by the barrier, where the container is traceable or the target already
  shaded:
  neither fails, counts stay exact with the reference moved from the program to the field and the old one given to the
  program, no marked object points to a white one but those noted for the mutation round, nothing shaded becomes white, and a marked container has a shaded new
  child. (For a borrowed container the barrier does nothing: \<open>barrier_ignores_borrow\<close>.)\<close>

theorem write_barrier:
  assumes "heap_inv ext {} s" and "mutations_ok s" and "tri_edges s"
    and "tracing_state s = Tracing \<or> tracing_state s = Mutation_Prepare"
    and "gc_heap s p = Some x" and "reachable ext (gc_heap s) p"
    and "i \<in> set (ref_slots (header_word x))" and "syli_object_has_pointers (header_word x)"
    and "syli_object_is_traceable (header_word x) \<or> shaded s (syli_ownership_untag v)"
    and "is_own_field v" and "moved v (obj_value x ! i) ext ext'"
    and "syli_ownership_is_own_ref cp" and "syli_ownership_untag cp = p"
  shows "\<exists>s1 s'. on_heap (write_field p i v) s = Inr s1 \<and> syli_rt_ownership_notify_mutation cp v s1 = Inr s'
     \<and> heap_inv ext' {} s' \<and> mutations_ok s' \<and> tri_edges s'
     \<and> (\<forall>q. shaded s q \<longrightarrow> shaded s' q)
     \<and> (obj_marked (tracing_current_bit_mark s) x \<longrightarrow> shaded s' (syli_ownership_untag v))"
proof -
  have "\<not> obj_flag Meta_Flags_Waiting_Remove x" using reachable_live [OF assms(1,6)] assms(5) by auto
  from store_spec(1) [OF assms(1,5) this assms(7,8,11)] obtain s1 where st: "on_heap (write_field p i v) s = Inr s1"
    by blast
  show ?thesis by (rule barrier_spec [OF assms st]) (use st in blast)
qed

text \<open>What holds of all references of the program, such as being to a shaded object, holds of them after
  the store too when it holds of the reference overwritten, which the program now has.\<close>

lemma moved_closed:
  assumes ext: "\<And>q. 0 < ext q \<Longrightarrow> R q" and mv: "moved v w ext ext'"
    and old: "is_own_field w \<Longrightarrow> R (syli_ownership_untag w)"
  shows "is_own_field v \<Longrightarrow> R (syli_ownership_untag v)" and "0 < ext' q \<Longrightarrow> R q"
proof -
  have held: "0 < ext r \<or> is_own_field w \<and> syli_ownership_untag w = r"
    if "0 < ext' r + (if is_own_field v \<and> syli_ownership_untag v = r then 1 else 0)" for r
    using that unfolding mv [unfolded moved_def, rule_format, of r] by (auto split: if_splits)
  have "R r" if "0 < ext' r + (if is_own_field v \<and> syli_ownership_untag v = r then 1 else 0)" for r
    using held [OF that] ext old by blast
  from this [of "syli_ownership_untag v"] this [of q]
  show "is_own_field v \<Longrightarrow> R (syli_ownership_untag v)" and "0 < ext' q \<Longrightarrow> R q" by simp_all
qed

text \<open>So the invariant of marking itself survives the store.\<close>

lemma store_marking:
  assumes inv: "marking_inv ext s" and phase: "tracing_state s = Tracing \<or> tracing_state s = Mutation_Prepare"
    and x: "gc_heap s p = Some x" "reachable ext (gc_heap s) p"
    and i: "i \<in> set (ref_slots (header_word x))" "syli_object_has_pointers (header_word x)"
    and v: "is_own_field v" and mv: "moved v (obj_value x ! i) ext ext'"
    and cp: "syli_ownership_is_own_ref cp" "syli_ownership_untag cp = p"
    and old: "is_own_field (obj_value x ! i) \<Longrightarrow> shaded s (syli_ownership_untag (obj_value x ! i))"
    and st: "on_heap (write_field p i v) s = Inr s1"
  obtains s' h ms where "syli_rt_ownership_notify_mutation cp v s1 = Inr s'"
    and "s' = s\<lparr>gc_heap := h, tracing_mutations_worklist := ms\<rparr>" and "marking_inv ext' s'"
    and "touched (tracing_current_bit_mark s) (gc_heap s) h"
proof -
  have I: "heap_inv ext {} s" "mutations_ok s" "tri_edges s" "\<And>q. 0 < ext q \<Longrightarrow> shaded s q"
    using inv by (simp_all add: marking_inv_def tricolour_edges)
  note sh = moved_closed [of ext "shaded s" v "obj_value x ! i" ext', OF I(4) mv old]
  have sv: "shaded s (syli_ownership_untag v)" using sh(1) v by blast
  obtain s' h ms where s': "syli_rt_ownership_notify_mutation cp v s1 = Inr s'"
    "s' = s\<lparr>gc_heap := h, tracing_mutations_worklist := ms\<rparr>" "heap_inv ext' {} s'" "mutations_ok s'"
    "tri_edges s'" "\<forall>q. shaded s q \<longrightarrow> shaded s' q" "touched (tracing_current_bit_mark s) (gc_heap s) h"
    by (rule barrier_spec [OF I(1-3) phase x i disjI2 [OF sv] v mv cp st])
  have "marking_inv ext' s'"
    using s'(3-6) sh(2) by (simp add: marking_inv_def tricolour_edges)
  with s'(1,2,7) show thesis by (intro that)
qed

text \<open>Marking goes on to its end after the barrier, whatever white object has been stored: the
  reference stored may be the only one the tracer has not seen.\<close>

lemma barrier_marking:
  assumes I: "heap_inv ext {} s" "mutations_ok s" "tri_edges s"
    and ext: "\<And>q. 0 < ext q \<Longrightarrow> shaded s q \<or> q = syli_ownership_untag v" and phase: "marking_phase s"
    and x: "gc_heap s p = Some x" "reachable ext (gc_heap s) p"
    and i: "i \<in> set (ref_slots (header_word x))" "syli_object_has_pointers (header_word x)"
      "syli_object_is_traceable (header_word x) \<or> shaded s (syli_ownership_untag v)"
    and v: "is_own_field v" and mv: "moved v (obj_value x ! i) ext ext'"
    and cp: "syli_ownership_is_own_ref cp" "syli_ownership_untag cp = p"
    and old: "is_own_field (obj_value x ! i) \<Longrightarrow> shaded s (syli_ownership_untag (obj_value x ! i))"
    and kept: "obj_marked (tracing_current_bit_mark s) x \<or> ext' (syli_ownership_untag v) = 0
      \<or> shaded s (syli_ownership_untag v)"
    and st: "on_heap (write_field p i v) s = Inr s1"
  obtains s' where "syli_rt_ownership_notify_mutation cp v s1 = Inr s'" and "marking_inv ext' s'" and "marking_phase s'"
    and "obj_marked (tracing_current_bit_mark s) x \<longrightarrow> shaded s' (syli_ownership_untag v)"
proof -
  let ?R = "\<lambda>q. shaded s q \<or> q = syli_ownership_untag v"
  have ph: "tracing_state s = Tracing \<or> tracing_state s = Mutation_Prepare"
    using phase by (auto simp: marking_phase_def)
  obtain s' h ms where s': "syli_rt_ownership_notify_mutation cp v s1 = Inr s'"
    "s' = s\<lparr>gc_heap := h, tracing_mutations_worklist := ms\<rparr>" "heap_inv ext' {} s'" "mutations_ok s'"
    "tri_edges s'" "\<forall>q. shaded s q \<longrightarrow> shaded s' q"
    "obj_marked (tracing_current_bit_mark s) x \<longrightarrow> shaded s' (syli_ownership_untag v)"
    "touched (tracing_current_bit_mark s) (gc_heap s) h"
    by (rule barrier_spec [OF I ph x i v mv cp st])
  have "shaded s' q" if q: "0 < ext' q" for q
  proof -
    have "?R q" by (rule moved_closed(2) [where R = ?R, OF ext mv _ q]) (use old in blast)+
    then show ?thesis using s'(6,7) kept q by auto
  qed
  then have "marking_inv ext' s'" using s'(3-5) by (simp add: marking_inv_def tricolour_edges)
  moreover have "marking_phase s'" using phase s'(2) by (simp add: marking_phase_def)
  ultimately show thesis using s'(1,7) that by blast
qed


text \<open>A marked cell at 8 and a white leaf at 16, both held by variables; the tracer is preparing
  mutations.\<close>

definition black_cell :: gc_object where
  "black_cell = \<lparr>header_word = cons_header, meta_ref_count = MASK_MARKING_BIT OR 1, obj_value = [0, 0, 0]\<rparr>"

definition barrier_sample :: Syli_state where
  "barrier_sample = (zero_state [8 \<mapsto> black_cell, 16 \<mapsto> leaf_object])
     \<lparr>tracing_state := Mutation_Prepare, tracing_budget := 2000, tracing_current_bit_mark := MASK_MARKING_BIT\<rparr>"

abbreviation two_roots :: "u64 \<Rightarrow> nat" where
  "two_roots \<equiv> (\<lambda>p. if p = 8 \<or> p = 16 then 1 else 0)"

lemma black_cell_facts:
  "own_refs black_cell = []" "obj_ok black_cell" "obj_rc black_cell = 1" "header_word black_cell = cons_header"
  "\<not> obj_flag Meta_Flags_Cyclic_Candidate black_cell" "\<not> obj_flag Meta_Flags_Tracing black_cell"
  "\<not> obj_flag Meta_Flags_Waiting_Remove black_cell" "obj_marked MASK_MARKING_BIT black_cell"
  "ref_slots cons_header = [0]" "obj_value black_cell = [0, 0, 0]" "syli_object_is_traceable cons_header"
proof -
  show slots: "ref_slots cons_header = [0]"
    using cons_header_fields by (simp add: ref_slots_def ref_count_def is_ref_slot_def syli_bitmap_is_ref_def upt_rec)
  show "own_refs black_cell = []" "obj_ok black_cell"
    using slots cons_header_fields
    by (simp_all add: own_refs_def obj_ok_def obj_local_def black_cell_def is_own_field_def)
  show "syli_object_is_traceable cons_header"
    by (simp add: cons_header_def imm_flag_defs syli_object_is_traceable_def header_mask_defs)
qed (simp_all add: black_cell_def obj_bit_defs)

lemma barrier_sample_inv: "heap_inv two_roots {} barrier_sample" "mutations_ok barrier_sample"
  "tri_edges barrier_sample" "marking_phase barrier_sample"
proof -
  let ?h = "[8 \<mapsto> black_cell, 16 \<mapsto> leaf_object]"
  have h: "gc_heap barrier_sample = ?h" by (simp add: barrier_sample_def zero_state_def)
  have "holders {} ?h = {8, 16}" using leaf_facts black_cell_facts by (auto simp: holders_def)
  then show "heap_inv two_roots {} barrier_sample"
    using leaf_facts black_cell_facts sample_untag
    by (auto simp: heap_inv_def barrier_sample_def zero_state_def heap_ok_def counts_ok_def
        incoming_def rc_at_def registry_inv_def traced_def split: if_splits)
  show "mutations_ok barrier_sample" by (simp add: mutations_ok_def barrier_sample_def zero_state_def)
  show "tri_edges barrier_sample"
    unfolding tri_edges_def h using black_cell_facts(1) leaf_facts(2) by (auto split: if_splits)
  show "marking_phase barrier_sample" by (simp add: marking_phase_def barrier_sample_def)
qed

lemma barrier_sample_store:
  "gc_heap barrier_sample 8 = Some black_cell" "reachable two_roots (gc_heap barrier_sample) 8"
  "0 \<in> set (ref_slots (header_word black_cell))" "syli_object_has_pointers (header_word black_cell)"
  "syli_object_is_traceable (header_word black_cell) \<or> shaded barrier_sample (syli_ownership_untag 17)" "is_own_field 17" "moved 17 (obj_value black_cell ! 0) two_roots one_root"
  "syli_ownership_is_own_ref 9" "syli_ownership_untag 9 = 8"
proof -
  show "reachable two_roots (gc_heap barrier_sample) 8" by (rule reachable.root) simp
  show "moved 17 (obj_value black_cell ! 0) two_roots one_root"
    by (simp add: moved_def black_cell_facts is_own_field_def sample_untag)
qed (simp_all add: barrier_sample_def zero_state_def black_cell_facts cons_header_fields sample_untag
    is_own_field_def syli_ownership_is_own_ref_def tag_defs)

theorem write_barrier_witness:
  "\<exists>s1 s'. on_heap (write_field 8 0 17) barrier_sample = Inr s1
     \<and> syli_rt_ownership_notify_mutation 9 17 s1 = Inr s' \<and> shaded s' 16"
proof -
  have "tracing_state barrier_sample = Tracing \<or> tracing_state barrier_sample = Mutation_Prepare"
    "obj_marked (tracing_current_bit_mark barrier_sample) black_cell"
    by (simp_all add: barrier_sample_def black_cell_facts)
  with write_barrier [OF barrier_sample_inv(1-3) _ barrier_sample_store] show ?thesis by (auto simp: sample_untag)
qed

text \<open>The same with the leaf on the tracing worklist: a state inside marking.\<close>

definition grey_leaf :: gc_object where
  "grey_leaf = set_meta (Meta_Flags_Tracing OR 1) leaf_object"

definition grey_sample :: Syli_state where
  "grey_sample = barrier_sample\<lparr>gc_heap := [8 \<mapsto> black_cell, 16 \<mapsto> grey_leaf], tracing_worklist := [17]\<rparr>"

lemma grey_leaf_facts:
  "obj_ok grey_leaf" "own_refs grey_leaf = []" "obj_rc grey_leaf = 1"
  "\<not> obj_flag Meta_Flags_Cyclic_Candidate grey_leaf" "obj_flag Meta_Flags_Tracing grey_leaf"
  "\<not> obj_flag Meta_Flags_Waiting_Remove grey_leaf"
proof -
  show "obj_ok grey_leaf" "own_refs grey_leaf = []" using leaf_facts(1,2) by (simp_all add: grey_leaf_def)
qed (simp_all add: grey_leaf_def leaf_object_def obj_bit_defs set_meta_def)

lemma grey_sample_inv: "marking_inv two_roots grey_sample" "marking_phase grey_sample"
  "gc_heap grey_sample 8 = Some black_cell" "reachable two_roots (gc_heap grey_sample) 8"
proof -
  let ?h = "[8 \<mapsto> black_cell, 16 \<mapsto> grey_leaf]"
  have "holders {} ?h = {8, 16}" using grey_leaf_facts black_cell_facts by (auto simp: holders_def)
  then have "heap_inv two_roots {} grey_sample"
    using grey_leaf_facts black_cell_facts sample_untag
    by (auto simp: heap_inv_def grey_sample_def barrier_sample_def zero_state_def heap_ok_def counts_ok_def
        incoming_def rc_at_def registry_inv_def traced_def split: if_splits)
  then show "marking_inv two_roots grey_sample"
    using black_cell_facts grey_leaf_facts
    by (auto simp: marking_inv_def tricolour_def mutations_ok_def shaded_def
        grey_sample_def barrier_sample_def zero_state_def split: if_splits)
  show "marking_phase grey_sample" by (simp add: marking_phase_def grey_sample_def barrier_sample_def)
  show "gc_heap grey_sample 8 = Some black_cell" by (simp add: grey_sample_def)
  show "reachable two_roots (gc_heap grey_sample) 8" by (rule reachable.root) simp
qed


section \<open>A store while a collection is paused\<close>

lemma touched_sets:
  assumes "touched b h h'"
  shows "dead {} h' = dead {} h" and "torn h' \<inter> holders {} h' = torn h \<inter> holders {} h"
    and "plain_imm h \<Longrightarrow> plain_imm h'"
proof -
  have same: "h' p = None \<longleftrightarrow> h p = None" for p using assms unfolding touched_def by (metis domIff)
  have obj: "header_word y = header_word x \<and> obj_rc y = obj_rc x
     \<and> obj_flag Meta_Flags_Waiting_Remove y = obj_flag Meta_Flags_Waiting_Remove x
     \<and> obj_flag Meta_Flags_Children_Released y = obj_flag Meta_Flags_Children_Released x"
    if "h p = Some x" "h' p = Some y" for p x y using assms that unfolding touched_def by blast
  have "(p \<in> dead {} h' \<longleftrightarrow> p \<in> dead {} h) \<and> (p \<in> torn h' \<inter> holders {} h' \<longleftrightarrow> p \<in> torn h \<inter> holders {} h)
      \<and> (plain_imm h \<longrightarrow> (\<forall>y. h' p = Some y \<longrightarrow> syli_object_is_mono_imm (header_word y) \<longrightarrow>
           \<not> syli_object_is_cyclic_mutable (header_word y)))" for p
  proof (cases "h p")
    case None
    then show ?thesis using same [of p] by (simp add: dead_def holders_def torn_def)
  next
    case (Some x)
    then obtain y where y: "h' p = Some y" using same [of p] by auto
    from obj [OF Some y] Some y show ?thesis by (auto simp: dead_def holders_def torn_def rc_at_def plain_imm_def)
  qed
  then show "dead {} h' = dead {} h" and "torn h' \<inter> holders {} h' = torn h \<inter> holders {} h"
    and "plain_imm h \<Longrightarrow> plain_imm h'" unfolding plain_imm_def by blast+
qed

lemma paused_touched:
  assumes p: "paused ext s" and s': "s' = s\<lparr>gc_heap := h, tracing_mutations_worklist := ms\<rparr>"
    and m: "marking_inv ext' s'" and t: "touched (tracing_current_bit_mark s) (gc_heap s) h"
    and ph: "tracing_state s = Reclaiming_Cyclic_Candidates \<Longrightarrow> ms = tracing_mutations_worklist s"
  shows "paused ext' s'"
proof -
  note P = pausedD [OF p] and T = touched_sets [OF t]
  have "rel_inv ext' {} s'" using P(1) m T(1) by (simp add: rel_inv_def marking_inv_def rel_queue_def s')
  moreover have "releasing_sm_ok s'" using P(2) by (simp add: releasing_sm_ok_def s')
  moreover have "whites s' \<subseteq> whites s"
  proof
    fix q
    assume "q \<in> whites s'"
    then obtain y where y: "h q = Some y" "\<not> obj_marked (tracing_current_bit_mark s) y" by (auto simp: whites_def s')
    obtain x where "gc_heap s q = Some x" using t y(1) unfolding touched_def by blast
    with t y show "q \<in> whites s" unfolding touched_def whites_def by blast
  qed
  then have "checked s'" using P(9) by (auto simp: checked_def s')
  moreover have "marking_phase s' \<or> tracing_state s' = Reclaiming_Cyclic_Candidates \<and> tracing_worklist s' = []
      \<and> tracing_mutations_worklist s' = []"
    using P(3) ph by (auto simp: mid_collection_def marking_phase_def s')
  ultimately show ?thesis using m P(7,8) T(2) by (simp add: paused_def mid_collection_def) (simp add: s')
qed

text \<open>What the store alone does: the reference stored was the program's, so it is to a shaded object.\<close>

lemma store_unnoted:
  assumes p: "paused ext s" and x: "gc_heap s p = Some x" "reachable ext (gc_heap s) p"
    and i: "i \<in> set (ref_slots (header_word x))" "syli_object_has_pointers (header_word x)"
    and mv: "moved v (obj_value x ! i) ext ext'"
    and old: "is_own_field (obj_value x ! i) \<Longrightarrow> shaded s (syli_ownership_untag (obj_value x ! i))"
    and st: "on_heap (write_field p i v) s = Inr s1"
  shows "s1 = s\<lparr>gc_heap := gc_heap s1\<rparr> \<and> paused ext' s1 \<and> touched (tracing_current_bit_mark s) (gc_heap s) (gc_heap s1)"
proof -
  note P = pausedD [OF p]
  have E: "tri_edges s" "\<And>q. 0 < ext q \<Longrightarrow> shaded s q" using P(5) by (simp_all add: tricolour_edges)
  note sh = moved_closed [of ext "shaded s" v "obj_value x ! i" ext', OF E(2) mv old]
  obtain h where s1: "s1 = s\<lparr>gc_heap := h\<rparr>" "heap_inv ext' {} s1" "touched (tracing_current_bit_mark s) (gc_heap s) h"
    "\<forall>q. shaded s1 q \<longleftrightarrow> shaded s q" "mutations_ok s1"
    and ed: "\<forall>q a u. h q = Some a \<longrightarrow> 0 < obj_rc a \<longrightarrow> obj_marked (tracing_current_bit_mark s) a \<longrightarrow> q \<notin> pending s
       \<longrightarrow> u \<in> set (own_refs a) \<longrightarrow> shaded s (syli_ownership_untag u) \<or> q = p \<and> u = v"
    by (rule store_edges [OF P(4,6) E(1) x i mv st])
  have "shaded s (syli_ownership_untag u)" if "u = v" "u \<in> set (own_refs a)" for u a
    using that own_refs_own [of u a] sh(1) by (simp add: is_own_field_def)
  with ed have "\<forall>q a u. h q = Some a \<longrightarrow> 0 < obj_rc a \<longrightarrow> obj_marked (tracing_current_bit_mark s) a \<longrightarrow> q \<notin> pending s
       \<longrightarrow> u \<in> set (own_refs a) \<longrightarrow> shaded s (syli_ownership_untag u)" by blast
  then have "tri_edges s1" using s1(4) by (simp add: tri_edges_def s1(1) pending_def)
  then have m: "marking_inv ext' s1" using s1(2,4,5) sh(2) by (simp add: marking_inv_def tricolour_edges)
  have eq: "s1 = s\<lparr>gc_heap := h, tracing_mutations_worklist := tracing_mutations_worklist s\<rparr>" using s1(1) by simp
  from paused_touched [OF p eq m s1(3)] s1(1,3) show ?thesis by simp
qed

lemma store_paused:
  assumes p: "paused ext s" and x: "gc_heap s p = Some x" "reachable ext (gc_heap s) p"
    and i: "i \<in> set (ref_slots (header_word x))" "syli_object_has_pointers (header_word x)"
    and v: "is_own_field v" and mv: "moved v (obj_value x ! i) ext ext'"
    and cp: "syli_ownership_is_own_ref cp" "syli_ownership_untag cp = p"
    and old: "is_own_field (obj_value x ! i) \<Longrightarrow> shaded s (syli_ownership_untag (obj_value x ! i))"
    and st: "on_heap (write_field p i v) s = Inr s1" and n: "syli_rt_ownership_notify_mutation cp v s1 = Inr s'"
  shows "paused ext' s' \<and> touched (tracing_current_bit_mark s) (gc_heap s) (gc_heap s')"
proof (cases "tracing_state s = Tracing \<or> tracing_state s = Mutation_Prepare")
  case True
  have m: "marking_inv ext s" using pausedD(3) [OF p] by (rule mid_collectionD(1))
  obtain h ms where s': "s' = s\<lparr>gc_heap := h, tracing_mutations_worklist := ms\<rparr>" "marking_inv ext' s'"
    "touched (tracing_current_bit_mark s) (gc_heap s) h"
    by (rule store_marking [OF m True x i v mv cp old st]) (use n in simp_all)
  from paused_touched [OF p s'] True s'(1,3) show ?thesis by auto
next
  case False
  from store_unnoted [OF p x i mv old st] have s1: "s1 = s\<lparr>gc_heap := gc_heap s1\<rparr>" "paused ext' s1"
    "touched (tracing_current_bit_mark s) (gc_heap s) (gc_heap s1)" by blast+
  have "tracing_state s1 = tracing_state s" by (subst s1(1)) simp
  then have "s' = s1" using n False cp(1)
    by (simp add: syli_rt_ownership_notify_mutation_def check_def Let_def split: if_splits)
  with s1 show ?thesis by simp
qed

lemma store_between:
  assumes "between ext s" and "gc_heap s p = Some x"
    and "i \<in> set (ref_slots (header_word x))" and "syli_object_has_pointers (header_word x)"
    and "moved v (obj_value x ! i) ext ext'" and "on_heap (write_field p i v) s = Inr s1"
    and "syli_ownership_is_own_ref cp" and "syli_rt_ownership_notify_mutation cp v s1 = Inr s'"
  shows "between ext' s' \<and> (\<exists>y. s' = s\<lparr>gc_heap := (gc_heap s)(p \<mapsto> y)\<rparr> \<and> header_word y = header_word x)"
proof -
  note S = between_store [OF assms(1-6)]
  then have "tracing_state s1 = Tracing_Idle" using betweenD(3) by blast
  then have "s' = s1" using assms(7,8)
    by (simp add: syli_rt_ownership_notify_mutation_def check_def Let_def split: if_splits)
  with S show ?thesis by simp
qed

lemma ready_store:
  assumes rd: "ready ext s" and x: "gc_heap s p = Some x" "reachable ext (gc_heap s) p"
    and i: "i \<in> set (ref_slots (header_word x))" "syli_object_has_pointers (header_word x)"
    and v: "is_own_field v" and mv: "moved v (obj_value x ! i) ext ext'"
    and cp: "syli_ownership_is_own_ref cp" "syli_ownership_untag cp = p"
    and old: "is_own_field (obj_value x ! i) \<longrightarrow> tracer_sees s (syli_ownership_untag (obj_value x ! i))"
    and st: "on_heap (write_field p i v) s = Inr s1" and n: "syli_rt_ownership_notify_mutation cp v s1 = Inr s'"
    and pl: "plain_imm (gc_heap s)"
  shows "ready ext' s' \<and> plain_imm (gc_heap s')"
proof (cases "between ext s")
  case True
  from store_between [OF this x(1) i mv st cp(1) n] x(1) pl show ?thesis
    by (auto simp: ready_def plain_imm_def split: if_splits)
next
  case False
  then have p: "paused ext s" using rd by (simp add: ready_def)
  have "is_own_field (obj_value x ! i) \<Longrightarrow> shaded s (syli_ownership_untag (obj_value x ! i))"
    using old paused_sees [OF p] by blast
  from store_paused [OF p x i v mv cp this st n] touched_sets(3) pl show ?thesis unfolding ready_def by blast
qed

text \<open>Taking a reference out of a field, with no reference stored there: the barrier is not called.\<close>

lemma ready_clear:
  assumes rd: "ready ext s" and x: "gc_heap s p = Some x" "reachable ext (gc_heap s) p"
    and i: "i \<in> set (ref_slots (header_word x))" "syli_object_has_pointers (header_word x)"
    and mv: "moved v (obj_value x ! i) ext ext'"
    and old: "is_own_field (obj_value x ! i) \<longrightarrow> tracer_sees s (syli_ownership_untag (obj_value x ! i))"
    and st: "on_heap (write_field p i v) s = Inr s1" and pl: "plain_imm (gc_heap s)"
  shows "ready ext' s1 \<and> plain_imm (gc_heap s1)"
proof (cases "between ext s")
  case True
  from between_store [OF this x(1) i mv st] x(1) pl show ?thesis
    by (auto simp: ready_def plain_imm_def split: if_splits)
next
  case False
  then have p: "paused ext s" using rd by (simp add: ready_def)
  have "is_own_field (obj_value x ! i) \<Longrightarrow> shaded s (syli_ownership_untag (obj_value x ! i))"
    using old paused_sees [OF p] by blast
  from store_unnoted [OF p x i mv this st] touched_sets(3) pl show ?thesis unfolding ready_def by blast
qed

section \<open>Data of the program\<close>

text \<open>Writing a word of the payload that is not a reference: the collectors do not look at it.\<close>

lemma data_same:
  assumes "i \<notin> set (ref_slots (header_word x))" and "i < obj_len x"
  shows "own_refs (stored i w x) = own_refs x" and "obj_ok (stored i w x) = obj_ok x"
    and "obj_indexed (stored i w x) = obj_indexed x" and "obj_index (stored i w x) = obj_index x"
proof -
  have "map ((!) (obj_value (stored i w x))) (ref_slots (header_word x)) = map ((!) (obj_value x)) (ref_slots (header_word x))"
    by (rule map_cong [OF refl]) (use assms(1) in \<open>auto simp: stored_def intro!: nth_list_update_neq\<close>)
  then show r: "own_refs (stored i w x) = own_refs x" by (simp only: own_refs_def stored_same)
  then show "obj_ok (stored i w x) = obj_ok x" by (simp add: obj_ok_def obj_local_def) (simp add: stored_def)
  show "obj_indexed (stored i w x) = obj_indexed x"
    by (simp add: obj_indexed_def obj_local_def obj_len_def) (simp add: stored_def)
  show "obj_index (stored i w x) = obj_index x"
    using assms(2) by (simp add: obj_index_def obj_len_def stored_def)
qed

lemma ready_data:
  assumes rd: "ready ext s" and x: "gc_heap s p = Some x" "reachable ext (gc_heap s) p"
    and i: "i \<notin> set (ref_slots (header_word x))" "i < obj_len x"
    and st: "on_heap (write_field p i w) s = Inr s1" and pl: "plain_imm (gc_heap s)"
  shows "s1 = s\<lparr>gc_heap := (gc_heap s)(p \<mapsto> stored i w x)\<rparr> \<and> ready ext s1 \<and> plain_imm (gc_heap s1)"
proof -
  let ?h = "(gc_heap s)(p \<mapsto> stored i w x)" and ?b = "tracing_current_bit_mark s"
  note R = readyD [OF rd]
  note y = data_same [OF i, of w]
  have w: "\<not> obj_flag Meta_Flags_Waiting_Remove x" using reachable_live [OF R(3) x(2)] x(1) by auto
  have s1: "s1 = s\<lparr>gc_heap := ?h\<rparr>"
    using st x(1) heap_okD [OF heap_invD(1) [OF R(3)] x(1)]
    by (auto simp: on_heap_def write_field_def deref_live stored_def split: if_splits)
  have tr: "traced ?h = traced (gc_heap s)" using x(1) by (auto simp: traced_def)
  have H: "heap_inv ext {} s1"
    using heap_inv_refs(1) [OF R(3) x(1) y(1,2) _ _ y(3,4) _ _ w heap_invD(4) [OF R(3)], of ext] heap_invD(5) [OF R(3)] tr
    by (simp add: s1)
  have t: "touched ?b (gc_heap s) ?h" by (rule touched_upd [where h = "gc_heap s", OF x(1)]) simp_all
  have d: "dead {} ?h = dead {} (gc_heap s)" by (rule touched_sets(1) [OF t])
  show ?thesis
  proof (cases "between ext s")
    case True
    note B = betweenD [OF True]
    have "rel_inv ext {} s1" using B(1) H d by (simp add: rel_inv_def rel_queue_def s1)
    moreover have "torn ?h = {}" using B(7) x(1) by (auto simp: torn_def)
    ultimately have "between ext s1" using B x by (auto simp: between_def s1 releasing_sm_ok_def)
    with s1 touched_sets(3) [OF t pl] show ?thesis by (simp add: ready_def)
  next
    case False
    then have p: "paused ext s" using rd by (simp add: ready_def)
    note P = pausedD [OF p]
    have sh: "shaded s1 q \<longleftrightarrow> shaded s q" for q using x(1) by (auto simp: shaded_def s1)
    have "mutations_ok s1" using P(6) x(1) w by (fastforce simp: mutations_ok_def s1)
    moreover have "tricolour ext s1"
      using P(5) x(1) y(1) sh by (auto simp: tricolour_def s1 pending_def split: if_splits)
    ultimately have m: "marking_inv ext s1" using H by (simp add: marking_inv_def)
    have eq: "s1 = s\<lparr>gc_heap := ?h, tracing_mutations_worklist := tracing_mutations_worklist s\<rparr>" by (simp add: s1)
    from paused_touched [OF p eq m t] s1 touched_sets(3) [OF t pl] show ?thesis by (simp add: ready_def)
  qed
qed

section \<open>Runs of the program\<close>

text \<open>The steps of a program that follows the discipline of \<open>doc/ownership.md\<close>: it shares and owns only
  what it can reach, releases only what it holds, calls the barrier after it has stored a reference, and lets the collector empty its queue before the
  tracer works. While a collection is paused (\<open>tracer_sees\<close>, \<open>releasable\<close> and
  \<open>noted_reachable\<close> say nothing otherwise) it neither takes references the tracer has not seen,
  nor lets go of what the tracer still has on a worklist; the theory \<open>Interleavings\<close> shows
  what goes wrong otherwise. \<open>envs\<close> are the stack maps and frames that its
  collections may find.\<close>

definition may_share :: "(u64 \<Rightarrow> nat) \<Rightarrow> Syli_state \<Rightarrow> obj_ptr \<Rightarrow> bool" where
  "may_share ext s v \<longleftrightarrow> shareable v \<and> reachable ext (gc_heap s) (syli_ownership_untag v)
     \<and> tracer_sees s (syli_ownership_untag v) \<and> rc_at (gc_heap s) (syli_ownership_untag v) + 1 < 2 ^ 56"

definition may_release :: "(u64 \<Rightarrow> nat) \<Rightarrow> Syli_state \<Rightarrow> obj_ptr \<Rightarrow> bool" where
  "may_release ext s v \<longleftrightarrow> syli_ownership_is_own_ref v \<and> 0 < ext (syli_ownership_untag v) \<and> releasable v s"

abbreviation dropped :: "u64 \<Rightarrow> (u64 \<Rightarrow> nat) \<Rightarrow> u64 \<Rightarrow> nat" where
  "dropped p ext \<equiv> ext(p := ext p - 1)"

inductive program_step ::
    "'c roots_env set \<Rightarrow> (u64 \<Rightarrow> nat) \<times> Syli_state \<Rightarrow> (u64 \<Rightarrow> nat) \<times> Syli_state \<Rightarrow> bool" for envs where
  alloc: "program_step envs (ext, s) (ext(p := unat refcount), s')"
    if "alloc_ok p header refcount len s"
      and "syli_object_is_mono_imm header \<longrightarrow> \<not> syli_object_is_cyclic_mutable header"
      and "syli_rt_ownership_alloc_object p junk header refcount len s = Inr (v, s')"
| share: "program_step envs (ext, s) (held (syli_ownership_untag v) ext, s')"
    if "may_share ext s v" and "syli_rt_ownership_share v s = Inr (w, s')"
| own: "program_step envs (ext, s) (if syli_ownership_is_own_ref v then ext else held (syli_ownership_untag v) ext, s')"
    if "may_share ext s v" and "syli_rt_ownership_own v s = Inr (w, s')"
| incr: "program_step envs (ext, s) (held (syli_ownership_untag v) ext, s')"
    if "may_share ext s v" and "syli_ownership_is_own_ref v" and "syli_rt_ownership_incr v s = Inr s'"
| release: "program_step envs (ext, s) (dropped (syli_ownership_untag v) ext, s')"
    if "may_release ext s v" and "syli_rt_ownership_release v s = Inr s'"
| decr: "program_step envs (ext, s) (dropped (syli_ownership_untag v) ext, s')"
    if "may_release ext s v" and "syli_rt_ownership_decr v s = Inr s'"
| store: "program_step envs (ext, s) (ext', s')"
    if "gc_heap s p = Some x" and "reachable ext (gc_heap s) p"
      and "i \<in> set (ref_slots (header_word x))" and "syli_object_has_pointers (header_word x)"
      and "is_own_field v" and "moved v (obj_value x ! i) ext ext'"
      and "is_own_field (obj_value x ! i) \<longrightarrow> tracer_sees s (syli_ownership_untag (obj_value x ! i))"
      and "syli_ownership_is_own_ref cp" and "syli_ownership_untag cp = p"
      and "on_heap (write_field p i v) s = Inr s1"
      and "syli_rt_ownership_notify_mutation cp v s1 = Inr s'"
| take: "program_step envs (ext, s) (ext', s')"
    if "gc_heap s p = Some x" and "reachable ext (gc_heap s) p"
      and "i \<in> set (ref_slots (header_word x))" and "syli_object_has_pointers (header_word x)"
      and "\<not> is_own_field v" and "moved v (obj_value x ! i) ext ext'"
      and "is_own_field (obj_value x ! i) \<longrightarrow> tracer_sees s (syli_ownership_untag (obj_value x ! i))"
      and "on_heap (write_field p i v) s = Inr s'"
| data: "program_step envs (ext, s) (ext, s')"
    if "gc_heap s p = Some x" and "reachable ext (gc_heap s) p"
      and "i \<notin> set (ref_slots (header_word x))" and "i < obj_len x" and "on_heap (write_field p i w) s = Inr s'"
| collect: "program_step envs (ext, s) (ext, s')"
    if "env \<in> envs" and "noted_reachable ext s"
      and "THRESHOLD_RELEASING_BUCKET s = 0" and "0 < sint (ucast (BUDGET_GC_TRACING s) :: u32)"
      and "stack_values env s vs" and "{p. 0 < ext p} = syli_ownership_untag ` {v \<in> set vs. is_own_field v}"
      and "cycles_registered rank (gc_heap s)"
      and "syli_state_gc_releasing (cycle_budgets s) = Some (Inr s1)"
      and "0 < sint (releasing_budget s1) \<or> tracing_state s1 = Tracing_Idle \<and> \<not> tracing_triggered s1"
      and "syli_rt_gc_cycle env s = Some (Inr s')"

inductive program_run ::
    "'c roots_env set \<Rightarrow> (u64 \<Rightarrow> nat) \<times> Syli_state \<Rightarrow> (u64 \<Rightarrow> nat) \<times> Syli_state \<Rightarrow> bool" for envs where
  stop: "program_run envs c c"
| more: "program_step envs c d \<Longrightarrow> program_run envs d e \<Longrightarrow> program_run envs c e"

definition program_ok :: "(u64 \<Rightarrow> nat) \<times> Syli_state \<Rightarrow> bool" where
  "program_ok c \<longleftrightarrow> ready (fst c) (snd c) \<and> plain_imm (gc_heap (snd c))"

lemma may_share_shareable: "may_share ext s v \<Longrightarrow> shareable v"
  by (simp add: may_share_def)

lemma share_ok:
  assumes "program_ok (ext, s)" and "may_share ext s v"
  shows "\<exists>t. syli_rt_object_incr (syli_ownership_untag v) s = Inr t \<and> program_ok (held (syli_ownership_untag v) ext, t)
    \<and> heap_shrinks (gc_heap s) (gc_heap t)"
proof -
  have b: "ready ext s" and pl: "plain_imm (gc_heap s)" using assms(1) by (simp_all add: program_ok_def)
  let ?p = "syli_ownership_untag v"
  have r: "reachable ext (gc_heap s) ?p" and see: "tracer_sees s ?p" and room: "rc_at (gc_heap s) ?p + 1 < 2 ^ 56"
    using assms(2) by (simp_all add: may_share_def)
  obtain x where x: "gc_heap s ?p = Some x" "0 < obj_rc x" using reachable_live [OF readyD(3) [OF b] r] by blast
  have "obj_rc x + 1 < 2 ^ 56" using room x(1) by (simp add: rc_at_def)
  from ready_incr [OF b x this see] obtain t where t: "syli_rt_object_incr ?p s = Inr t" "ready (held ?p ext) t" "rel_frame {} s t"
    by blast
  with plain_imm_shrinks [OF pl] show ?thesis by (intro exI [of _ t]) (simp add: program_ok_def rel_frame_def)
qed

lemma release_ok:
  assumes "program_ok (ext, s)" and "may_release ext s v"
  shows "\<exists>t. syli_rt_ownership_release v s = Inr t \<and> syli_rt_ownership_decr v s = Inr t
    \<and> program_ok (dropped (syli_ownership_untag v) ext, t) \<and> heap_shrinks (gc_heap s) (gc_heap t)"
proof -
  have b: "ready ext s" and pl: "plain_imm (gc_heap s)" using assms(1) by (simp_all add: program_ok_def)
  let ?p = "syli_ownership_untag v"
  have own: "syli_ownership_is_own_ref v" and e: "0 < ext ?p" and fr: "releasable v s"
    using assms(2) by (simp_all add: may_release_def)
  have h: "held ?p (dropped ?p ext) = ext" using e by (simp add: held_def fun_eq_iff)
  have "reachable ext (gc_heap s) ?p" by (rule reachable.root) (rule e)
  with reachable_live [OF readyD(3) [OF b]] obtain x where "gc_heap s ?p = Some x" by blast
  then have p0: "?p \<noteq> 0" using heap_okD [OF heap_invD(1) [OF readyD(3) [OF b]]] by blast
  obtain t where t: "syli_rt_object_decr ?p v s = Inr t" "ready (dropped ?p ext) t" "rel_frame {} s t"
    using ready_decr [of v "dropped ?p ext" s] b h pl fr by auto
  with plain_imm_shrinks [OF pl] share_runs(4,6) [OF own_shareable [OF own p0] own, of s] show ?thesis
    by (intro exI [of _ t]) (simp add: program_ok_def rel_frame_def)
qed

lemma collect_ok:
  assumes "program_ok (ext, s)" and n: "noted_reachable ext s"
    and c: "THRESHOLD_RELEASING_BUCKET s = 0" "0 < sint (ucast (BUDGET_GC_TRACING s) :: u32)" "stack_values env s vs"
      "{p. 0 < ext p} = syli_ownership_untag ` {v \<in> set vs. is_own_field v}" "cycles_registered rank (gc_heap s)"
      "syli_state_gc_releasing (cycle_budgets s) = Some (Inr s1)"
    and stop: "0 < sint (releasing_budget s1) \<or> tracing_state s1 = Tracing_Idle \<and> \<not> tracing_triggered s1"
  shows "\<exists>t. syli_rt_gc_cycle env s = Some (Inr t) \<and> program_ok (ext, t) \<and> heap_shrinks (gc_heap s) (gc_heap t)"
proof -
  have b: "ready ext s" and pl: "plain_imm (gc_heap s)" using assms(1) by (simp_all add: program_ok_def)
  obtain t where t: "syli_state_gc_cycle env s = Some (Inr t)" "heap_shrinks (gc_heap s) (gc_heap t)" "ready ext t"
  proof (cases "0 < sint (releasing_budget s1)")
    case True
    show thesis by (rule cycle_call [OF b n c True]) (rule that)
  next
    case False
    with stop have "syli_state_gc_tracing env s1 = Some (Inr s1)" by (intro tracing_stops) blast
    then have "syli_state_gc_cycle env s = Some (Inr s1)" by (simp add: cycle_calls [OF c(6)])
    moreover have "ready ext (cycle_budgets s)" "noted_reachable ext (cycle_budgets s)" using b n by simp_all
    then obtain s2 where "syli_state_gc_releasing (cycle_budgets s) = Some (Inr s2)" "ready ext s2"
      "heap_shrinks (gc_heap (cycle_budgets s)) (gc_heap s2)" by (rule releasing_ready)
    ultimately show thesis using that c(6) by simp
  qed
  with plain_imm_shrinks [OF pl] show ?thesis by (simp add: program_ok_def syli_rt_gc_cycle_def)
qed

lemma program_step_ok:
  assumes "program_step envs c d" and "program_ok c"
  shows "program_ok d"
  using assms
proof (induction rule: program_step.induct)
  case (alloc p header refcount len s junk v s' ext)
  then have b: "ready ext s" and pl: "plain_imm (gc_heap s)" by (simp_all add: program_ok_def)
  obtain x where "ready (ext(p := unat refcount)) s'" "gc_heap s' = (gc_heap s)(p \<mapsto> x)" "header_word x = header"
    using ready_alloc [OF b alloc(1,3)] by blast
  with alloc(2) pl show ?case by (auto simp: program_ok_def plain_imm_def split: if_splits)
next
  case (share ext s v w s')
  note sh = share_runs [of v s] may_share_shareable [OF share(1)]
  from share_ok [OF share(3,1)] share(2) sh(1,7) show ?case by auto
next
  case (own ext s v w s')
  note sh = share_runs [of v s] may_share_shareable [OF own(1)]
  from share_ok [OF own(3,1)] own(2,3) sh(3,7) show ?case by (auto split: if_splits)
next
  case (incr ext s v s')
  note sh = share_runs [of v s] may_share_shareable [OF incr(1)]
  from share_ok [OF incr(4,1)] incr(2,3) sh(2,7) show ?case by auto
next
  case (release ext s v s')
  from release_ok [OF release(3,1)] release(2) show ?case by auto
next
  case (decr ext s v s')
  from release_ok [OF decr(3,1)] decr(2) show ?case by auto
next
  case (store s p x ext i v ext' cp s1 s')
  then have b: "ready ext s" and pl: "plain_imm (gc_heap s)" by (simp_all add: program_ok_def)
  from ready_store [OF b store(1-6,8,9,7,10,11) pl] show ?case by (simp add: program_ok_def)
next
  case (take s p x ext i v ext' s')
  then have "ready ext s" "plain_imm (gc_heap s)" by (simp_all add: program_ok_def)
  with ready_clear [OF _ take(1-4,6,7,8)] show ?case by (simp add: program_ok_def)
next
  case (data s p x ext i w s')
  then have "ready ext s" "plain_imm (gc_heap s)" by (simp_all add: program_ok_def)
  with ready_data [OF _ data(1-5)] show ?case unfolding program_ok_def fst_conv snd_conv by blast
next
  case (collect env ext s vs rank s1 s')
  from collect_ok [OF collect(11,2-9)] collect(10) show ?case by auto
qed

lemma program_run_ok: "program_run envs c d \<Longrightarrow> program_ok c \<Longrightarrow> program_ok d"
  by (induction rule: program_run.induct) (auto intro: program_step_ok)

lemma ready_live:
  assumes b: "ready ext s" and r: "reachable ext (gc_heap s) p"
  shows "\<exists>x. gc_heap s p = Some x \<and> 0 < obj_rc x \<and> obj_rc x = ext p + incoming {} (gc_heap s) p
        \<and> p \<notin> syli_ownership_untag ` set (rel_queue s)"
proof -
  note B = readyD [OF b]
  obtain x where x: "gc_heap s p = Some x" "0 < obj_rc x" using reachable_live [OF B(3) r] by blast
  moreover have "rc_at (gc_heap s) p = ext p + incoming {} (gc_heap s) p"
    using heap_invD(2) [OF B(3)] by (simp add: counts_ok_def)
  moreover have "p \<notin> dead {} (gc_heap s)" using x by (simp add: dead_def rc_at_def)
  then have "p \<notin> syli_ownership_untag ` set (rel_queue s)" using B(1) by (simp add: rel_inv_def)
  ultimately show ?thesis by (simp add: rc_at_def)
qed

text \<open>The memory is well typed: every block is laid out as its header says, and every reference the
  runtime may follow, in an object that is not already torn down or in a worklist, is to an
  allocated block.\<close>

definition well_typed :: "Syli_state \<Rightarrow> bool" where
  "well_typed s \<longleftrightarrow> (\<forall>p x. gc_heap s p = Some x \<longrightarrow> p \<noteq> 0 \<and> untagged p \<and> obj_ok x
       \<and> (obj_flag Meta_Flags_Waiting_Remove x \<or> (\<forall>v \<in> set (own_refs x). syli_ownership_untag v \<in> dom (gc_heap s))))
     \<and> (\<forall>v \<in> set (rel_queue s) \<union> set (tracing_worklist s) \<union> set (tracing_mutations_worklist s)
          \<union> set (cyclic_candidates s) \<union> set (lost_cycle_worklist s). syli_ownership_untag v \<in> dom (gc_heap s))"

lemma ready_typed:
  assumes "ready ext s"
  shows "well_typed s"
proof -
  note R = readyD [OF assms]
  note I = heap_invD [OF R(3)]
  let ?alloc = "\<lambda>vs. \<forall>v \<in> set vs. syli_ownership_untag v \<in> dom (gc_heap s)"
  have "p \<noteq> 0 \<and> untagged p \<and> obj_ok x
      \<and> (obj_flag Meta_Flags_Waiting_Remove x \<or> (\<forall>v \<in> set (own_refs x). syli_ownership_untag v \<in> dom (gc_heap s)))"
    if "gc_heap s p = Some x" for p x
    using heap_okD [OF I(1) that] holder_child_live [OF R(3) that] by blast
  moreover have "?alloc (rel_queue s)"
    using R(1) by (fastforce simp: rel_inv_def dead_def holders_def)
  moreover have "?alloc (tracing_worklist s)" using I(5) by (fastforce simp: traced_def)
  moreover have "?alloc (cyclic_candidates s)"
    using registry_entryD [OF I(3)] by (fastforce simp: registry_entry_def in_set_conv_nth)
  moreover have "?alloc (tracing_mutations_worklist s)" and "lost_cycle_worklist s = []"
    using assms betweenD(5,6) pausedD(6,7) unfolding ready_def mutations_ok_def by fastforce+
  ultimately show ?thesis by (auto simp: well_typed_def)
qed

end
