(* ===== verification/Interleavings.thy ===== *)
theory Interleavings
  imports Mutator
begin

text \<open>
  Interleavings of the program and the collectors that the code does not handle, each from a
  state in which the invariant holds: the conditions of \<open>program_step\<close> rule them out, and
  each theorem here shows what happens without one of them.
\<close>

section \<open>Releasing a block the tracer still knows\<close>

text \<open>The grey sample, and a sample where the leaf is noted for the mutation round.\<close>

definition black_leaf :: gc_object where
  "black_leaf = set_meta (MASK_MARKING_BIT OR 1) leaf_object"

definition noted_sample :: Syli_state where
  "noted_sample = barrier_sample\<lparr>gc_heap := [8 \<mapsto> black_cell, 16 \<mapsto> black_leaf], tracing_mutations_worklist := [17]\<rparr>"

lemma black_leaf_facts:
  "obj_ok black_leaf" "own_refs black_leaf = []" "obj_rc black_leaf = 1"
  "\<not> obj_flag Meta_Flags_Cyclic_Candidate black_leaf" "\<not> obj_flag Meta_Flags_Tracing black_leaf"
  "\<not> obj_flag Meta_Flags_Waiting_Remove black_leaf" "obj_marked MASK_MARKING_BIT black_leaf"
proof -
  show "obj_ok black_leaf" "own_refs black_leaf = []" using leaf_facts(1,2) by (simp_all add: black_leaf_def)
qed (simp_all add: black_leaf_def leaf_object_def obj_bit_defs set_meta_def)

lemma noted_sample_inv: "marking_inv two_roots noted_sample"
proof -
  have "holders {} [8 \<mapsto> black_cell, 16 \<mapsto> black_leaf] = {8, 16}"
    using black_leaf_facts black_cell_facts by (auto simp: holders_def)
  then have "heap_inv two_roots {} noted_sample"
    using black_leaf_facts black_cell_facts sample_untag
    by (auto simp: heap_inv_def noted_sample_def barrier_sample_def zero_state_def heap_ok_def counts_ok_def
        incoming_def rc_at_def registry_inv_def traced_def split: if_splits)
  then show ?thesis
    using black_cell_facts black_leaf_facts sample_untag
    by (auto simp: marking_inv_def tricolour_def mutations_ok_def shaded_def
        noted_sample_def barrier_sample_def zero_state_def split: if_splits)
qed

text \<open>The last release of the leaf frees it at once.\<close>

lemma release_leaf:
  assumes h: "gc_heap s = [8 \<mapsto> black_cell, 16 \<mapsto> x]" and x: "header_word x = header_word leaf_object"
    and last: "(meta_ref_count x - 1) AND REFCOUNT_MASK = 0"
  shows "syli_rt_ownership_release 17 s
    = Inr (s\<lparr>gc_heap := [8 \<mapsto> black_cell], total_objects_freed := total_objects_freed s + 1\<rparr>)"
proof -
  have imm: "obj_local x" "syli_object_is_mono_imm (header_word x)"
    using chain_header(7) x by (simp_all add: obj_local_def)
      (simp add: leaf_object_def type_predicates header_accessor_defs header_mask_defs type_of_bits_def)
  let ?y = "set_meta (meta_ref_count x - 1) x"
  have yl: "obj_local ?y" using imm(1) by (simp add: obj_local_def set_meta_def)
  have "syli_object_refcount 16 [8 \<mapsto> black_cell, 16 \<mapsto> ?y] = Inr 0"
    using object_ops_local(4) [of 16 "[8 \<mapsto> black_cell, 16 \<mapsto> ?y]" ?y] yl last by simp
  moreover have "[8 \<mapsto> black_cell, 16 \<mapsto> ?y](16 := None) = [8 :: u64 \<mapsto> black_cell]" by (simp add: fun_eq_iff)
  ultimately have "syli_rt_object_decr 16 17 s
      = Inr (s\<lparr>gc_heap := [8 \<mapsto> black_cell], total_objects_freed := total_objects_freed s + 1\<rparr>)"
    using imm h
    by (simp add: syli_rt_object_decr_def deref_live write_meta_live on_heap_def Let_def check_def obj_local_def
        free_block_def)
  moreover have own: "syli_ownership_is_own_ref 17" using sample_untag by simp
  ultimately show ?thesis
    using share_runs(4) [OF own_shareable [OF own]] own sample_untag by simp
qed

text \<open>C14: the release of the last reference to a block without references frees it at once, also when
  the block is on the tracing worklist or noted for the mutation round. From two states in
  which marking is correct, the next call of the tracer then reads a block that is no longer
  allocated. (Other objects on the tracing worklist are kept for the tracer by
  \<open>Meta_Flags_Waiting_Remove\<close>.)\<close>

theorem release_of_queued_block:
  "(marking_inv two_roots grey_sample \<and>
     (\<exists>s1. syli_rt_ownership_release 17 grey_sample = Inr s1 \<and> gc_heap s1 16 = None
        \<and> syli_state_gc_tracing roots_env_null s1 = Some (Inl InvalidAccess)))
   \<and> (marking_inv two_roots noted_sample \<and>
     (\<exists>s1. syli_rt_ownership_release 17 noted_sample = Inr s1 \<and> gc_heap s1 16 = None
        \<and> syli_state_gc_tracing roots_env_null s1 = Some (Inl InvalidAccess)))"
proof (intro conjI)
  show "marking_inv two_roots grey_sample" by (rule grey_sample_inv(1))
  show "marking_inv two_roots noted_sample" by (rule noted_sample_inv)
  define s1 where "s1 = grey_sample\<lparr>gc_heap := [8 \<mapsto> black_cell],
    total_objects_freed := total_objects_freed grey_sample + 1\<rparr>"
  have r: "syli_rt_ownership_release 17 grey_sample = Inr s1"
    unfolding s1_def by (rule release_leaf [where x = grey_leaf])
      (simp_all add: grey_sample_def grey_leaf_def set_meta_def Meta_Flags_Tracing_def REFCOUNT_MASK_def)
  have s1: "tracing_state s1 = Mutation_Prepare" "tracing_mutations_worklist s1 = []" "tracing_worklist s1 = [17]"
    "sint (tracing_budget s1) = 2000" "gc_heap s1 16 = None"
    by (simp_all add: s1_def grey_sample_def barrier_sample_def zero_state_def)
  let ?s2 = "s1\<lparr>tracing_state := Tracing\<rparr>"
  have "tracing_round roots_env_null s1 = Inr (Continue ?s2)"
    using s1 by (simp add: tracing_round_def)
  moreover have "tracing_round roots_env_null ?s2 = Inl InvalidAccess"
    using s1 sample_untag
    by (simp add: tracing_round_def gc_one_step_tracing_def gc_vector_pop_back_def Let_def check_def
        syli_object_of_obj_ptr_def on_heap_def syli_object_clear_flags_def deref_def)
  ultimately have "syli_state_gc_tracing roots_env_null s1 = Some (Inl InvalidAccess)"
    by (simp add: syli_state_gc_tracing_def run_loop_unfold)
  with r s1(5) show "\<exists>s1. syli_rt_ownership_release 17 grey_sample = Inr s1 \<and> gc_heap s1 16 = None
      \<and> syli_state_gc_tracing roots_env_null s1 = Some (Inl InvalidAccess)" by blast
  define t1 where "t1 = noted_sample\<lparr>gc_heap := [8 \<mapsto> black_cell],
    total_objects_freed := total_objects_freed noted_sample + 1\<rparr>"
  have r': "syli_rt_ownership_release 17 noted_sample = Inr t1"
    unfolding t1_def by (rule release_leaf [where x = black_leaf])
      (simp_all add: noted_sample_def black_leaf_def set_meta_def MASK_MARKING_BIT_def REFCOUNT_MASK_def)
  have t1: "tracing_state t1 = Mutation_Prepare" "tracing_mutations_worklist t1 = [17]"
    "sint (tracing_budget t1) = 2000" "gc_heap t1 16 = None"
    by (simp_all add: t1_def noted_sample_def barrier_sample_def zero_state_def)
  then have "tracing_round roots_env_null t1 = Inl InvalidAccess"
    using sample_untag
    by (simp add: tracing_round_def gc_one_step_prepare_tracing_mutations_def gc_vector_pop_back_def Let_def check_def
        syli_object_of_obj_ptr_def deref_def)
  then have "syli_state_gc_tracing roots_env_null t1 = Some (Inl InvalidAccess)"
    by (simp add: syli_state_gc_tracing_def run_loop_unfold)
  with r' t1(4) show "\<exists>s1. syli_rt_ownership_release 17 noted_sample = Inr s1 \<and> gc_heap s1 16 = None
      \<and> syli_state_gc_tracing roots_env_null s1 = Some (Inl InvalidAccess)" by blast
qed

section \<open>A store through a borrow\<close>

text \<open>The barrier does nothing when the container is given as a borrow: a marked object is left
  with a reference to a white one that the mutation round will not visit.\<close>

lemma barrier_ignores_borrow:
  "tri_edges barrier_sample \<and>
   (\<exists>s1. on_heap (write_field 8 0 17) barrier_sample = Inr s1
      \<and> syli_rt_ownership_notify_mutation 8 17 s1 = Inr s1 \<and> \<not> tri_edges s1)"
proof -
  let ?y = "black_cell\<lparr>obj_value := [17, 0, 0]\<rparr>"
  define s1 where "s1 = barrier_sample\<lparr>gc_heap := [8 \<mapsto> ?y, 16 \<mapsto> leaf_object]\<rparr>"
  have "[8 \<mapsto> black_cell, 16 \<mapsto> leaf_object](8 \<mapsto> ?y) = [8 :: u64 \<mapsto> ?y, 16 \<mapsto> leaf_object]" by (simp add: fun_eq_iff)
  then have w: "on_heap (write_field 8 0 17) barrier_sample = Inr s1"
    by (simp add: on_heap_def write_field_def deref_def barrier_sample_def zero_state_def black_cell_facts s1_def)
  have n: "syli_rt_ownership_notify_mutation 8 17 s1 = Inr s1"
    by (simp add: syli_rt_ownership_notify_mutation_def check_def syli_ownership_is_immediate_def
        syli_ownership_is_own_ref_def tag_defs)
  have "stored 0 17 black_cell = ?y" by (simp add: stored_def black_cell_facts)
  moreover have "17 \<in> set (own_refs (stored 0 17 black_cell))"
    by (rule stored_refs(1)) (simp_all add: black_cell_facts barrier_sample_store(6))
  ultimately have e: "17 \<in> set (own_refs ?y)" by simp
  have m: "obj_marked (tracing_current_bit_mark s1) ?y"
    using black_cell_facts(8) by (simp add: s1_def barrier_sample_def obj_marked_def)
  have p: "8 \<notin> pending s1" "gc_heap s1 8 = Some ?y"
    by (simp_all add: pending_def s1_def barrier_sample_def zero_state_def)
  have white: "\<not> shaded s1 (syli_ownership_untag 17)"
    using leaf_facts(6) root_facts(8) by (auto simp: shaded_def s1_def barrier_sample_def sample_untag)
  have "0 < obj_rc ?y" using black_cell_facts(3) by (simp add: obj_rc_def)
  with p m e white have "\<not> tri_edges s1" unfolding tri_edges_def by blast
  with w n barrier_sample_inv(3) show ?thesis by blast
qed

section \<open>A reference taken while marking\<close>

text \<open>A root at 8 on the tracing worklist holds the only reference to a white candidate at 16, which
  holds the only reference to a leaf at 24. The program takes the reference to 16 out of the
  root before the root is scanned.\<close>

definition hidden_state :: Syli_state where
  "hidden_state = (zero_state [8 \<mapsto> root_object, 16 \<mapsto> ring_object 25 0, 24 \<mapsto> leaf_object])
     \<lparr>tracing_worklist := [9], tracing_state := Tracing, tracing_budget := 2000,
      cyclic_candidates := [17], current_candidate_check_index := 1,
      tracing_current_bit_mark := MASK_MARKING_BIT\<rparr>"

definition bare_root :: gc_object where
  "bare_root = root_object\<lparr>obj_value := [0]\<rparr>"

definition taken_state :: Syli_state where
  "taken_state = hidden_state\<lparr>gc_heap := [8 \<mapsto> bare_root, 16 \<mapsto> ring_object 25 0, 24 \<mapsto> leaf_object]\<rparr>"

lemma hidden_untag: "syli_ownership_untag 25 = 24" "untagged 24" "is_own_field 25" "syli_ownership_is_own_ref 25"
  by (simp_all add: syli_ownership_untag_def untagged_def is_own_field_def syli_ownership_is_own_ref_def tag_defs)

lemma hidden_refs: "own_refs (ring_object 25 0) = [25]" "obj_ok (ring_object 25 0)"
  using black_cell_facts(9) hidden_untag cons_header_fields(5) ring_facts(1,10) [of 25 0]
  by (simp_all add: own_refs_def obj_ok_def) (simp_all add: ring_object_def)

lemma hidden_inv: "marking_inv one_root hidden_state"
proof -
  let ?h = "[8 \<mapsto> root_object, 16 \<mapsto> ring_object 25 0, 24 \<mapsto> leaf_object]"
  have h: "gc_heap hidden_state = ?h" by (simp add: hidden_state_def zero_state_def)
  have hold: "holders {} ?h = {8, 16, 24}" using leaf_facts root_facts ring_facts by (auto simp: holders_def)
  have inc: "incoming {} ?h p = (if p = 16 \<or> p = 24 then 1 else 0)" for p
    using root_facts(2) hidden_refs leaf_facts(2) hidden_untag sample_untag by (simp add: incoming_def hold)
  have counts: "counts_ok one_root {} ?h"
    using leaf_facts root_facts ring_facts inc by (auto simp: counts_ok_def rc_at_def split: if_splits)
  have reg: "registry_inv ?h [17]"
    unfolding registry_inv_def registry_entry_def
    using ring_facts root_facts leaf_facts sample_untag by (auto split: if_splits)
  have ok: "heap_ok ?h" using hidden_refs root_facts leaf_facts sample_untag hidden_untag
    by (auto simp: heap_ok_def split: if_splits)
  have tr: "traced ?h = {8}" using ring_facts root_facts leaf_facts by (auto simp: traced_def split: if_splits)
  have "heap_inv one_root {} hidden_state"
    using counts reg ok tr sample_untag by (simp add: heap_inv_def h) (simp add: hidden_state_def zero_state_def sample_untag)
  moreover have "tricolour one_root hidden_state"
    using root_facts ring_facts leaf_facts
    by (auto simp: tricolour_def shaded_def h) (auto simp: hidden_state_def split: if_splits)
  ultimately show ?thesis
    by (simp add: marking_inv_def mutations_ok_def) (simp add: hidden_state_def zero_state_def)
qed

lemma taken_store:
  "on_heap (write_field 8 0 0) hidden_state = Inr taken_state"
  "moved 0 (obj_value root_object ! 0) one_root two_roots"
proof -
  have v: "obj_value root_object = [17]" using chain_header(3) by (simp add: root_object_def set_meta_def)
  then show "moved 0 (obj_value root_object ! 0) one_root two_roots"
    using barrier_sample_store(6) sample_untag by (auto simp: moved_def is_own_field_def)
  have "[8 \<mapsto> root_object, 16 \<mapsto> ring_object 25 0, 24 \<mapsto> leaf_object](8 \<mapsto> bare_root)
      = [8 :: u64 \<mapsto> bare_root, 16 \<mapsto> ring_object 25 0, 24 \<mapsto> leaf_object]" by (simp add: fun_eq_iff)
  with v show "on_heap (write_field 8 0 0) hidden_state = Inr taken_state"
    by (simp add: on_heap_def write_field_def deref_def taken_state_def hidden_state_def zero_state_def bare_root_def)
qed

text \<open>The root is scanned and finds nothing.\<close>

lemma taken_mark:
  "\<exists>y. gc_one_step_tracing taken_state = Inr (taken_state\<lparr>tracing_worklist := [],
     gc_heap := [8 \<mapsto> y, 16 \<mapsto> ring_object 25 0, 24 \<mapsto> leaf_object],
     total_objects_traced := 1, tracing_budget := 1999\<rparr>)"
proof -
  let ?x0 = "set_meta (meta_ref_count bare_root AND NOT Meta_Flags_Tracing) bare_root"
  have loc: "obj_local bare_root" "obj_local ?x0" "syli_object_is_mono_ref (header_word ?x0)"
    "syli_object_length (header_word ?x0) = Inr 1"
    using chain_header(1,2,8) by (simp_all add: bare_root_def root_object_def set_meta_def obj_local_def)
  let ?h = "\<lambda>z. [8 \<mapsto> z, 16 \<mapsto> ring_object 25 0, 24 \<mapsto> leaf_object] :: heap"
  have upd: "(?h z)(8 \<mapsto> w) = ?h w" for z w by (simp add: fun_eq_iff)
  have fl: "\<not> obj_flag Meta_Flags_Waiting_Remove ?x0" "\<not> obj_marked MASK_MARKING_BIT ?x0"
    "meta_ref_count ?x0 AND REFCOUNT_MASK \<noteq> 0"
    by (simp_all add: bare_root_def root_object_def set_meta_def obj_bit_defs)
  have t: "gc_heap taken_state = ?h bare_root" "tracing_worklist taken_state = [9]"
    "tracing_current_bit_mark taken_state = MASK_MARKING_BIT" "total_objects_traced taken_state = 0"
    "tracing_budget taken_state = 2000"
    by (simp_all add: taken_state_def hidden_state_def zero_state_def)
  have clear: "syli_object_clear_flags 8 Meta_Flags_Tracing (?h bare_root) = Inr (?h ?x0)"
    using object_ops_local(2) [of 8 "?h bare_root" bare_root] loc(1) by (simp add: upd)
  have waiting: "syli_object_has_flags 8 Meta_Flags_Waiting_Remove (?h ?x0) = Inr False"
    using object_ops_local(3) [of 8 "?h ?x0" ?x0] loc(2) fl(1) by simp
  let ?m = "(meta_ref_count ?x0 AND NOT MASK_MARKING_BIT) OR MASK_MARKING_BIT"
  let ?y = "set_meta ?m ?x0"
  have val: "obj_value ?y = [0]" by (simp add: bare_root_def set_meta_def)
  let ?s1 = "taken_state\<lparr>tracing_worklist := [], gc_heap := ?h ?y, total_objects_traced := 1, tracing_budget := 1999\<rparr>"
  have scan: "scan_fields 8 (\<lambda>_. True) (Suc 0) gc_tracing_worklist_push ?s1 = Inr ?s1"
    using val by (simp add: scan_fields_def for_range_step read_field_def deref_def)
  have mark: "gc_mark_tag_object 8 (taken_state\<lparr>tracing_worklist := [], gc_heap := ?h ?x0\<rparr>)
      = Inr (taken_state\<lparr>tracing_worklist := [], gc_heap := ?h ?y\<rparr>)"
    using t(3) by (simp add: gc_mark_tag_object_def deref_def on_heap_def write_meta_live upd)
  show ?thesis
    using t clear waiting loc(3,4) fl sample_untag(2) scan mark
    by (intro exI [of _ ?y])
      (simp add: gc_one_step_tracing_def gc_vector_pop_back_def Let_def check_def syli_object_of_obj_ptr_def
        on_heap_def deref_def gc_is_object_mark_tagged_def obj_marked_def numeral_1_eq_Suc_0)
qed

text \<open>The scan tears the candidate down, although its count says that it is alive.\<close>

definition torn_live :: gc_object where
  "torn_live = set_meta (meta_ref_count (ring_object 25 0) OR Meta_Flags_Children_Released) (ring_object 25 0)"

lemma torn_live_facts:
  "obj_local torn_live" "header_word torn_live = cons_header" "obj_value torn_live = [25, 0, 0]"
  "meta_ref_count torn_live AND REFCOUNT_MASK = 1" "own_refs torn_live = [25]"
proof -
  show "own_refs torn_live = [25]" using hidden_refs by (simp add: torn_live_def)
qed (use ring_facts(1,10) [of 25 0] in \<open>simp_all add: torn_live_def set_meta_def ring_object_def obj_local_def
    obj_bit_defs Meta_Flags_Children_Released_def\<close>)

lemma hidden_child:
  assumes h: "gc_heap s = [8 \<mapsto> y, 16 \<mapsto> torn_live, 24 \<mapsto> leaf_object]"
  shows "lost_cycle_child_decr 25 s
      = Inr (s\<lparr>total_objects_freed := total_objects_freed s + 1, gc_heap := [8 \<mapsto> y, 16 \<mapsto> torn_live]\<rparr>)"
proof -
  let ?leaf = "set_meta (meta_ref_count leaf_object - 1) leaf_object"
  have leaf: "obj_rc ?leaf = 0" "\<not> obj_flag Meta_Flags_Cyclic_Candidate ?leaf"
    "\<not> obj_flag Meta_Flags_Tracing ?leaf"
    using obj_rc_minus [of 1 leaf_object] obj_flag_minus [OF candidate_bit_in, of 1 leaf_object]
      obj_flag_minus [OF tracing_bit_in, of 1 leaf_object] leaf_facts chain_header by simp_all
  let ?h1 = "[(8 :: u64) \<mapsto> y, 16 \<mapsto> torn_live, 24 \<mapsto> ?leaf]"
  have "syli_object_decr_local 24 (gc_heap s) = Inr ?h1"
    using object_ops_local(6) [of 24 "gc_heap s" leaf_object] leaf_facts(3) chain_header(7)
    by (simp add: h)
  moreover have "syli_object_refcount 24 ?h1 = Inr 0"
    using object_ops_local(4) [of 24 ?h1 ?leaf] leaf(1) chain_header(7)
    by (simp add: obj_rc_def unat_eq_0)
  moreover have "?h1(24 := None) = [8 \<mapsto> y, 16 \<mapsto> torn_live]" by (simp add: fun_eq_iff)
  ultimately show ?thesis
    using chain_header(4,5,7) hidden_untag(1) leaf free_plain_object [of 24 "s\<lparr>gc_heap := ?h1\<rparr>" ?leaf]
    by (simp add: lost_cycle_child_decr_def syli_object_of_obj_ptr_def on_heap_def deref_live Let_def)
qed

lemma hidden_children:
  assumes h: "gc_heap s = [8 \<mapsto> y, 16 \<mapsto> torn_live, 24 \<mapsto> leaf_object]"
  shows "lost_cycle_release_children 16 s = Inr (s\<lparr>checking_budget := checking_budget s - 2,
     total_objects_freed := total_objects_freed s + 1, gc_heap := [8 \<mapsto> y, 16 \<mapsto> torn_live]\<rparr>)"
proof -
  have slots: "syli_bitmap_is_ref 1 0" "\<not> syli_bitmap_is_ref 1 (Suc 0)"
    by (simp_all add: syli_bitmap_is_ref_def)
  have shape: "\<not> syli_object_is_mono_ref cons_header" "syli_object_is_mixed_bitmap cons_header"
    "syli_object_bitmap_length cons_header = Inr 2"
    using shape_accessors(1) [of cons_header] cons_header_fields(3,7) by (simp_all add: type_predicates)
  let ?t = "s\<lparr>checking_budget := checking_budget s - 2\<rparr>"
  have "scan_fields 16 (syli_bitmap_is_ref 1) 2 lost_cycle_child_decr ?t
      = Inr (?t\<lparr>total_objects_freed := total_objects_freed s + 1, gc_heap := [8 \<mapsto> y, 16 \<mapsto> torn_live]\<rparr>)"
    using h hidden_child [of ?t] torn_live_facts(3) hidden_untag(4) slots
    by (simp add: scan_fields_def for_range_step for_range.simps [of "Suc (Suc 0)"] read_field_def deref_def)
  with h torn_live_facts(2) shape cons_header_fields(8) show ?thesis
    by (simp add: lost_cycle_release_children_def deref_def Let_def)
qed

lemma hidden_scan:
  assumes h: "gc_heap s = [8 \<mapsto> y, 16 \<mapsto> ring_object 25 0, 24 \<mapsto> leaf_object]"
    and "cyclic_candidates s = [17]" and "current_candidate_check_index s = 1"
    and "tracing_current_bit_mark s = MASK_MARKING_BIT"
  shows "gc_one_step_scan s = Inr (s\<lparr>current_candidate_check_index := 0, checking_budget := checking_budget s - 2,
     total_objects_freed := total_objects_freed s + 1, gc_heap := [8 \<mapsto> y, 16 \<mapsto> torn_live]\<rparr>)"
proof -
  let ?x = "ring_object 25 0"
  have "gc_is_object_mark_tagged 16 (s\<lparr>current_candidate_check_index := 0\<rparr>) = Inr False"
    using is_mark_tagged [of 16 "s\<lparr>current_candidate_check_index := 0\<rparr>" ?x] ring_facts(9) [of 25 0] assms by simp
  moreover have "syli_object_has_flags 16 Meta_Flags_Children_Released (gc_heap s) = Inr False"
    using object_ops_local(3) [of 16 "gc_heap s" ?x] ring_facts(1,8) h by simp
  moreover have "syli_object_set_flags 16 Meta_Flags_Children_Released (gc_heap s)
      = Inr ([8 \<mapsto> y, 16 \<mapsto> torn_live, 24 \<mapsto> leaf_object])"
    using object_ops_local(1) [of 16 "gc_heap s" ?x] ring_facts(1) [of 25 0] unfolding h torn_live_def
    by (simp add: fun_eq_iff)
  moreover have "syli_object_refcount 16 [8 \<mapsto> y, 16 \<mapsto> torn_live] = Inr 1"
    using object_ops_local(4) [of 16 "[8 \<mapsto> y, 16 \<mapsto> torn_live]" torn_live] torn_live_facts by simp
  ultimately show ?thesis
    using assms(2-4) sample_untag(1)
      hidden_children [of "s\<lparr>current_candidate_check_index := 0, gc_heap := [8 \<mapsto> y, 16 \<mapsto> torn_live, 24 \<mapsto> leaf_object]\<rparr>"]
    by (simp add: gc_one_step_scan_def Let_def candidate_at_def syli_object_of_obj_ptr_def on_heap_def when_r_def)
qed

text \<open>C13: marking has no barrier for a reference that is taken out of a field, and does not look at the
  roots again. From a state in which marking is correct, the program moves the only
  reference to a candidate from an object not yet scanned into a variable; the tracer then
  ends its collection without an error and has freed what that variable reaches.\<close>

theorem taken_reference_lost:
  "marking_inv one_root hidden_state \<and> on_heap (write_field 8 0 0) hidden_state = Inr taken_state
   \<and> moved 0 (obj_value root_object ! 0) one_root two_roots
   \<and> (\<exists>s'. syli_state_gc_tracing roots_env_null taken_state = Some (Inr s')
        \<and> reachable two_roots (gc_heap s') 24 \<and> gc_heap s' 24 = None)"
proof -
  obtain y where y: "gc_one_step_tracing taken_state = Inr (taken_state\<lparr>tracing_worklist := [],
     gc_heap := [8 \<mapsto> y, 16 \<mapsto> ring_object 25 0, 24 \<mapsto> leaf_object],
     total_objects_traced := 1, tracing_budget := 1999\<rparr>)"
    using taken_mark by blast
  have t: "tracing_state taken_state = Tracing" "tracing_budget taken_state = 2000" "tracing_steps taken_state = 0"
    "tracing_mutations_worklist taken_state = []" "cyclic_candidates taken_state = [17]"
    "current_candidate_check_index taken_state = 1" "lost_cycle_worklist taken_state = []"
    "tracing_current_bit_mark taken_state = MASK_MARKING_BIT" "checking_budget taken_state = 0"
    "total_objects_freed taken_state = 0" "checking_steps taken_state = 0"
    "cyclic_obj_alloc taken_state = 0" "cyclic_obj_alloc_at_trace taken_state = 0"
    by (simp_all add: taken_state_def hidden_state_def zero_state_def)
  let ?s1 = "taken_state\<lparr>tracing_worklist := [], gc_heap := [8 \<mapsto> y, 16 \<mapsto> ring_object 25 0, 24 \<mapsto> leaf_object],
     total_objects_traced := 1, tracing_budget := 1999, tracing_steps := 1, tracing_state := Reclaiming_Cyclic_Candidates\<rparr>"
  have r1: "tracing_round roots_env_null taken_state = Inr (Continue ?s1)"
    using y t by (simp add: tracing_round_def Let_def)
  let ?s2 = "?s1\<lparr>checking_budget := -3, current_candidate_check_index := 0, total_objects_freed := 1,
     gc_heap := [8 \<mapsto> y, 16 \<mapsto> torn_live], checking_steps := 1\<rparr>"
  have r2: "tracing_round roots_env_null ?s1 = Inr (Continue ?s2)"
    using t hidden_scan [of "?s1\<lparr>checking_budget := -1\<rparr>" y] by (simp add: tracing_round_def Let_def)
  let ?s3 = "?s2\<lparr>checking_budget := -4, tracing_state := Tracing_Idle, checking_steps := 2\<rparr>"
  have r3: "tracing_round roots_env_null ?s2 = Inr (Continue ?s3)"
    using t by (simp add: tracing_round_def Let_def)
  have r4: "tracing_round roots_env_null ?s3 = Inr (Return ?s3)"
    using t by (simp add: tracing_round_def tracing_triggered_def)
  have run: "syli_state_gc_tracing roots_env_null taken_state = Some (Inr ?s3)"
    using r1 r2 r3 r4 by (simp add: syli_state_gc_tracing_def run_loop_unfold)
  have "reachable two_roots (gc_heap ?s3) 16" by (rule reachable.root) simp
  then have "reachable two_roots (gc_heap ?s3) (syli_ownership_untag 25)"
    by (rule reachable.step [where x = torn_live]) (simp_all add: torn_live_facts)
  then have "reachable two_roots (gc_heap ?s3) 24" by (simp add: hidden_untag)
  moreover have "gc_heap ?s3 24 = None" by simp
  ultimately show ?thesis using run hidden_inv taken_store by blast
qed

section \<open>A releasing queue the budget leaves full\<close>

text \<open>Two dead objects in the releasing queue: a registered candidate at 8, and at 16 an object of
  5000 null references, which uses up the releasing budget.\<close>

definition dead_cell :: gc_object where
  "dead_cell = \<lparr>header_word = cons_header, meta_ref_count = Meta_Flags_Cyclic_Candidate, obj_value = [0, 0, 0]\<rparr>"

definition wide_count :: nat where
  "wide_count = 5000"

definition wide_object :: gc_object where
  "wide_object = \<lparr>header_word = type_bits Type_MonoRef OR Flag_HasPointers OR push_bit 43 3 OR 5000,
     meta_ref_count = 0, obj_value = replicate wide_count 0\<rparr>"

definition backlog_state :: Syli_state where
  "backlog_state = (zero_state [8 \<mapsto> dead_cell, 16 \<mapsto> wide_object])
     \<lparr>releasing_waitlist := [9, 17], cyclic_candidates := [9], cyclic_mem_alloc := 1, cyclic_obj_alloc := 1,
      BUDGET_GC_TRACING := 2 * BUDGET_BATCH_SIZE, BUDGET_GC_RELEASING := 5 * BUDGET_BATCH_SIZE,
      BUDGET_GC_CHECKING := 3 * BUDGET_BATCH_SIZE\<rparr>"

lemma wide_header:
  "syli_object_is_mono_ref (header_word wide_object)" "syli_object_length (header_word wide_object) = Inr 5000"
  "\<not> syli_object_is_cyclic (header_word wide_object)" "obj_local wide_object"
  "syli_object_get_zone (header_word wide_object) = Zone_GcLocal"
  "syli_object_has_pointers (header_word wide_object)" "\<not> syli_object_is_mono_imm (header_word wide_object)"
  "\<not> syli_object_is_cyclic_mutable (header_word wide_object)"
  by (simp_all add: wide_object_def imm_flag_defs header_accessor_defs obj_local_def type_predicates
      header_mask_defs type_of_bits_def zone_of_bits_def)

lemma wide_facts:
  "obj_ok wide_object" "own_refs wide_object = []" "obj_rc wide_object = 0"
  "\<not> obj_flag Meta_Flags_Cyclic_Candidate wide_object"
  "\<not> obj_flag Meta_Flags_Waiting_Remove wide_object" "\<not> obj_flag Meta_Flags_Tracing wide_object"
  "obj_marked 0 wide_object" "\<not> obj_flag Meta_Flags_Children_Released wide_object"
  "obj_value wide_object = replicate wide_count 0" "meta_ref_count wide_object = 0"
proof -
  show v: "obj_value wide_object = replicate wide_count 0" "meta_ref_count wide_object = 0"
    by (simp_all add: wide_object_def)
  have "set (ref_slots (header_word wide_object)) \<subseteq> {..<wide_count}"
    using wide_header(1,2) by (auto simp: ref_slots_def ref_count_def type_predicates wide_count_def)
  then show "obj_ok wide_object" "own_refs wide_object = []"
    using wide_header(4,6) v by (auto simp: obj_ok_def own_refs_def is_own_field_def filter_empty_conv subset_iff)
qed (simp_all add: wide_object_def obj_bit_defs Meta_Flags_Children_Released_def)

lemma scan_nulls:
  assumes "obj \<noteq> 0" and "gc_heap s obj = Some x" and "n \<le> length (obj_value x)"
    and null: "\<And>i. i < n \<Longrightarrow> obj_value x ! i = 0"
  shows "scan_fields obj P n visit s = Inr s"
proof -
  define body where "body = (\<lambda>i s. if \<not> P i then Inr s
      else and_then (read_field obj i (gc_heap s)) (\<lambda>v.
        if v = 0 \<or> \<not> syli_ownership_is_own_ref v then Inr s else visit v s))"
  have one: "body i s = Inr s" if "i < n" for i
    using assms null [OF that] that by (simp add: body_def read_field_def deref_def)
  have "for_range i n body s = Inr s" for i
  proof (induction "n - i" arbitrary: i)
    case (Suc k)
    then show ?case using one [of i] by (simp add: for_range_step)
  qed simp
  then show ?thesis unfolding scan_fields_def body_def .
qed

lemma dead_facts:
  "obj_local dead_cell" "obj_indexed dead_cell" "obj_index dead_cell = 0" "obj_rc dead_cell = 0"
  "obj_flag Meta_Flags_Cyclic_Candidate dead_cell" "\<not> obj_flag Meta_Flags_Waiting_Remove dead_cell"
  "\<not> obj_flag Meta_Flags_Tracing dead_cell" "\<not> obj_flag Meta_Flags_Children_Released dead_cell"
  "\<not> obj_marked MASK_MARKING_BIT dead_cell" "obj_marked 0 dead_cell" "header_word dead_cell = cons_header"
  "obj_value dead_cell = [0, 0, 0]" "own_refs dead_cell = []" "obj_ok dead_cell"
proof -
  have "ref_slots cons_header = [0]"
    using cons_header_fields by (simp add: ref_slots_def ref_count_def is_ref_slot_def syli_bitmap_is_ref_def upt_rec)
  then show "own_refs dead_cell = []" "obj_ok dead_cell"
    using cons_header_fields by (simp_all add: own_refs_def obj_ok_def dead_cell_def is_own_field_def obj_local_def)
qed (use cons_header_fields in \<open>simp_all add: dead_cell_def obj_indexed_def obj_index_def obj_local_def obj_len_def
    obj_bit_defs Meta_Flags_Children_Released_def\<close>)

lemma backlog_ok: "program_ok (\<lambda>_. 0, backlog_state)"
proof -
  let ?h = "[8 \<mapsto> dead_cell, 16 \<mapsto> wide_object]"
  have h: "gc_heap backlog_state = ?h" by (simp add: backlog_state_def zero_state_def)
  have hold: "holders {} ?h = {8, 16}" using dead_facts wide_facts by (auto simp: holders_def)
  have dead: "dead {} ?h = {8, 16}" using dead_facts(4) wide_facts(3) by (auto simp: dead_def hold rc_at_def)
  have inc: "incoming {} ?h p = 0" for p using dead_facts(13) wide_facts(2) by (simp add: incoming_def hold)
  have counts: "counts_ok (\<lambda>_. 0) {} ?h"
    using dead_facts wide_facts inc by (auto simp: counts_ok_def rc_at_def split: if_splits)
  have reg: "registry_inv ?h [9]"
    unfolding registry_inv_def registry_entry_def
    using dead_facts wide_facts sample_untag by (auto split: if_splits)
  have ok: "heap_ok ?h" using dead_facts wide_facts sample_untag by (auto simp: heap_ok_def split: if_splits)
  have tr: "traced ?h = {}" using dead_facts wide_facts by (auto simp: traced_def split: if_splits)
  have "rel_inv (\<lambda>_. 0) {} backlog_state"
    using counts reg ok tr dead by (simp add: rel_inv_def heap_inv_def h)
      (simp add: backlog_state_def zero_state_def rel_queue_def sample_untag)
  moreover have "torn ?h = {}" using dead_facts wide_facts by (auto simp: torn_def split: if_splits)
  ultimately have "between (\<lambda>_. 0) backlog_state"
    using dead_facts(10) wide_facts(7)
    by (simp add: between_def h) (simp add: backlog_state_def zero_state_def releasing_sm_ok_def)
  moreover have "\<not> syli_object_is_mono_imm cons_header" using cons_header_fields(7) by (simp add: type_predicates)
  then have "plain_imm ?h" using wide_header(7) dead_facts(11) by (simp add: plain_imm_def)
  ultimately show ?thesis by (simp add: program_ok_def ready_def h)
qed

lemma wide_step:
  assumes "gc_heap s = [8 \<mapsto> dead_cell, 16 \<mapsto> wide_object]" and "releasing_worklist s = [9, 17]"
  shows "gc_one_step_releasing s = Inr (s\<lparr>releasing_worklist := [9], releasing_budget := releasing_budget s - 5001,
     total_objects_freed := total_objects_freed s + 1, gc_heap := [8 \<mapsto> dead_cell]\<rparr>)"
proof -
  let ?t = "s\<lparr>releasing_worklist := [9], releasing_budget := releasing_budget s - 5001\<rparr>"
  have "scan_fields 16 (\<lambda>_. True) 5000 child_release_object ?t = Inr ?t"
    by (rule scan_nulls [where x = wide_object]) (simp_all add: assms wide_facts(9) wide_count_def)
  moreover have "syli_object_refcount 16 (gc_heap s) = Inr 0"
    using object_ops_local(4) [of 16 "gc_heap s" wide_object] wide_header(4) wide_facts(10) assms(1) by simp
  moreover have "[8 \<mapsto> dead_cell, 16 \<mapsto> wide_object](16 := None) = [8 :: u64 \<mapsto> dead_cell]" by (simp add: fun_eq_iff)
  ultimately show ?thesis
    using wide_header(1-4) wide_facts(4,6) assms free_plain_object [of 16 ?t wide_object] sample_untag(1)
    by (simp add: gc_one_step_releasing_def gc_vector_pop_back_def Let_def release_children_def
        syli_object_of_obj_ptr_def deref_live)
qed

lemma no_stack_roots: "syli_rt_collect_stack_roots roots_env_null s = Inr s"
  by (simp add: syli_rt_collect_stack_roots_def stack_roots_ready_def roots_env_null_def no_section_def exI [of _ False])

text \<open>The releasing collector tears down the wide object only.\<close>

lemma backlog_releasing:
  "\<exists>s. syli_state_gc_releasing (cycle_budgets backlog_state) = Some (Inr s) \<and> gc_heap s = [8 \<mapsto> dead_cell]
     \<and> releasing_worklist s = [9] \<and> releasing_state s = Releasing \<and> cyclic_candidates s = [9]
     \<and> tracing_state s = Tracing_Idle \<and> tracing_budget s = 2000 \<and> tracing_worklist s = []
     \<and> tracing_mutations_worklist s = [] \<and> lost_cycle_worklist s = [] \<and> tracing_current_bit_mark s = 0
     \<and> BUDGET_GC_RELEASING s = 5000 \<and> tracing_triggered s"
proof -
  let ?s0 = "cycle_budgets backlog_state"
  let ?s1 = "(set_releasing_working ?s0)\<lparr>releasing_state := Releasing\<rparr>"
  have b: "gc_heap ?s1 = [8 \<mapsto> dead_cell, 16 \<mapsto> wide_object]" "releasing_worklist ?s1 = [9, 17]"
    "releasing_budget ?s1 = 5000"
    by (simp_all add: cycle_budgets_def set_releasing_working_def backlog_state_def zero_state_def BUDGET_BATCH_SIZE_def)
  let ?s2 = "?s1\<lparr>releasing_worklist := [9], releasing_budget := - 1,
     total_objects_freed := total_objects_freed ?s1 + 1, gc_heap := [8 \<mapsto> dead_cell]\<rparr>"
  let ?s3 = "?s2\<lparr>releasing_steps := releasing_steps ?s2 + 1\<rparr>"
  have "releasing_round ?s0 = Inr (Continue ?s1)"
    by (simp add: releasing_round_def cycle_budgets_def backlog_state_def zero_state_def BUDGET_BATCH_SIZE_def)
  moreover have "gc_one_step_releasing ?s1 = Inr ?s2" using wide_step [OF b(1,2)] b(3) by simp
  then have "releasing_round ?s1 = Inr (Continue ?s3)" using b(3) by (simp add: releasing_round_def Let_def)
  moreover have "releasing_round ?s3 = Inr (Return ?s3)" by (simp add: releasing_round_def)
  ultimately have "syli_state_gc_releasing ?s0 = Some (Inr ?s3)"
    by (simp add: syli_state_gc_releasing_def run_loop_Continue run_loop_Return)
  then show ?thesis
    by (intro exI [of _ ?s3] conjI, assumption)
      (simp_all add: cycle_budgets_def set_releasing_working_def backlog_state_def zero_state_def BUDGET_BATCH_SIZE_def
        tracing_triggered_def gc_current_cyclic_mem_def candidates_ratio_def gc_current_cyclic_obj_def
        gc_cyclic_candidate_count_def)
qed

definition torn_cell :: gc_object where
  "torn_cell = set_meta (Meta_Flags_Cyclic_Candidate OR Meta_Flags_Children_Released) dead_cell"

lemma torn_cell_facts:
  "obj_local torn_cell" "obj_indexed torn_cell" "obj_index torn_cell = 0" "meta_ref_count torn_cell AND REFCOUNT_MASK = 0"
  "obj_flag Meta_Flags_Cyclic_Candidate torn_cell" "\<not> obj_flag Meta_Flags_Tracing torn_cell"
  "obj_flag Meta_Flags_Children_Released torn_cell" "header_word torn_cell = cons_header" "obj_value torn_cell = [0, 0, 0]"
  using dead_facts(1,2,3,11,12)
  by (simp_all add: torn_cell_def set_meta_def obj_bit_defs Meta_Flags_Children_Released_def obj_local_def
      obj_indexed_def obj_index_def obj_len_def)

lemma dead_scan:
  assumes h: "gc_heap s = [8 \<mapsto> dead_cell]" and "cyclic_candidates s = [9]" and "current_candidate_check_index s = 1"
    and "tracing_current_bit_mark s = MASK_MARKING_BIT" and "lost_cycle_worklist s = []"
  shows "gc_one_step_scan s = Inr (s\<lparr>current_candidate_check_index := 0, gc_heap := [8 \<mapsto> torn_cell],
     checking_budget := checking_budget s - 2, lost_cycle_worklist := [9]\<rparr>)"
proof -
  let ?t = "s\<lparr>current_candidate_check_index := 0, gc_heap := [8 \<mapsto> torn_cell]\<rparr>"
  have "gc_is_object_mark_tagged 8 (s\<lparr>current_candidate_check_index := 0\<rparr>) = Inr False"
    using is_mark_tagged [of 8 "s\<lparr>current_candidate_check_index := 0\<rparr>" dead_cell] dead_facts(9) assms by simp
  moreover have "syli_object_has_flags 8 Meta_Flags_Children_Released (gc_heap s) = Inr False"
    using object_ops_local(3) [of 8 "gc_heap s" dead_cell] dead_facts(1,8) h by simp
  moreover have "syli_object_set_flags 8 Meta_Flags_Children_Released (gc_heap s) = Inr [8 \<mapsto> torn_cell]"
    using object_ops_local(1) [of 8 "gc_heap s" dead_cell] dead_facts(1)
    unfolding h torn_cell_def by (simp add: dead_cell_def)
  moreover have "syli_object_refcount 8 [8 \<mapsto> torn_cell] = Inr 0"
    using object_ops_local(4) [of 8 "[8 \<mapsto> torn_cell]" torn_cell] torn_cell_facts by simp
  moreover have "scan_fields 8 P 2 visit u = Inr u" if "gc_heap u = [8 \<mapsto> torn_cell]" for P visit u
    by (rule scan_nulls [where x = torn_cell]) (use that torn_cell_facts(9) in \<open>auto simp: nth_Cons'\<close>)
  then have "lost_cycle_release_children 8 ?t = Inr (?t\<lparr>checking_budget := checking_budget s - 2\<rparr>)"
    using torn_cell_facts(8) cons_header_fields(3,7,8) shape_accessors(1) [of cons_header]
    by (simp add: lost_cycle_release_children_def deref_def Let_def type_predicates)
  ultimately show ?thesis
    using assms(2-5) sample_untag(2)
    by (simp add: gc_one_step_scan_def Let_def candidate_at_def syli_object_of_obj_ptr_def on_heap_def when_r_def
        lost_cycle_enqueue_free_def gc_vector_push_back_def)
qed

text \<open>The tracer finds the candidate white, because the generation has changed since it was queued.\<close>

lemma backlog_tracing:
  assumes h: "gc_heap s = [8 \<mapsto> dead_cell]" "cyclic_candidates s = [9]" "lost_cycle_worklist s = []"
    and t: "tracing_state s = Tracing_Idle" "sint (tracing_budget s) > 0" "tracing_triggered s"
      "tracing_worklist s = []" "tracing_mutations_worklist s = []" "tracing_current_bit_mark s = 0"
  shows "\<exists>s'. syli_state_gc_tracing roots_env_null s = Some (Inr s') \<and> gc_heap s' 8 = None
     \<and> releasing_worklist s' = releasing_worklist s \<and> releasing_state s' = releasing_state s
     \<and> BUDGET_GC_RELEASING s' = BUDGET_GC_RELEASING s"
proof -
  define a where "a = gc_next_marking_generation
    (s\<lparr>tracing_state := Tracing, cyclic_obj_alloc_at_trace := cyclic_obj_alloc s, current_candidate_check_index := 1\<rparr>)"
  define b where "b = a\<lparr>tracing_state := Reclaiming_Cyclic_Candidates\<rparr>"
  have fa: "gc_heap b = [8 \<mapsto> dead_cell]" "cyclic_candidates b = [9]" "current_candidate_check_index b = 1"
    "tracing_current_bit_mark b = MASK_MARKING_BIT" "lost_cycle_worklist b = []" "tracing_budget b = tracing_budget s"
    "tracing_state b = Reclaiming_Cyclic_Candidates" "cyclic_obj_alloc_at_trace b = cyclic_obj_alloc b"
    "releasing_worklist b = releasing_worklist s" "releasing_state b = releasing_state s"
    "BUDGET_GC_RELEASING b = BUDGET_GC_RELEASING s"
    using h t by (simp_all add: a_def b_def gc_next_marking_generation_def)
  have r1: "tracing_round roots_env_null s = Inr (Continue b)"
    using h t no_stack_roots [of a]
    by (simp add: tracing_round_def Let_def gc_cyclic_candidate_count_def b_def)
      (simp add: a_def gc_next_marking_generation_def)
  define c where "c = b\<lparr>current_candidate_check_index := 0, gc_heap := [8 \<mapsto> torn_cell],
     checking_budget := checking_budget b - 3, lost_cycle_worklist := [9], checking_steps := checking_steps b + 1\<rparr>"
  have r2: "tracing_round roots_env_null b = Inr (Continue c)"
    using fa t(2) dead_scan [of "b\<lparr>checking_budget := checking_budget b - 1\<rparr>"]
    by (simp add: tracing_round_def Let_def c_def)
  define d where "d = c\<lparr>checking_budget := checking_budget c - 1, lost_cycle_worklist := []\<rparr>"
  have hd: "gc_heap d = [8 \<mapsto> torn_cell]" "cyclic_candidates d = [9]" by (simp_all add: d_def c_def fa)
  have reg: "registry_inv (gc_heap d) (cyclic_candidates d)"
    using torn_cell_facts sample_untag(2)
    by (auto simp: hd registry_inv_def registry_entry_def split: if_splits)
  obtain e where e: "free_released_object 8 d = Inr e" "gc_heap e 8 = None" "lost_cycle_worklist e = []"
    "tracing_budget e = tracing_budget d" "tracing_state e = tracing_state d"
    "current_candidate_check_index e = current_candidate_check_index d"
    "cyclic_obj_alloc_at_trace e = cyclic_obj_alloc_at_trace d" "cyclic_obj_alloc e = cyclic_obj_alloc d"
    "releasing_worklist e = releasing_worklist d" "releasing_state e = releasing_state d"
    "BUDGET_GC_RELEASING e = BUDGET_GC_RELEASING d"
    using free_released_object_spec [OF reg, of 8 torn_cell] torn_cell_facts(1,6) hd(1)
    by (auto simp: d_def)
  have fd: "tracing_budget d = tracing_budget s" "tracing_state d = Reclaiming_Cyclic_Candidates"
    "current_candidate_check_index d = 0" "cyclic_obj_alloc_at_trace d = cyclic_obj_alloc d"
    "releasing_worklist d = releasing_worklist s" "releasing_state d = releasing_state s"
    "BUDGET_GC_RELEASING d = BUDGET_GC_RELEASING s" "lost_cycle_worklist c = [9]" "tracing_budget c = tracing_budget s"
    "tracing_state c = Reclaiming_Cyclic_Candidates"
    using fa by (simp_all add: d_def c_def)
  have "syli_object_has_flags 8 Meta_Flags_Children_Released (gc_heap c) = Inr True"
    using object_ops_local(3) [of 8 "gc_heap c" torn_cell] torn_cell_facts(1,7) by (simp add: c_def)
  then have r3: "tracing_round roots_env_null c = Inr (Continue (e\<lparr>checking_steps := checking_steps e + 1\<rparr>))"
    using e(1) fd(8-10) t(2) sample_untag(2)
    by (simp add: tracing_round_def gc_one_step_free_unreachable_def gc_vector_pop_back_def Let_def
        syli_object_of_obj_ptr_def when_r_def d_def)
  define f where "f = e\<lparr>checking_budget := checking_budget e - 1, tracing_state := Tracing_Idle,
     checking_steps := checking_steps e + 2\<rparr>"
  have r4: "tracing_round roots_env_null (e\<lparr>checking_steps := checking_steps e + 1\<rparr>) = Inr (Continue f)"
    using e fd t(2) by (simp add: tracing_round_def f_def Let_def)
  have r5: "tracing_round roots_env_null f = Inr (Return f)"
    using e fd t(2) by (simp add: tracing_round_def f_def tracing_triggered_def)
  have "syli_state_gc_tracing roots_env_null s = Some (Inr f)"
    using r1 r2 r3 r4 r5 by (simp add: syli_state_gc_tracing_def run_loop_unfold)
  then show ?thesis using e fd by (intro exI [of _ f]) (simp add: f_def)
qed

text \<open>C19: an object that waits to be released when a collection ends early is freed twice. Two dead objects are
  queued; the first uses up the releasing budget, and the other one is a registered
  candidate. It was marked when it was queued, but the collection that follows in the same
  call changes the mark, finds it white and of count zero, and frees it; the next call takes
  it from the releasing queue and reads a block that is no longer allocated.\<close>

theorem backlog_candidate_freed:
  "program_ok (\<lambda>_. 0, backlog_state)
   \<and> (\<exists>s. syli_rt_gc_cycle roots_env_null backlog_state = Some (Inr s)
        \<and> syli_rt_gc_cycle roots_env_null s = Some (Inl InvalidAccess))"
proof -
  obtain r where r: "syli_state_gc_releasing (cycle_budgets backlog_state) = Some (Inr r)"
    and R: "gc_heap r = [8 \<mapsto> dead_cell]" "cyclic_candidates r = [9]" "lost_cycle_worklist r = []"
      "tracing_state r = Tracing_Idle" "0 < sint (tracing_budget r)" "tracing_triggered r"
      "tracing_worklist r = []" "tracing_mutations_worklist r = []" "tracing_current_bit_mark r = 0"
    and Q: "releasing_worklist r = [9]" "releasing_state r = Releasing" "BUDGET_GC_RELEASING r = 5000"
    using backlog_releasing by auto
  obtain s where s: "syli_state_gc_tracing roots_env_null r = Some (Inr s)" "gc_heap s 8 = None"
    "releasing_worklist s = [9]" "releasing_state s = Releasing" "BUDGET_GC_RELEASING s = 5000"
    using backlog_tracing [OF R] Q by auto
  have first: "syli_rt_gc_cycle roots_env_null backlog_state = Some (Inr s)"
    using r s(1) by (simp add: syli_rt_gc_cycle_def syli_state_gc_cycle_def cycle_budgets_def)
  let ?s0 = "cycle_budgets s"
  have "releasing_round ?s0 = Inl InvalidAccess"
    using s(2-5) sample_untag(2)
    by (simp add: releasing_round_def cycle_budgets_def gc_one_step_releasing_def gc_vector_pop_back_def Let_def
        syli_object_of_obj_ptr_def check_def deref_def)
  then have "syli_state_gc_releasing ?s0 = Some (Inl InvalidAccess)"
    by (simp add: syli_state_gc_releasing_def run_loop_Inl)
  then have "syli_rt_gc_cycle roots_env_null s = Some (Inl InvalidAccess)"
    by (simp add: syli_rt_gc_cycle_def syli_state_gc_cycle_def cycle_budgets_def)
  with first backlog_ok show ?thesis by blast
qed

section \<open>Releasing an object that is noted for the mutation round\<close>

text \<open>The program holds a marked object at 16 that a store has noted; with \<open>grey\<close> it is also on the
  tracing worklist. Collection is paused.\<close>

definition plain_cell :: "u64 \<Rightarrow> gc_object" where
  "plain_cell m = \<lparr>header_word = cons_header, meta_ref_count = m, obj_value = [0, 0, 0]\<rparr>"

definition noted_meta :: "bool \<Rightarrow> u64" where
  "noted_meta grey = MASK_MARKING_BIT OR (if grey then Meta_Flags_Tracing else 0)"

definition noted_state :: "bool \<Rightarrow> Syli_state" where
  "noted_state grey = (zero_state [8 \<mapsto> black_cell, 16 \<mapsto> plain_cell (noted_meta grey OR 1)])
     \<lparr>tracing_state := Mutation_Prepare, tracing_current_bit_mark := MASK_MARKING_BIT,
      tracing_mutations_worklist := [17], tracing_worklist := (if grey then [17] else []),
      BUDGET_GC_TRACING := 2 * BUDGET_BATCH_SIZE, BUDGET_GC_RELEASING := 5 * BUDGET_BATCH_SIZE,
      BUDGET_GC_CHECKING := 3 * BUDGET_BATCH_SIZE\<rparr>"

lemma plain_cell_facts [simp]:
  "header_word (plain_cell m) = cons_header" "meta_ref_count (plain_cell m) = m" "obj_value (plain_cell m) = [0, 0, 0]"
  "own_refs (plain_cell m) = []" "obj_ok (plain_cell m)" "obj_local (plain_cell m)" "set_meta m' (plain_cell m) = plain_cell m'"
  using black_cell_facts(9) cons_header_fields
  by (simp_all add: plain_cell_def own_refs_def obj_ok_def obj_local_def is_own_field_def set_meta_def)




lemma noted_facts:
  "obj_rc (plain_cell (noted_meta grey OR 1)) = 1"
  "\<not> obj_flag Meta_Flags_Cyclic_Candidate (plain_cell (noted_meta grey OR 1))"
  "\<not> obj_flag Meta_Flags_Waiting_Remove (plain_cell (noted_meta grey OR 1))"
  "\<not> obj_flag Meta_Flags_Children_Released (plain_cell (noted_meta grey OR 1))"
  "obj_flag Meta_Flags_Tracing (plain_cell (noted_meta grey OR 1)) = grey"
  "obj_marked MASK_MARKING_BIT (plain_cell (noted_meta grey OR 1))"
  "\<not> obj_flag Meta_Flags_Cyclic_Candidate (plain_cell (noted_meta grey))"
  "obj_flag Meta_Flags_Tracing (plain_cell (noted_meta grey)) = grey"
  "noted_meta grey AND REFCOUNT_MASK = 0"
  "((noted_meta grey OR 1) - 1) AND REFCOUNT_MASK = 0"
  "((noted_meta grey OR 1) - 1) AND NOT MASK_MARKING_BIT OR MASK_MARKING_BIT = noted_meta grey"
  by (cases grey; simp add: noted_meta_def obj_bit_defs Meta_Flags_Children_Released_def)+

lemma noted_ok: "program_ok (two_roots, noted_state grey)"
proof -
  let ?h = "[8 \<mapsto> black_cell, 16 \<mapsto> plain_cell (noted_meta grey OR 1)]"
  have h: "gc_heap (noted_state grey) = ?h" by (simp add: noted_state_def zero_state_def)
  note C = black_cell_facts noted_facts
  have hold: "holders {} ?h = {8, 16}" using C by (auto simp: holders_def)
  have dead: "dead {} ?h = {}" using C(3,12) by (auto simp: dead_def hold rc_at_def)
  have "heap_inv two_roots {} (noted_state grey)"
    using C sample_untag hold
    by (auto simp: heap_inv_def h heap_ok_def counts_ok_def incoming_def rc_at_def registry_inv_def traced_def
        noted_state_def zero_state_def split: if_splits)
  moreover have "torn ?h = {}" using C(15) by (auto simp: torn_def black_cell_def obj_bit_defs Meta_Flags_Children_Released_def split: if_splits)
  moreover have "\<not> syli_object_is_mono_imm cons_header" using cons_header_fields(7) by (simp add: type_predicates)
  then have "plain_imm ?h" using C(4) by (auto simp: plain_imm_def split: if_splits)
  ultimately show ?thesis
    using C dead sample_untag
    by (auto simp: program_ok_def ready_def paused_def rel_inv_def mid_collection_def marking_inv_def tricolour_def mutations_ok_def
        shaded_def marking_phase_def checked_def releasing_sm_ok_def h)
      (auto simp: noted_state_def zero_state_def rel_queue_def split: if_splits)
qed


text \<open>The release queues the object, marked.\<close>

definition dropped_state :: "bool \<Rightarrow> Syli_state" where
  "dropped_state grey = (noted_state grey)\<lparr>gc_heap := [8 \<mapsto> black_cell, 16 \<mapsto> plain_cell (noted_meta grey)],
     releasing_waitlist := [17]\<rparr>"

lemma noted_release: "syli_rt_ownership_release 17 (noted_state grey) = Inr (dropped_state grey)"
proof -
  let ?m = "(noted_meta grey OR 1) - 1" and ?h = "\<lambda>x. [8 \<mapsto> black_cell, 16 \<mapsto> x] :: heap"
  have upd: "(?h x)(16 \<mapsto> y) = ?h y" for x y by (simp add: fun_eq_iff)
  have h: "gc_heap (noted_state grey) = ?h (plain_cell (noted_meta grey OR 1))" by (simp add: noted_state_def zero_state_def)
  have "syli_object_refcount 16 (?h (plain_cell ?m)) = Inr 0"
    using object_ops_local(4) [of 16 "?h (plain_cell ?m)" "plain_cell ?m"] noted_facts(10) by simp
  moreover have "\<not> syli_object_is_mono_imm cons_header" using cons_header_fields(7) by (simp add: type_predicates)
  ultimately have "syli_rt_object_decr 16 17 (noted_state grey) = Inr (dropped_state grey)"
    using cons_header_fields(1,2) sample_untag noted_facts(11)
    by (simp add: syli_rt_object_decr_def deref_live write_meta_live on_heap_def Let_def check_def h upd
        gc_releasing_worklist_push_def syli_object_of_obj_ptr_def when_r_def gc_mark_tag_object_def)
      (simp add: dropped_state_def noted_state_def zero_state_def gc_vector_push_back_def)
  moreover have own: "syli_ownership_is_own_ref 17" using sample_untag by simp
  ultimately show ?thesis
    using share_runs(4) [OF own_shareable [OF own]] own sample_untag by simp
qed

text \<open>The collector frees it, or keeps it for the tracing worklist.\<close>

definition cell_left :: "bool \<Rightarrow> gc_object option" where
  "cell_left grey = (if grey then Some (plain_cell (noted_meta True OR Meta_Flags_Waiting_Remove)) else None)"

lemma noted_free:
  assumes h: "gc_heap s = [8 \<mapsto> black_cell, 16 \<mapsto> plain_cell (noted_meta grey)]"
  shows "\<exists>t m n. free_released_object 16 s = Inr (s\<lparr>gc_heap := [8 \<mapsto> black_cell](16 := cell_left grey),
     total_objects_freed := t, cyclic_mem_dealloc := m, cyclic_obj_dealloc := n\<rparr>)"
proof -
  let ?x = "plain_cell (noted_meta grey)"
  have f: "syli_object_has_flags 16 f (gc_heap s) = Inr (obj_flag f ?x)" for f
    using object_ops_local(3) [of 16 "gc_heap s" ?x] h by simp
  note free = free_released_object_def f noted_facts(7,8) Let_def and_then_Inr
  show ?thesis
  proof (cases grey)
    case True
    have "syli_object_set_flags 16 Meta_Flags_Waiting_Remove (gc_heap s) = Inr ([8 \<mapsto> black_cell](16 := cell_left grey))"
      using object_ops_local(1) [of 16 "gc_heap s" ?x] h True by (simp add: cell_left_def)
    with True have "free_released_object 16 s = Inr (s\<lparr>gc_heap := [8 \<mapsto> black_cell](16 := cell_left grey)\<rparr>)"
      by (simp add: free on_heap_def)
    then show ?thesis
      by (intro exI [of _ "total_objects_freed s"] exI [of _ "cyclic_mem_dealloc s"] exI [of _ "cyclic_obj_dealloc s"]) simp
  next
    case False
    obtain b where b: "syli_object_total_bytes cons_header = Inr b"
      using cons_header_fields(2,3) by (simp add: syli_object_total_bytes_def syli_object_size_bytes_def Let_def)
    have n: "(gc_heap s)(16 := None) = [8 \<mapsto> black_cell](16 := cell_left grey)"
      using False by (simp add: h cell_left_def fun_eq_iff)
    have "gc_heap s 16 = Some ?x" by (simp add: h)
    with b False have "free_released_object 16 s = Inr (s\<lparr>gc_heap := (gc_heap s)(16 := None),
       total_objects_freed := total_objects_freed s + 1, cyclic_mem_dealloc := cyclic_mem_dealloc s + b,
       cyclic_obj_dealloc := cyclic_obj_dealloc s + 1\<rparr>)"
      by (simp add: free gc_account_cyclic_free_def deref_live on_heap_def free_block_def cons_header_fields(6))
    then show ?thesis unfolding n by (intro exI)
  qed
qed


lemma noted_releasing:
  obtains r where "syli_state_gc_releasing (cycle_budgets (dropped_state grey)) = Some (Inr r)"
    and "gc_heap r = [8 \<mapsto> black_cell](16 := cell_left grey)" and "tracing_state r = Mutation_Prepare"
    and "tracing_mutations_worklist r = [17]" and "tracing_worklist r = (if grey then [17] else [])"
    and "tracing_budget r = 2000"
proof -
  let ?h = "[8 \<mapsto> black_cell, 16 \<mapsto> plain_cell (noted_meta grey)]"
  define s0 where "s0 = cycle_budgets (dropped_state grey)"
  define s1 where "s1 = s0\<lparr>releasing_worklist := [17], releasing_waitlist := [], releasing_state := Releasing\<rparr>"
  define s2 where "s2 = s1\<lparr>releasing_worklist := [], releasing_budget := 4997\<rparr>"
  have f: "gc_heap s0 = ?h" "releasing_budget s0 = 5000" "releasing_state s0 = Releasing_Idle" "releasing_waitlist s0 = [17]"
    "THRESHOLD_RELEASING_BUCKET s0 = 0" "tracing_state s0 = Mutation_Prepare" "tracing_budget s0 = 2000"
    "tracing_mutations_worklist s0 = [17]" "tracing_worklist s0 = (if grey then [17] else [])"
    by (simp_all add: s0_def cycle_budgets_def dropped_state_def noted_state_def zero_state_def BUDGET_BATCH_SIZE_def)
  have r0: "releasing_round s0 = Inr (Continue s1)"
    using f by (simp add: releasing_round_def set_releasing_working_def s1_def)
  have h: "gc_heap s2 = ?h" by (simp add: s2_def s1_def f)
  obtain t m n where free: "free_released_object 16 s2 = Inr (s2\<lparr>gc_heap := [8 \<mapsto> black_cell](16 := cell_left grey),
     total_objects_freed := t, cyclic_mem_dealloc := m, cyclic_obj_dealloc := n\<rparr>)"
    using noted_free [OF h] by blast
  define s3 where "s3 = s2\<lparr>gc_heap := [8 \<mapsto> black_cell](16 := cell_left grey),
     total_objects_freed := t, cyclic_mem_dealloc := m, cyclic_obj_dealloc := n\<rparr>"
  have "scan_fields 16 P 2 child_release_object s2 = Inr s2" for P
    by (rule scan_nulls [where x = "plain_cell (noted_meta grey)"]) (simp_all add: h nth_Cons')
  moreover have "syli_object_refcount 16 (gc_heap s2) = Inr 0"
    using object_ops_local(4) [of 16 "gc_heap s2" "plain_cell (noted_meta grey)"] noted_facts(9) by (simp add: h)
  ultimately have step: "gc_one_step_releasing s1 = Inr s3"
    using free [folded s3_def] f sample_untag cons_header_fields(3,7,8)
    by (simp add: gc_one_step_releasing_def gc_vector_pop_back_def Let_def release_children_def type_predicates
        syli_object_of_obj_ptr_def deref_live s1_def s2_def)
  define s4 where "s4 = s3\<lparr>releasing_steps := releasing_steps s3 + 1, releasing_state := Releasing_Idle\<rparr>"
  have "releasing_round s1 = Inr (Continue s4)"
    using step f by (simp add: releasing_round_def Let_def s4_def s3_def s2_def s1_def)
  moreover have "releasing_round s4 = Inr (Return s4)"
    by (simp add: releasing_round_def s4_def s3_def s2_def s1_def)
  ultimately have "syli_state_gc_releasing s0 = Some (Inr s4)"
    using r0 by (simp add: syli_state_gc_releasing_def run_loop_Continue run_loop_Return)
  then show ?thesis
    by (rule that [folded s0_def]) (simp_all add: s4_def s3_def s2_def s1_def f)
qed

lemma noted_tracing:
  assumes h: "gc_heap r = [8 \<mapsto> black_cell](16 := cell_left grey)" and t: "tracing_state r = Mutation_Prepare"
    "tracing_mutations_worklist r = [17]" "tracing_worklist r = (if grey then [17] else [])" "tracing_budget r = 2000"
  shows "syli_state_gc_tracing roots_env_null r = Some (Inl InvalidAccess)"
proof (cases grey)
  case False
  then have "tracing_round roots_env_null r = Inl InvalidAccess"
    using h t sample_untag
    by (simp add: tracing_round_def gc_one_step_prepare_tracing_mutations_def gc_vector_pop_back_def Let_def check_def
        syli_object_of_obj_ptr_def deref_def cell_left_def)
  then show ?thesis by (simp add: syli_state_gc_tracing_def run_loop_unfold)
next
  case True
  let ?x = "plain_cell (noted_meta True OR Meta_Flags_Waiting_Remove)"
  define s1 where "s1 = r\<lparr>tracing_mutations_worklist := [], gc_heap := [8 \<mapsto> black_cell](16 := None),
     mutation_steps := mutation_steps r + 1\<rparr>"
  have x: "gc_heap r 16 = Some ?x" using h True by (simp add: cell_left_def)
  have "obj_flag Meta_Flags_Waiting_Remove ?x" by (simp add: noted_meta_def obj_bit_defs)
  then have w: "syli_object_has_flags 16 Meta_Flags_Waiting_Remove (gc_heap r) = Inr True"
    using object_ops_local(3) [of 16 "gc_heap r" ?x] x by simp
  have del: "(gc_heap r)(16 := None) = [8 \<mapsto> black_cell](16 := None)" by (simp add: h fun_eq_iff)
  have r1: "tracing_round roots_env_null r = Inr (Continue s1)"
    using t x w del sample_untag cons_header_fields(1)
    by (simp add: tracing_round_def gc_one_step_prepare_tracing_mutations_def gc_vector_pop_back_def Let_def check_def
        syli_object_of_obj_ptr_def deref_live on_heap_def free_block_def s1_def)
  have r2: "tracing_round roots_env_null s1 = Inr (Continue (s1\<lparr>tracing_state := Tracing\<rparr>))"
    using t True by (simp add: tracing_round_def s1_def)
  have r3: "tracing_round roots_env_null (s1\<lparr>tracing_state := Tracing\<rparr>) = Inl InvalidAccess"
    using t True sample_untag
    by (simp add: tracing_round_def gc_one_step_tracing_def gc_vector_pop_back_def Let_def check_def
        syli_object_of_obj_ptr_def on_heap_def syli_object_clear_flags_def deref_def s1_def)
  show ?thesis using r1 r2 r3 by (simp add: syli_state_gc_tracing_def run_loop_unfold)
qed

text \<open>C15: an object that a store has noted for the mutation round is not protected when its last
  reference is released, a legal step of the program from a state in which every invariant
  holds. The collector frees it, and the mutation round of the same call reads the freed
  block (\<open>grey\<close> is false); or, when the object is on the tracing worklist as well, keeps it
  for the tracer, but the mutation round frees it and leaves it on that worklist, where the
  next round of marking reads it (\<open>grey\<close> is true).\<close>

theorem noted_object_freed:
  "program_ok (two_roots, noted_state grey) \<and> noted_reachable two_roots (noted_state grey)
   \<and> program_step envs (two_roots, noted_state grey) (dropped 16 two_roots, dropped_state grey)
   \<and> program_ok (dropped 16 two_roots, dropped_state grey)
   \<and> syli_rt_gc_cycle roots_env_null (dropped_state grey) = Some (Inl InvalidAccess)"
proof (intro conjI)
  show ok: "program_ok (two_roots, noted_state grey)" by (rule noted_ok)
  show "noted_reachable two_roots (noted_state grey)"
    using sample_untag by (simp add: noted_reachable_def noted_state_def reachable.root)
  have "\<not> syli_object_is_mono_imm cons_header" using cons_header_fields(7) by (simp add: type_predicates)
  then have "may_release two_roots (noted_state grey) 17"
    using sample_untag by (simp add: may_release_def releasable_def noted_state_def zero_state_def)
  from program_step.release [OF this noted_release] sample_untag
  show st: "program_step envs (two_roots, noted_state grey) (dropped 16 two_roots, dropped_state grey)"
    for envs :: "'c roots_env set" by simp
  show "program_ok (dropped 16 two_roots, dropped_state grey)" by (rule program_step_ok [OF st ok])
  obtain r where "syli_state_gc_releasing (cycle_budgets (dropped_state grey)) = Some (Inr r)"
    and "gc_heap r = [8 \<mapsto> black_cell](16 := cell_left grey)" "tracing_state r = Mutation_Prepare"
     "tracing_mutations_worklist r = [17]" "tracing_worklist r = (if grey then [17] else [])" "tracing_budget r = 2000"
    by (rule noted_releasing)
  with noted_tracing [of r grey] show "syli_rt_gc_cycle roots_env_null (dropped_state grey) = Some (Inl InvalidAccess)"
    by (simp add: syli_rt_gc_cycle_def syli_state_gc_cycle_def cycle_budgets_def)
qed

end
