(* ===== verification/StoreSpec.thy ===== *)
theory StoreSpec
  imports Mutator
begin

text \<open>
  The specification of the runtime as a program sees it: a store of cells without counts, marks,
  queues or a collector, in which what cannot be reached any more is not there. The
  abstraction (\<open>view\<close>) forgets all the state of the collectors, and every step of a program
  on the runtime is a step on the store.
\<close>

section \<open>The store\<close>

text \<open>A cell is the header the program asked for and the words in it.\<close>

type_synonym cell = "u64 \<times> u64 list"
type_synonym store = "u64 \<rightharpoonup> cell"

definition cell_refs :: "cell \<Rightarrow> obj_ptr list" where
  "cell_refs c = filter is_own_field (map ((!) (snd c)) (ref_slots (fst c)))"

text \<open>What a program that holds \<open>ext\<close> references can get at, and the store that is left of it.\<close>

inductive linked :: "(u64 \<Rightarrow> nat) \<Rightarrow> store \<Rightarrow> u64 \<Rightarrow> bool" for ext m where
  root: "0 < ext p \<Longrightarrow> linked ext m p"
| link: "linked ext m q \<Longrightarrow> m q = Some c \<Longrightarrow> v \<in> set (cell_refs c) \<Longrightarrow> linked ext m (syli_ownership_untag v)"

definition live_part :: "(u64 \<Rightarrow> nat) \<Rightarrow> store \<Rightarrow> store" where
  "live_part ext m = m |` {p. linked ext m p}"

text \<open>A new cell is all zero. When a reference is given up, or stored over another, what cannot be
  reached any more is gone. Words that are not references are written at will.\<close>

inductive store_step :: "(u64 \<Rightarrow> nat) \<times> store \<Rightarrow> (u64 \<Rightarrow> nat) \<times> store \<Rightarrow> bool" where
  new: "store_step (ext, m) (ext(p := n), m(p \<mapsto> c))" if "m p = None" and "0 < n" and "cell_refs c = []" and "set (snd c) \<subseteq> {0}"
| hold: "store_step (ext, m) (held p ext, m)" if "p \<in> dom m"
| drop: "store_step (ext, m) (dropped p ext, live_part (dropped p ext) m)" if "0 < ext p"
| assign: "store_step (ext, m) (ext', live_part ext' (m(p \<mapsto> (hw, ws[i := v]))))"
    if "m p = Some (hw, ws)" and "i \<in> set (ref_slots hw)" and "i < length ws"
      and "moved v (ws ! i) ext ext'"
| data: "store_step (ext, m) (ext, m(p \<mapsto> (hw, ws[i := w])))"
    if "m p = Some (hw, ws)" and "i \<notin> set (ref_slots hw)"
| skip: "store_step c c"

text \<open>Two stores that agree on a set closed under references have the same live part.\<close>

lemma linked_cong:
  assumes root: "\<And>p. 0 < ext p \<Longrightarrow> p \<in> L" and agree: "\<And>p. p \<in> L \<Longrightarrow> m1 p = m2 p"
    and closed: "\<And>p c v. p \<in> L \<Longrightarrow> m1 p = Some c \<Longrightarrow> v \<in> set (cell_refs c) \<Longrightarrow> syli_ownership_untag v \<in> L"
    and p: "linked ext m1 p"
  shows "p \<in> L \<and> linked ext m2 p"
  using p
proof induction
  case (root p)
  then show ?case using assms(1) linked.root by blast
next
  case (link q c v)
  with agree [of q] closed [of q c v] show ?case by (metis linked.link)
qed

lemma live_part_cong:
  assumes root: "\<And>p. 0 < ext p \<Longrightarrow> p \<in> L" and agree: "\<And>p. p \<in> L \<Longrightarrow> m1 p = m2 p"
    and closed: "\<And>p c v. p \<in> L \<Longrightarrow> m1 p = Some c \<Longrightarrow> v \<in> set (cell_refs c) \<Longrightarrow> syli_ownership_untag v \<in> L"
  shows "live_part ext m1 = live_part ext m2"
proof
  fix p
  have 1: "linked ext m1 q \<Longrightarrow> q \<in> L \<and> linked ext m2 q" for q
    by (rule linked_cong [of ext L m1 m2, OF root agree closed])
  have closed2: "syli_ownership_untag v \<in> L" if "q \<in> L" "m2 q = Some c" "v \<in> set (cell_refs c)" for q c v
    using closed [of q c v] that by (simp add: agree)
  have 2: "linked ext m2 q \<Longrightarrow> q \<in> L \<and> linked ext m1 q" for q
    by (rule linked_cong [of ext L m2 m1, OF root agree [symmetric] closed2])
  show "live_part ext m1 p = live_part ext m2 p"
  proof (cases "linked ext m1 p")
    case True
    with 1 [of p] agree [of p] show ?thesis by (simp add: live_part_def)
  next
    case False
    with 2 [of p] show ?thesis by (auto simp: live_part_def restrict_map_def)
  qed
qed

text \<open>So the part of a store that cannot be reached does not matter for what a program does.\<close>

lemma live_part_live:
  assumes "\<And>p. 0 < ext' p \<Longrightarrow> linked ext m p"
  shows "live_part ext' (live_part ext m) = live_part ext' m"
  by (rule live_part_cong [where L = "{p. linked ext m p}"])
    (use assms linked.link in \<open>auto simp: live_part_def\<close>)

lemma live_part_assign:
  assumes "\<And>q. 0 < ext' q \<Longrightarrow> linked ext m q" and "linked ext m p" and "m p = Some (hw, ws)"
    and "\<And>u. u \<in> set (cell_refs (hw, ws[i := v])) \<Longrightarrow> linked ext m (syli_ownership_untag u)"
  shows "live_part ext' ((live_part ext m)(p \<mapsto> (hw, ws[i := v]))) = live_part ext' (m(p \<mapsto> (hw, ws[i := v])))"
  by (rule live_part_cong [where L = "{p. linked ext m p}"])
    (use assms linked.link in \<open>auto simp: live_part_def split: if_splits\<close>)

lemma linked_new:
  assumes "m p = None" and "ext p = 0" and "0 < n" and "cell_refs c = []"
  shows "linked (ext(p := n)) (m(p \<mapsto> c)) q \<longleftrightarrow> q = p \<or> linked ext m q"
proof
  show "linked (ext(p := n)) (m(p \<mapsto> c)) q" if "q = p \<or> linked ext m q"
    using that
  proof
    assume "linked ext m q"
    then show ?thesis
    proof induction
      case (root q)
      then show ?case using assms(2) by (intro linked.root) auto
    next
      case (link q d v)
      then have "q \<noteq> p" using assms(1) by auto
      with link show ?case by (intro linked.link [where q = q and c = d]) auto
    qed
  qed (use assms(3) in \<open>simp add: linked.root\<close>)
  show "q = p \<or> linked ext m q" if "linked (ext(p := n)) (m(p \<mapsto> c)) q"
    using that
  proof induction
    case (root q)
    then show ?case using linked.root [of ext q m] by (auto split: if_splits)
  next
    case (link q d v)
    then show ?case using assms(4) linked.link [of ext m q d v] by (auto split: if_splits)
  qed
qed

lemma live_part_new:
  assumes "m p = None" and "ext p = 0" and "0 < n" and "cell_refs c = []"
  shows "live_part (ext(p := n)) (m(p \<mapsto> c)) = (live_part ext m)(p \<mapsto> c)"
  using linked_new [of m p ext n c] assms by (auto simp: live_part_def restrict_map_def fun_eq_iff)

lemma linked_live: "linked ext (live_part ext m) p \<longleftrightarrow> linked ext m p"
proof
  show "linked ext m p" if "linked ext (live_part ext m) p"
    using that by induction (auto intro: linked.intros simp: live_part_def restrict_map_def split: if_splits)
  show "linked ext (live_part ext m) p" if "linked ext m p"
    using that
  proof induction
    case (link q c v)
    then have "live_part ext m q = Some c" by (simp add: live_part_def)
    with link show ?case by (intro linked.link [where q = q and c = c])
  qed (rule linked.root)
qed

lemma linked_roots:
  assumes "\<And>p. 0 < ext' p \<Longrightarrow> linked ext m p" and "linked ext' m q"
  shows "linked ext m q"
  using assms(2) by induction (use assms(1) linked.link in blast)+

lemma linked_held:
  assumes "linked ext m p"
  shows "linked (held p ext) m q \<longleftrightarrow> linked ext m q"
proof
  show "linked (held p ext) m q \<Longrightarrow> linked ext m q"
    by (rule linked_roots) (use assms linked.root [of ext] in \<open>auto simp: held_def split: if_splits\<close>)
  show "linked ext m q \<Longrightarrow> linked (held p ext) m q"
    by (rule linked_roots) (auto intro: linked.root simp: held_def)
qed

lemma linked_assign:
  assumes m: "m p = Some (hw, ws)" and p: "linked ext m p" and i: "i \<in> set (ref_slots hw)" "i < length ws"
    and mv: "moved v (ws ! i) ext ext'"
  shows "0 < ext' q \<Longrightarrow> linked ext m q"
    and "u \<in> set (cell_refs (hw, ws[i := v])) \<Longrightarrow> linked ext m (syli_ownership_untag u)"
    and "linked ext' (m(p \<mapsto> (hw, ws[i := v]))) q \<Longrightarrow> linked ext m q"
proof -
  have "ws ! i \<in> set (cell_refs (hw, ws))" if "is_own_field (ws ! i)" using that i by (auto simp: cell_refs_def)
  with linked.link [OF p m] have old: "is_own_field (ws ! i) \<Longrightarrow> linked ext m (syli_ownership_untag (ws ! i))" by blast
  note mc = moved_closed [of ext "linked ext m", OF linked.root mv old]
  have roots: "0 < ext' q \<Longrightarrow> linked ext m q" for q by (rule mc(2))
  then show "0 < ext' q \<Longrightarrow> linked ext m q" .
  have refs: "linked ext m (syli_ownership_untag u)" if u: "u \<in> set (cell_refs (hw, ws[i := v]))" for u
  proof -
    have "u = v \<and> is_own_field v \<or> u \<in> set (cell_refs (hw, ws))"
      using u i(2) by (auto simp: cell_refs_def nth_list_update image_iff split: if_splits)
    with linked.link [OF p m] mc(1) show ?thesis by blast
  qed
  then show "u \<in> set (cell_refs (hw, ws[i := v])) \<Longrightarrow> linked ext m (syli_ownership_untag u)" .
  show "linked ext m q" if "linked ext' (m(p \<mapsto> (hw, ws[i := v]))) q"
    using that
  proof induction
    case (root q)
    then show ?case by (rule roots)
  next
    case (link q c u)
    then show ?case using refs linked.link [of ext m q c u] by (auto split: if_splits)
  qed
qed

text \<open>Words that are not references do not matter for what can be reached.\<close>

lemma data_refs:
  assumes "i \<notin> set (ref_slots hw)"
  shows "cell_refs (hw, ws[i := w]) = cell_refs (hw, ws)"
proof -
  have "map ((!) (ws[i := w])) (ref_slots hw) = map ((!) ws) (ref_slots hw)"
    by (rule map_cong [OF refl]) (use assms in \<open>auto intro!: nth_list_update_neq\<close>)
  then show ?thesis by (simp only: cell_refs_def fst_conv snd_conv)
qed

lemma linked_data:
  assumes "m p = Some c" and "cell_refs d = cell_refs c"
  shows "linked ext (m(p \<mapsto> d)) q \<longleftrightarrow> linked ext m q"
proof
  show "linked ext m q" if "linked ext (m(p \<mapsto> d)) q"
    using that by induction (use assms in \<open>auto intro: linked.intros split: if_splits\<close>)
  show "linked ext (m(p \<mapsto> d)) q" if "linked ext m q"
    using that
  proof induction
    case (link q e v)
    show ?case
      by (rule linked.link [OF link(4), of "if q = p then d else e"]) (use link(2,3) assms in auto)
  qed (rule linked.root)
qed

text \<open>On the store itself there are no dangling references: a program reaches exactly what is there.\<close>

definition store_closed :: "(u64 \<Rightarrow> nat) \<times> store \<Rightarrow> bool" where
  "store_closed c \<longleftrightarrow> dom (snd c) = {p. linked (fst c) (snd c) p}"

lemma live_part_closed:
  assumes "\<And>q. linked ext m q \<Longrightarrow> q \<in> dom m"
  shows "store_closed (ext, live_part ext m)"
proof -
  have "dom (live_part ext m) = {q. linked ext m q}" using assms by (auto simp: live_part_def)
  then show ?thesis by (simp add: store_closed_def linked_live)
qed

lemma store_step_closed:
  assumes "store_step c d" and "store_closed c"
  shows "store_closed d"
  using assms
proof (induction rule: store_step.induct)
  case (new m p n c ext)
  then have dom: "dom m = {q. linked ext m q}" by (simp add: store_closed_def)
  with new(1) linked.root [of ext p m] have "ext p = 0" by blast
  with new(1-3) dom show ?case by (auto simp: store_closed_def linked_new)
next
  case (hold p m ext)
  then have dom: "dom m = {q. linked ext m q}" by (simp add: store_closed_def)
  with hold(1) have "linked ext m p" by blast
  from linked_held [OF this] dom show ?case by (simp add: store_closed_def)
next
  case (drop ext p m)
  then have dom: "dom m = {q. linked ext m q}" by (simp add: store_closed_def)
  have "linked ext m q" if "linked (dropped p ext) m q" for q
    by (rule linked_roots [OF _ that]) (auto intro: linked.root split: if_splits)
  with dom show ?case by (intro live_part_closed) blast
next
  case (assign m p hw ws i v ext ext')
  then have dom: "dom m = {q. linked ext m q}" by (simp add: store_closed_def)
  with assign(1) have "linked ext m p" by blast
  note la = linked_assign(3) [OF assign(1) this assign(2-4)]
  with dom show ?case by (intro live_part_closed) auto
next
  case (data m p hw ws i ext w)
  have "cell_refs (hw, ws[i := w]) = cell_refs (hw, ws)" by (rule data_refs [OF data(2)])
  with data(1,3) show ?case by (auto simp: store_closed_def linked_data [of m p "(hw, ws)"])
next
  case (skip c)
  then show ?case .
qed

section \<open>The memory of the runtime as a store\<close>

definition cell_of :: "gc_object \<Rightarrow> cell" where
  "cell_of x = (header_word x, contents x)"

definition cells :: "heap \<Rightarrow> store" where
  "cells h p = map_option cell_of (h p)"

text \<open>What the program sees of the runtime.\<close>

definition view :: "(u64 \<Rightarrow> nat) \<times> Syli_state \<Rightarrow> (u64 \<Rightarrow> nat) \<times> store" where
  "view c = (fst c, live_part (fst c) (cells (gc_heap (snd c))))"

lemma cell_of_refs [simp]: "cell_refs (cell_of x) = own_refs x"
proof -
  have "map ((!) (contents x)) (ref_slots (header_word x)) = map ((!) (obj_value x)) (ref_slots (header_word x))"
    by (rule map_cong [OF refl contents_slot])
  then show ?thesis by (simp only: cell_refs_def cell_of_def own_refs_def fst_conv snd_conv)
qed

lemma cells_upd: "cells (h(p \<mapsto> x)) = (cells h)(p \<mapsto> cell_of x)"
  by (simp add: cells_def fun_eq_iff)

lemma linked_cells: "linked ext (cells h) p \<longleftrightarrow> reachable ext h p"
proof
  show "reachable ext h p" if "linked ext (cells h) p"
    using that
  proof induction
    case (link q c v)
    then obtain x where "h q = Some x" "c = cell_of x" by (auto simp: cells_def)
    with link show ?case by (simp add: reachable.step [of ext h q x v])
  qed (rule reachable.root)
  show "linked ext (cells h) p" if "reachable ext h p"
    using that
  proof induction
    case (step q x v)
    then have "cells h q = Some (cell_of x)" by (simp add: cells_def)
    with step show ?case by (intro linked.link [where q = q and c = "cell_of x"]) simp_all
  qed (rule linked.root)
qed

text \<open>At the start nothing is held, so nothing is seen.\<close>

lemma linked_nothing: "\<not> linked (\<lambda>_. 0) m p"
proof
  assume "linked (\<lambda>_. 0) m p"
  then show False by induction simp_all
qed

lemma view_start: "view (\<lambda>_. 0, s) = (\<lambda>_. 0, Map.empty)"
  by (simp add: view_def live_part_def linked_nothing restrict_map_def)

lemma store_closed_start: "store_closed (\<lambda>_. 0, Map.empty)"
  by (simp add: store_closed_def linked_nothing)

text \<open>Freeing what cannot be reached, and all the work on counts, marks and queues, is not seen.\<close>

lemma cells_shrunk:
  assumes "heap_shrinks h h'" and "heap_ok h'" and "counts_ok ext {} h'"
  shows "live_part ext (cells h') = live_part ext (cells h)"
proof (rule live_part_cong [where L = "{p. reachable ext h p}"])
  show "p \<in> {p. reachable ext h p}" if "0 < ext p" for p using that by (simp add: reachable.root)
  show "cells h' p = cells h p" if "p \<in> {p. reachable ext h p}" for p
  proof -
    have "reachable ext h p" using that by simp
    then obtain y where y: "h' p = Some y" using reachable_kept [OF _ assms(1,3,2)] by blast
    obtain x where "h p = Some x" "same_fields x y" using heap_shrinksD [OF assms(1) y] by blast
    with y show ?thesis by (simp add: cells_def cell_of_def same_fields_def)
  qed
  show "syli_ownership_untag v \<in> {p. reachable ext h p}"
    if q: "q \<in> {p. reachable ext h p}" "cells h' q = Some c" "v \<in> set (cell_refs c)" for q c v
  proof -
    have "linked ext (cells h') q" using q(1) kept_reachable [OF assms(1,3,2)] by (simp add: linked_cells)
    from linked.link [OF this q(2,3)] show ?thesis by (simp add: linked_cells kept_reachable [OF assms(1,3,2)])
  qed
qed

lemma view_shrunk:
  assumes "program_ok (ext', t)" and "heap_shrinks (gc_heap s) (gc_heap t)"
    and "\<And>p. 0 < ext' p \<Longrightarrow> reachable ext (gc_heap s) p"
  shows "view (ext', t) = (ext', live_part ext' (snd (view (ext, s))))"
proof -
  have H: "heap_inv ext' {} t" using assms(1) readyD(3) by (simp add: program_ok_def)
  have "live_part ext' (cells (gc_heap t)) = live_part ext' (cells (gc_heap s))"
    by (rule cells_shrunk [OF assms(2) heap_invD(1,2) [OF H]])
  moreover have "live_part ext' (live_part ext (cells (gc_heap s))) = live_part ext' (cells (gc_heap s))"
    by (rule live_part_live) (simp add: linked_cells assms(3))
  ultimately show ?thesis by (simp add: view_def)
qed

text \<open>A store of the program changes that one word, and its barrier nothing the program sees.\<close>

lemma stored_cell:
  assumes "i < obj_len x"
  shows "cell_of (stored i v x) = (header_word x, (contents x)[i := v])"
  using assms by (simp add: cell_of_def contents_def stored_def obj_len_def list_update_swap)

lemma notify_cells:
  assumes "syli_rt_ownership_notify_mutation cp v s = Inr s'"
  shows "cells (gc_heap s') = cells (gc_heap s)"
proof -
  have mark: "cells (gc_heap t) = cells (gc_heap s)" if tag: "gc_mark_tag_object c s = Inr t" for c t
  proof -
    obtain x m where t: "gc_heap s c = Some x" "t = s\<lparr>gc_heap := (gc_heap s)(c \<mapsto> x\<lparr>meta_ref_count := m\<rparr>)\<rparr>"
      using tag
      by (auto simp: gc_mark_tag_object_def check_def on_heap_def write_meta_def deref_def and_then_eq_Inr
          split: if_splits option.splits)
    have "cell_of (x\<lparr>meta_ref_count := m\<rparr>) = cell_of x" by (simp add: cell_of_def flip: set_meta_def)
    with t show ?thesis by (auto simp: cells_def fun_eq_iff)
  qed
  show ?thesis
    using assms mark
    by (auto simp: syli_rt_ownership_notify_mutation_def syli_rt_object_notify_mutation_def check_def Let_def and_then_eq_Inr
        split: if_splits)
qed

section \<open>Every step of a program is a step on the store\<close>

text \<open>The contract of a refinement map: an invariant of the concrete system, under which every step is a
  step of the abstract one. So runs are runs, and what is invariant in the abstract system holds.\<close>

locale refinement_map =
  fixes cstep :: "'c \<Rightarrow> 'c \<Rightarrow> bool" and astep :: "'a \<Rightarrow> 'a \<Rightarrow> bool" and ok :: "'c \<Rightarrow> bool" and abst :: "'c \<Rightarrow> 'a"
  assumes keeps: "cstep c d \<Longrightarrow> ok c \<Longrightarrow> ok d" and simulates: "cstep c d \<Longrightarrow> ok c \<Longrightarrow> astep (abst c) (abst d)"
begin

lemma runs_simulated:
  assumes "cstep\<^sup>*\<^sup>* c d" and "ok c"
  shows "ok d \<and> astep\<^sup>*\<^sup>* (abst c) (abst d)"
  using assms(1)
proof induction
  case base
  with assms(2) show ?case by simp
next
  case (step d e)
  with keeps [of d e] simulates [of d e] show ?case by (blast intro: rtranclp.rtrancl_into_rtrancl)
qed

lemma abstract_invariant:
  assumes "cstep\<^sup>*\<^sup>* c d" and "ok c" and "P (abst c)" and step: "\<And>a b. astep a b \<Longrightarrow> P a \<Longrightarrow> P b"
  shows "P (abst d)"
proof -
  have "astep\<^sup>*\<^sup>* (abst c) (abst d)" using runs_simulated [OF assms(1,2)] by blast
  then show ?thesis by induction (use assms(3) step in blast)+
qed

end

lemma program_run_steps: "program_run envs c d \<Longrightarrow> (program_step envs)\<^sup>*\<^sup>* c d"
  by (induction rule: program_run.induct) (auto intro: converse_rtranclp_into_rtranclp)

text \<open>The operations one by one.\<close>

lemma view_alloc:
  assumes "program_ok (ext, s)" and "alloc_ok p header refcount len s"
    and "syli_rt_ownership_alloc_object p junk header refcount len s = Inr (v, s')"
  shows "store_step (view (ext, s)) (view (ext(p := unat refcount), s'))"
proof -
  have b: "ready ext s" using assms(1) by (simp add: program_ok_def)
  obtain x where x: "gc_heap s' = (gc_heap s)(p \<mapsto> x)" "own_refs x = []" and e: "ext p = 0"
    and z: "\<exists>k. contents x = replicate k 0"
    using ready_alloc [OF b assms(2,3)] by blast
  from z have zero: "set (snd (cell_of x)) \<subseteq> {0}" by (auto simp: cell_of_def)
  have f: "gc_heap s p = None" "0 < unat refcount" using assms(2) by (simp_all add: alloc_ok_def word_less_nat_alt)
  have "live_part (ext(p := unat refcount)) (cells (gc_heap s')) = (live_part ext (cells (gc_heap s)))(p \<mapsto> cell_of x)"
    unfolding x(1) cells_upd by (rule live_part_new) (use f e x(2) in \<open>simp_all add: cells_def\<close>)
  moreover have "live_part ext (cells (gc_heap s)) p = None"
    using f(1) by (simp add: live_part_def restrict_map_def cells_def)
  ultimately show ?thesis using store_step.new [of _ p "unat refcount" "cell_of x"] f(2) x(2) zero by (simp add: view_def)
qed

lemma view_hold:
  assumes "program_ok (ext, s)" and "may_share ext s v" and "syli_rt_object_incr (syli_ownership_untag v) s = Inr s'"
  shows "store_step (view (ext, s)) (view (held (syli_ownership_untag v) ext, s'))"
proof -
  let ?p = "syli_ownership_untag v" and ?m = "snd (view (ext, s))"
  have r: "reachable ext (gc_heap s) ?p" using assms(2) by (simp add: may_share_def)
  from share_ok [OF assms(1,2)] assms(3) have t: "program_ok (held ?p ext, s')" "heap_shrinks (gc_heap s) (gc_heap s')"
    by auto
  have "reachable ext (gc_heap s) q" if "0 < held ?p ext q" for q
    using that r reachable.root [of ext q] by (auto simp: held_def split: if_splits)
  from view_shrunk [OF t this] have v: "view (held ?p ext, s') = (held ?p ext, live_part (held ?p ext) ?m)" .
  have l: "linked ext ?m ?p" using r by (simp add: view_def linked_live linked_cells)
  have "heap_inv ext {} s" using assms(1) readyD(3) by (simp add: program_ok_def)
  from reachable_live [OF this r] have "?p \<in> dom ?m"
    using r by (auto simp: view_def live_part_def linked_cells cells_def)
  moreover have "live_part (held ?p ext) ?m = ?m"
    using linked_held [OF l] linked_live [of ext "cells (gc_heap s)"]
    by (auto simp: view_def live_part_def restrict_map_def fun_eq_iff)
  ultimately show ?thesis using store_step.hold [of ?p ?m ext] v by (simp add: view_def)
qed

lemma view_drop:
  assumes "program_ok (ext, s)" and "may_release ext s v"
    and "syli_rt_ownership_release v s = Inr s' \<or> syli_rt_ownership_decr v s = Inr s'"
  shows "store_step (view (ext, s)) (view (dropped (syli_ownership_untag v) ext, s'))"
proof -
  let ?p = "syli_ownership_untag v"
  have e: "0 < ext ?p" using assms(2) by (simp add: may_release_def)
  from release_ok [OF assms(1,2)] assms(3)
  have t: "program_ok (dropped ?p ext, s')" "heap_shrinks (gc_heap s) (gc_heap s')" by auto
  have "reachable ext (gc_heap s) q" if "0 < dropped ?p ext q" for q
    using that by (auto intro: reachable.root split: if_splits)
  from view_shrunk [OF t this] store_step.drop [of ext ?p] e show ?thesis by (simp add: view_def)
qed

lemma view_same:
  assumes "program_ok (ext, t)" and "heap_shrinks (gc_heap s) (gc_heap t)"
  shows "view (ext, t) = view (ext, s)"
  using view_shrunk [OF assms reachable.root] live_part_live [of ext ext, OF linked.root] by (simp add: view_def)

lemma view_store:
  assumes "program_ok (ext, s)" and x: "gc_heap s p = Some x" "reachable ext (gc_heap s) p"
    and i: "i \<in> set (ref_slots (header_word x))" and mv: "moved v (obj_value x ! i) ext ext'"
    and h: "cells (gc_heap s') = cells ((gc_heap s)(p \<mapsto> stored i v x))"
  shows "store_step (view (ext, s)) (view (ext', s'))"
proof -
  let ?m = "cells (gc_heap s)" and ?c = "(header_word x, (contents x)[i := v])"
  have H: "heap_inv ext {} s" using assms(1) readyD(3) by (simp add: program_ok_def)
  have len: "i < length (contents x)" using heap_okD [OF heap_invD(1) [OF H] x(1)] i by (simp add: obj_ok_def)
  have m: "?m p = Some (header_word x, contents x)" using x(1) by (simp add: cells_def cell_of_def)
  have p: "linked ext ?m p" using x(2) by (simp add: linked_cells)
  have mv': "moved v (contents x ! i) ext ext'" using mv contents_slot [OF i] by simp
  note la = linked_assign [OF m p i len mv']
  have "cells (gc_heap s') = ?m(p \<mapsto> ?c)" by (simp add: h cells_upd stored_cell [OF ref_slot_less [OF i]])
  then have "view (ext', s') = (ext', live_part ext' ((live_part ext ?m)(p \<mapsto> ?c)))"
    using live_part_assign [OF la(1) p m la(2)] by (simp add: view_def)
  moreover have "live_part ext ?m p = Some (header_word x, contents x)" using p m by (simp add: live_part_def)
  ultimately show ?thesis using store_step.assign [OF _ i len mv'] by (simp add: view_def)
qed

lemma view_data:
  assumes x: "gc_heap s p = Some x" "reachable ext (gc_heap s) p"
    and i: "i \<notin> set (ref_slots (header_word x))" "i < obj_len x"
    and s': "gc_heap s' = (gc_heap s)(p \<mapsto> stored i w x)"
  shows "store_step (view (ext, s)) (view (ext, s'))"
proof -
  let ?m = "cells (gc_heap s)" and ?c = "(header_word x, (contents x)[i := w])"
  have m: "?m p = Some (header_word x, contents x)" using x(1) by (simp add: cells_def cell_of_def)
  have p: "linked ext ?m p" using x(2) by (simp add: linked_cells)
  have c: "cells (gc_heap s') = ?m(p \<mapsto> ?c)" using i(2) by (simp add: s' cells_upd stored_cell)
  have "linked ext (?m(p \<mapsto> ?c)) q \<longleftrightarrow> linked ext ?m q" for q
    by (rule linked_data [of ?m p, OF m]) (rule data_refs [OF i(1)])
  then have "live_part ext (cells (gc_heap s')) = (live_part ext ?m)(p \<mapsto> ?c)"
    using p unfolding c by (auto simp: live_part_def restrict_map_def fun_eq_iff)
  moreover have "live_part ext ?m p = Some (header_word x, contents x)" using p m by (simp add: live_part_def)
  ultimately show ?thesis using store_step.data [OF _ i(1)] by (simp add: view_def)
qed

lemma program_step_view:
  assumes "program_step envs c d" and "program_ok c"
  shows "store_step (view c) (view d)"
  using assms
proof (induction rule: program_step.induct)
  case (alloc p header refcount len s junk v s' ext)
  from view_alloc [OF alloc(4,1,3)] show ?case .
next
  case (share ext s v w s')
  from share(2) share_runs(1) [OF may_share_shareable [OF share(1)]]
  have "syli_rt_object_incr (syli_ownership_untag v) s = Inr s'" by (auto simp: and_then_eq_Inr)
  from view_hold [OF share(3,1) this] show ?case .
next
  case (own ext s v w s')
  show ?case
  proof (cases "syli_ownership_is_own_ref v")
    case True
    with own(2) share_runs(3) [OF may_share_shareable [OF own(1)]] have "s' = s" by simp
    with True show ?thesis using store_step.skip by simp
  next
    case False
    with own(2) share_runs(3) [OF may_share_shareable [OF own(1)]]
    have "syli_rt_object_incr (syli_ownership_untag v) s = Inr s'" by (auto simp: and_then_eq_Inr)
    from view_hold [OF own(3,1) this] False show ?thesis by simp
  qed
next
  case (incr ext s v s')
  with share_runs(2) [OF may_share_shareable [OF incr(1)]]
  have "syli_rt_object_incr (syli_ownership_untag v) s = Inr s'" by simp
  from view_hold [OF incr(4,1) this] show ?case .
next
  case (release ext s v s')
  from view_drop [OF release(3,1)] release(2) show ?case by blast
next
  case (decr ext s v s')
  from view_drop [OF decr(3,1)] decr(2) show ?case by blast
next
  case (store s p x ext i v ext' cp s1 s')
  have "cells (gc_heap s') = cells ((gc_heap s)(p \<mapsto> stored i v x))"
    using notify_cells [OF store(11)] store(1,10)
    by (auto simp: on_heap_def write_field_def deref_def stored_def and_then_eq_Inr split: if_splits)
  from view_store [OF store(12,1-3,6) this] show ?case .
next
  case (take s p x ext i v ext' s')
  have "cells (gc_heap s') = cells ((gc_heap s)(p \<mapsto> stored i v x))"
    using take(1,8) by (auto simp: on_heap_def write_field_def deref_def stored_def and_then_eq_Inr split: if_splits)
  from view_store [OF take(9,1-3,6) this] show ?case .
next
  case (data s p x ext i w s')
  then have "ready ext s" "plain_imm (gc_heap s)" by (simp_all add: program_ok_def)
  from ready_data [OF this(1) data(1-5) this(2)] have "gc_heap s' = (gc_heap s)(p \<mapsto> stored i w x)" by auto
  from view_data [OF data(1-4) this] show ?case .
next
  case (collect env ext s vs rank s1 s')
  from collect_ok [OF collect(11,2-9)] collect(10) have "program_ok (ext, s')" "heap_shrinks (gc_heap s) (gc_heap s')"
    by auto
  from view_same [OF this] store_step.skip show ?case by simp
qed

interpretation program: refinement_map "program_step envs" store_step program_ok view for envs
  by unfold_locales (auto intro: program_step_ok program_step_view)

end
