(* ===== verification/ForeignPrims.thy ===== *)
theory ForeignPrims
  imports Runtime Env
begin

text \<open>
  The primitives of \<open>runtime/src/syli_foreign_primitives.c\<close> that print, and \<open>runtime/src/main.c\<close>.
  What a function writes to the standard output is its result: the bytes for a string, the
  text for formatted output. The decimal text of a \<open>double\<close> (\<open>%f\<close>) is an argument.
\<close>

section \<open>Formatted numbers\<close>

definition digit :: "nat \<Rightarrow> char" where
  "digit m = char_of (48 + m)"

fun digits_of :: "nat \<Rightarrow> string" where
  "digits_of n = (if n < 10 then [digit n] else digits_of (n div 10) @ [digit (n mod 10)])"

declare digits_of.simps [simp del]

text \<open>\<open>%ld\<close> and \<open>%zu\<close>.\<close>

definition format_signed :: "u64 \<Rightarrow> string" where
  "format_signed w = (if sint w < 0 then ''-'' @ digits_of (nat (- sint w)) else digits_of (nat (sint w)))"

definition format_size :: "u64 \<Rightarrow> string" where
  "format_size w = digits_of (unat w)"

section \<open>The primitives\<close>

definition syli_print_i64 :: "u64 \<Rightarrow> string" where
  "syli_print_i64 value = format_signed value"

definition syli_print_f64 :: "('d \<Rightarrow> string) \<Rightarrow> 'd \<Rightarrow> string" where
  "syli_print_f64 format_f value = format_f value"

text \<open>Byte \<open>k\<close> of the payload.\<close>

definition payload_byte :: "u64 list \<Rightarrow> nat \<Rightarrow> u8 result" where
  "payload_byte ws k =
     (if k div 8 < length ws then Inr (ucast (drop_bit (8 * (k mod 8)) (ws ! (k div 8)))) else Inl OutOfBounds)"

definition syli_string_bytes_length :: "u64 \<Rightarrow> heap \<Rightarrow> u64 result" where
  "syli_string_bytes_length obj h =
     check (obj \<noteq> 0) (and_then (deref obj h) (\<lambda>x.
     check (syli_object_is_mono_imm (header_word x))
     (and_then (syli_object_mono_length (header_word x)) (\<lambda>len.
      let word_bytes = len * 8 in
      check (0 < word_bytes)
      (and_then (syli_object_data obj h) (\<lambda>data.
       case data of
         None \<Rightarrow> Inl NullPointer
       | Some ws \<Rightarrow>
           and_then (payload_byte ws (unat (word_bytes - 1))) (\<lambda>marker.
           check (unat marker < 8) (Inr (word_bytes - 1 - ucast marker)))))))))"

fun payload_bytes :: "u64 list \<Rightarrow> nat \<Rightarrow> u8 list result" where
  "payload_bytes ws 0 = Inr []"
| "payload_bytes ws (Suc n) =
     and_then (payload_bytes ws n) (\<lambda>bs. and_then (payload_byte ws n) (\<lambda>b. Inr (bs @ [b])))"

definition syli_print_string :: "obj_ptr \<Rightarrow> heap \<Rightarrow> u8 list result" where
  "syli_print_string ptr h =
     (let obj = syli_object_of_obj_ptr ptr in
      and_then (syli_object_data obj h) (\<lambda>data.
      and_then (syli_string_bytes_length obj h) (\<lambda>n.
      case data of
        None \<Rightarrow> if n = 0 then Inr [] else Inl NullPointer
      | Some ws \<Rightarrow> payload_bytes ws (unat n))))"

definition syli_print_char :: "u32 \<Rightarrow> u8" where
  "syli_print_char value = ucast value"

definition tracing_state_name :: "Tracing_state_machine \<Rightarrow> string" where
  "tracing_state_name state = (case state of
       Tracing_Idle \<Rightarrow> ''Idle''
     | Tracing \<Rightarrow> ''Tracing''
     | Mutation_Prepare \<Rightarrow> ''Mutation_Prepare''
     | Reclaiming_Cyclic_Candidates \<Rightarrow> ''Reclaiming'')"

definition releasing_state_name :: "Releasing_state_machine \<Rightarrow> string" where
  "releasing_state_name state = (case state of
       Releasing_Idle \<Rightarrow> ''Idle''
     | Releasing \<Rightarrow> ''Releasing'')"

definition syli_print_gc_state :: "Syli_state \<Rightarrow> string" where
  "syli_print_gc_state s =
     ''GC[tracing_state='' @ tracing_state_name (tracing_state s)
     @ '' releasing_state='' @ releasing_state_name (releasing_state s)
     @ '' generations='' @ format_size (tracing_generations s)
     @ '' candidates='' @ format_size (of_nat (length (cyclic_candidates s)))
     @ '' cyclic-mem='' @ format_size (gc_current_cyclic_mem s)
     @ '' cyclic-alloc='' @ format_size (cyclic_mem_alloc s)
     @ '' cyclic-dealloc='' @ format_size (cyclic_mem_dealloc s)
     @ '' obj-alloc='' @ format_size (cyclic_obj_alloc s)
     @ '' obj-dealloc='' @ format_size (cyclic_obj_dealloc s)
     @ '' traced='' @ format_size (total_objects_traced s)
     @ '' freed='' @ format_size (total_objects_freed s)
     @ '' release-waitlist='' @ format_size (of_nat (length (releasing_waitlist s)))
     @ '' tracing-worklist='' @ format_size (of_nat (length (tracing_worklist s)))
     @ '']'' @ [CHR 0x0A]"

text \<open>\<open>main\<close>: \<open>program\<close> is what the compiler generates as \<open>syli_startup_program\<close>.\<close>

definition main ::
    "u8 list option \<Rightarrow> (string \<Rightarrow> string option) \<Rightarrow> (string \<Rightarrow> rat \<times> nat)
     \<Rightarrow> (Syli_state \<Rightarrow> Syli_state result option) \<Rightarrow> Syli_state \<Rightarrow> Syli_state result option" where
  "main sec getenv strtod program s =
     (case syli_state_init sec getenv strtod s of
        Inl e \<Rightarrow> Some (Inl e)
      | Inr s \<Rightarrow> program s)"

section \<open>The text of a number\<close>

lemma digits_of_step:
  assumes "\<not> n < 10"
  shows "digits_of n = digits_of (n div 10) @ [digit (n mod 10)]"
  using digits_of.simps [of n] by (simp only: assms if_False)

lemma digits_of_small:
  assumes "n < 10"
  shows "digits_of n = [digit n]"
  using digits_of.simps [of n] by (simp only: assms if_True)

lemma digit_char:
  assumes "m < 10"
  shows "c_isdigit (digit m)" and "of_char (digit m) - (48 :: nat) = m"
proof -
  have "of_char (digit m) = 48 + m" unfolding digit_def of_char_of by (rule mod_less) (use assms in linarith)
  with assms show "c_isdigit (digit m)" "of_char (digit m) - (48 :: nat) = m"
    unfolding c_isdigit_def by linarith+
qed

lemma digits_of_digits: "list_all c_isdigit (digits_of n) \<and> digits_of n \<noteq> []"
proof (induction n rule: digits_of.induct)
  case (1 n)
  show ?case
  proof (cases "n < 10")
    case True
    then show ?thesis unfolding digits_of_small [OF True] by (simp add: digit_char)
  next
    case False
    with 1 show ?thesis unfolding digits_of_step [OF False] by (simp add: digit_char)
  qed
qed

lemma decimal_digits_of: "decimal_value (digits_of n) = n"
proof (induction n rule: digits_of.induct)
  case (1 n)
  have app: "decimal_value (ds @ [c]) = 10 * decimal_value ds + (of_char c - 48)" for ds c
    by (simp add: decimal_value_def)
  show ?case
  proof (cases "n < 10")
    case True
    then show ?thesis by (simp add: digits_of_small decimal_value_def digit_char)
  next
    case False
    with 1 show ?thesis unfolding digits_of_step [OF False] by (simp add: app digit_char)
  qed
qed

section \<open>The encoding of a string\<close>

text \<open>As the compiler lays it out: the bytes, zeros up to the last byte of a word, and that byte the
  number of zeros; eight bytes to a cell, little endian.\<close>

definition string_cells :: "u8 list \<Rightarrow> nat" where
  "string_cells bs = length bs div 8 + 1"

definition string_padded :: "u8 list \<Rightarrow> u8 list" where
  "string_padded bs = (let pad = 8 * string_cells bs - 1 - length bs in bs @ replicate pad 0 @ [of_nat pad])"

fun pack_cell :: "u8 list \<Rightarrow> u64" where
  "pack_cell [] = 0"
| "pack_cell (b # bs) = ucast b OR push_bit 8 (pack_cell bs)"

definition string_words :: "u8 list \<Rightarrow> u64 list" where
  "string_words bs = map (\<lambda>i. pack_cell (take 8 (drop (8 * i) (string_padded bs)))) [0..<string_cells bs]"

lemma bit_pack_cell:
  "bit (pack_cell bs) n \<longleftrightarrow> n < 64 \<and> n div 8 < length bs \<and> bit (bs ! (n div 8)) (n mod 8)"
proof (induction bs arbitrary: n)
  case (Cons b bs)
  show ?case
  proof (cases "n < 8")
    case True
    then show ?thesis by (simp add: bit_simps)
  next
    case False
    then obtain m where m: "n = 8 + m" by (metis le_Suc_ex not_le)
    have "\<not> bit b n" using False bit_imp_le_length [of b n] by auto
    then show ?thesis using Cons.IH [of m] by (auto simp: m bit_simps)
  qed
qed simp

lemma pack_cell_byte:
  assumes "j < length bs" and "length bs \<le> 8"
  shows "ucast (drop_bit (8 * j) (pack_cell bs)) = bs ! j"
proof (rule bit_word_eqI)
  fix k
  assume "k < LENGTH(8)"
  with assms show "bit (ucast (drop_bit (8 * j) (pack_cell bs)) :: u8) k = bit (bs ! j) k"
    by (auto simp: bit_simps bit_pack_cell)
qed

lemma string_padded_length: "length (string_padded bs) = 8 * string_cells bs"
  by (simp add: string_padded_def string_cells_def Let_def)

lemma take_drop_nth: "j < c \<Longrightarrow> m + j < length xs \<Longrightarrow> take c (drop m xs) ! j = xs ! (m + j)"
  by simp

lemma string_words_byte:
  assumes "k < 8 * string_cells bs"
  shows "payload_byte (string_words bs @ extra) k = Inr (string_padded bs ! k)"
proof -
  have c: "k div 8 < string_cells bs" using assms by auto
  let ?cs = "take 8 (drop (8 * (k div 8)) (string_padded bs))"
  have len: "length ?cs = 8" using c by (simp add: string_padded_length)
  have "ucast (drop_bit (8 * (k mod 8)) (pack_cell ?cs)) = ?cs ! (k mod 8)"
    by (rule pack_cell_byte) (simp_all only: len mod_less_divisor zero_less_numeral order.refl)
  also have "\<dots> = string_padded bs ! (8 * (k div 8) + k mod 8)"
    using assms by (intro take_drop_nth) (simp_all add: string_padded_length)
  also have "\<dots> = string_padded bs ! k" by simp
  finally show ?thesis using c
    by (simp add: payload_byte_def string_words_def nth_append)
qed

lemma payload_bytes_take:
  assumes "\<And>k. k < n \<Longrightarrow> payload_byte ws k = Inr (bs ! k)" and "n \<le> length bs"
  shows "payload_bytes ws n = Inr (take n bs)"
  using assms by (induction n) (simp_all add: take_Suc_conv_app_nth)

section \<open>Properties\<close>

lemma strtoull_digits:
  assumes "n < 2 ^ 64"
  shows "strtoull (digits_of n) = (of_nat n, length (digits_of n))"
  using strtoull_decimal [of "digits_of n" "[]", unfolded decimal_digits_of append_Nil2] digits_of_digits [of n] assms
  by blast

lemma strtoull_minus:
  assumes "n < 2 ^ 64"
  shows "strtoull (''-'' @ digits_of n) = (- of_nat n, length (''-'' @ digits_of n))"
proof -
  have ds: "digits_of n \<noteq> []" "takeWhile c_isdigit (digits_of n) = digits_of n"
    using digits_of_digits [of n] by (simp_all add: takeWhile_eq_all_conv list_all_iff)
  have "\<not> c_isspace (CHR ''-'')" by (simp add: c_isspace_def)
  with assms ds(1) show ?thesis by (simp add: strtoull_def Let_def decimal_digits_of ds(2))
qed

lemma digits_of_lead: "length (digits_of n) = 1 \<or> of_char (CHR ''0'') < (of_char (hd (digits_of n)) :: nat)"
proof -
  have lead: "of_char (CHR ''0'') < (of_char (digit k) :: nat)" if "0 < k" "k < 10" for k
    using digit_char(2) [OF that(2)] that(1) by simp
  have "of_char (CHR ''0'') < (of_char (hd (digits_of n)) :: nat)" if "0 < n"
    using that
  proof (induction n rule: digits_of.induct)
    case (1 n)
    show ?case
    proof (cases "n < 10")
      case True
      then show ?thesis unfolding digits_of_small [OF True] list.sel by (rule lead [OF 1(2)])
    next
      case False
      then have "of_char (CHR ''0'') < (of_char (hd (digits_of (n div 10))) :: nat)" using 1(1) by simp
      then show ?thesis unfolding digits_of_step [OF False] using digits_of_digits [of "n div 10"] by simp
    qed
  qed
  then show ?thesis using digits_of_small [of n] by (cases "n = 0") auto
qed

lemma strtoull_i64: "strtoull (format_signed w) = (w, length (format_signed w))"
proof (cases "sint w < 0")
  case False
  have n: "nat (sint w) < 2 ^ 64" using sint_lt [of w] by (simp add: nat_less_iff)
  have "(of_nat (nat (sint w)) :: u64) = of_int (int (nat (sint w)))" by (simp only: of_int_of_nat_eq)
  also have "\<dots> = of_int (sint w)" using False by simp
  also have "\<dots> = w" by simp
  finally have "of_nat (nat (sint w)) = w" .
  with False strtoull_digits [OF n] show ?thesis by (simp only: format_signed_def if_False)
next
  case True
  have n: "nat (- sint w) < 2 ^ 64" using sint_ge [of w] by (simp add: nat_less_iff)
  have "(of_nat (nat (- sint w)) :: u64) = of_int (int (nat (- sint w)))" by (simp only: of_int_of_nat_eq)
  also have "\<dots> = of_int (- sint w)" using True by simp
  also have "\<dots> = - w" by simp
  finally have "of_nat (nat (- sint w)) = - w" .
  with True strtoull_minus [OF n] show ?thesis
    by (simp only: format_signed_def if_True minus_minus)
qed

text \<open>C37: a 64-bit integer is printed as the signed number it stands for: a minus sign when it is negative
  and nothing otherwise, then the decimal digits of its magnitude, without leading zeros; and
  the text reads back: \<open>strtoull\<close> consumes all of it, sign included, and gives the same word.\<close>

theorem print_i64_reads_back:
  "\<exists>ds. syli_print_i64 w = (if sint w < 0 then ''-'' else []) @ ds \<and> ds \<noteq> [] \<and> list_all c_isdigit ds
     \<and> int (decimal_value ds) = \<bar>sint w\<bar> \<and> (length ds = 1 \<or> of_char (CHR ''0'') < (of_char (hd ds) :: nat))
     \<and> strtoull (syli_print_i64 w) = (w, length (syli_print_i64 w))"
proof -
  let ?ds = "digits_of (nat \<bar>sint w\<bar>)"
  have "syli_print_i64 w = (if sint w < 0 then ''-'' else []) @ ?ds"
    by (simp add: syli_print_i64_def format_signed_def)
  moreover have "int (decimal_value ?ds) = \<bar>sint w\<bar>" by (simp add: decimal_digits_of)
  ultimately show ?thesis
    using digits_of_digits [of "nat \<bar>sint w\<bar>"] digits_of_lead [of "nat \<bar>sint w\<bar>"] strtoull_i64 [of w]
    by (intro exI [of _ ?ds]) (simp add: syli_print_i64_def)
qed

lemma string_length:
  shows "length bs < 8 * string_cells bs" and "8 * string_cells bs - 1 - length bs < 8"
  unfolding string_cells_def by presburger+

text \<open>C38: printing a string object that the compiler has laid out, static or on the heap, writes exactly
  its bytes, whatever follows the cells in memory; no byte is read outside them.\<close>

theorem print_string_bytes:
  assumes "syli_ownership_untag ptr = p" and "p \<noteq> 0" and "h p = Some x"
    and "syli_object_get_zone (header_word x) \<in> {Zone_Static, Zone_GcLocal, Zone_GcShared}"
    and "syli_object_is_mono_imm (header_word x)"
    and "syli_object_mono_length (header_word x) = Inr (of_nat (string_cells bs))"
    and "8 * string_cells bs < 2 ^ 64" and "obj_value x = string_words bs @ extra"
  shows "syli_print_string ptr h = Inr bs"
proof -
  let ?k = "string_cells bs" and ?pad = "8 * string_cells bs - 1 - length bs"
  let ?ws = "string_words bs @ extra"
  note len = string_length [of bs]
  have data: "syli_object_data p h = Inr (Some ?ws)"
    using assms by (auto simp: syli_object_data_def deref_def)
  have wb: "(of_nat ?k :: u64) * 8 = of_nat (8 * ?k)" by simp
  have u: "unat (of_nat m :: u64) = m" if "m < 2 ^ 64" for m
    using that by (simp add: unsigned_of_nat take_bit_nat_eq_self)
  have pos: "0 < (of_nat (8 * ?k) :: u64)" using u [of "8 * ?k"] assms(7)
    by (simp only: word_gt_0_no word_less_nat_alt unsigned_0) (simp add: string_cells_def)
  have "(of_nat (8 * ?k) :: u64) - 1 = of_nat (8 * ?k - 1)" using len(1) by (simp add: of_nat_diff)
  then have last: "unat ((of_nat (8 * ?k) :: u64) - 1) = 8 * ?k - 1" using u [of "8 * ?k - 1"] assms(7) by simp
  have "string_padded bs ! (8 * ?k - 1) = of_nat ?pad"
  proof -
    have "8 * ?k - 1 = length bs + ?pad" using len(1) by linarith
    moreover have "(bs @ replicate n 0 @ [y]) ! (length bs + n) = y" for n and y :: u8 by (simp add: nth_append)
    ultimately show ?thesis unfolding string_padded_def Let_def by metis
  qed
  then have marker: "payload_byte ?ws (unat ((of_nat (8 * ?k) :: u64) - 1)) = Inr (of_nat ?pad)"
    unfolding last using string_words_byte [of "8 * ?k - 1" bs extra] len(1) by simp
  have m: "unat (of_nat ?pad :: u8) = ?pad" using len(2) by (simp add: unsigned_of_nat take_bit_nat_eq_self)
  have "(of_nat (8 * ?k) :: u64) - 1 - of_nat ?pad = of_nat (length bs)"
    using len by (simp add: of_nat_diff)
  moreover have "(ucast (of_nat ?pad :: u8) :: u64) = of_nat (unat (of_nat ?pad :: u8))"
    by (rule of_nat_unat [symmetric])
  then have "(ucast (of_nat ?pad :: u8) :: u64) = of_nat ?pad" by (simp only: m)
  ultimately have n: "syli_string_bytes_length p h = Inr (of_nat (length bs))"
    using assms data marker m len(2) pos unfolding syli_string_bytes_length_def
    by (simp add: deref_def wb Let_def check_def)
  have "payload_bytes ?ws (length bs) = Inr (take (length bs) (string_padded bs))"
    by (rule payload_bytes_take) (use string_words_byte len string_padded_length in auto)
  moreover have "take (length bs) (string_padded bs) = bs" by (simp add: string_padded_def Let_def)
  ultimately show ?thesis
    using data n assms(1) u [of "length bs"] len(1) assms(7)
    by (simp add: syli_print_string_def syli_object_of_obj_ptr_def)
qed

theorem print_string_bytes_witness:
  "syli_print_string 9 [8 \<mapsto> leaf_object\<lparr>obj_value := string_words [104, 105]\<rparr>] = Inr [104, 105]"
proof -
  let ?x = "leaf_object\<lparr>obj_value := string_words [104, 105]\<rparr>"
  have "syli_object_get_zone (header_word ?x) \<in> {Zone_Static, Zone_GcLocal, Zone_GcShared}"
    "syli_object_is_mono_imm (header_word ?x)"
    "syli_object_mono_length (header_word ?x) = Inr (of_nat (string_cells [104, 105]))"
    by (simp_all add: leaf_object_def string_cells_def header_accessor_defs header_mask_defs
        type_of_bits_def zone_of_bits_def type_predicates check_def)
  from print_string_bytes [OF sample_untag(2) _ _ this, where extra = "[]"] show ?thesis
    by (simp add: string_cells_def)
qed

end
