(* ===== verification/Spec2Isabelle.thy ===== *)
theory Spec2Isabelle
  imports Worklists Interleavings StoreSpec ForeignPrims
begin

text \<open>
  The runtime of the language Syli, the C code under \<open>runtime/include/syli\<close> and
  \<open>runtime/src\<close>: a memory manager that counts references, releases dead objects in batches,
  and finds cyclic garbage with an incremental tracing collector.

  How the parts work together. Compiled code allocates objects
  (\<open>syli_rt_ownership_alloc_object\<close>), counts its references (\<open>share\<close>, \<open>own\<close>, \<open>incr\<close>,
  \<open>decr\<close>, \<open>release\<close>), stores references into fields itself and then calls the write barrier
  (\<open>notify_mutation\<close>). A count that drops to zero puts the object on the releasing waitlist;
  mutable cyclic objects are registered as candidates when they are allocated. A call of
  \<open>syli_rt_gc_cycle\<close> renews the budgets, runs the releasing collector, which tears queued
  objects down, and then the tracer: it collects the roots of the stack through the LLVM
  stack map, marks, handles the mutations that were notified, and releases the candidates
  that are left unmarked (lost cycles). Both collectors stop when their budget is used up
  and resume in the next call.

  Theories and code.
  \<^item> \<open>Prelude\<close>: machine integers, errors of a C execution, sequencing of fallible steps, the
    counted loop \<open>for_range\<close> and the unbounded loop \<open>run_loop\<close> with their proof rules.
  \<^item> \<open>HeaderObject\<close>: \<open>header_object.h\<close>. The header word is a 64-bit word; every mask,
    constructor and accessor is a definition of the same name.
  \<^item> \<open>Object\<close>: \<open>object.h\<close>. Pointer tags, the meta word (count, flags, mark), allocation,
    candidate index. Memory is a partial map from addresses to \<open>gc_object\<close>; an access to an
    address that is not in the map is the error \<open>InvalidAccess\<close>.
  \<^item> \<open>ChunkVector\<close>: \<open>chunk_vector.h\<close>, refined to lists by the contract \<open>vector_impl\<close>. The state
    below uses lists for the vectors; \<open>Worklists\<close> proves that the helpers which push, pop and
    remove do on chunk vectors what they do on those lists.
  \<^item> \<open>Env\<close>: \<open>env.c\<close>.
  \<^item> \<open>StackMap\<close> and \<open>GcRoots\<close>: \<open>gc_roots.h\<close> and \<open>syli_state_gc_roots.c\<close>.
  \<^item> \<open>GcState\<close>: \<open>syli_state.h\<close>, \<open>syli_state.c\<close>; the structure is the record \<open>Syli_state\<close>, with
    the memory as one more field.
  \<^item> \<open>GcHelpers\<close>: \<open>gc_helpers.h\<close>, with the registry of candidates.
  \<^item> \<open>GcReleasing\<close>: \<open>syli_state_gc_releasing.c\<close>.
  \<^item> \<open>GcTracing\<close>: \<open>syli_state_gc_tracing.c\<close>, with its
    proofs in \<open>GcMarking\<close> (roots, marking, mutations) and \<open>GcReclaim\<close> (lost cycles).
  \<^item> \<open>Collection\<close>: a whole collection, in one call of the tracer or in several.
  \<^item> \<open>GcCycle\<close>: a whole call of \<open>syli_state_gc_cycle\<close> and calls in a row (\<open>gc_calls\<close>); the states
    between two calls, \<open>between\<close> (the tracer is idle), \<open>paused\<close> (its budget has stopped it) and
    \<open>ready\<close> (one of the two).
  \<^item> \<open>Runtime\<close>: \<open>syli.c\<close>.
  \<^item> \<open>Mutator\<close>: stores during marking, runs of a program.
  \<^item> \<open>StoreSpec\<close>: the abstract specification of the runtime, a store without a collector, and the
    refinement map to it (the contract \<open>refinement_map\<close>, interpreted for the program's steps).
  \<^item> \<open>Interleavings\<close>: interleavings of program and collectors that the code does not handle.
  \<^item> \<open>ForeignPrims\<close>: \<open>syli_foreign_primitives.c\<close> and \<open>main.c\<close>.
  \<^item> \<open>ObjectGraph\<close> and \<open>CollectorInv\<close> hold the specification side: the reference graph, exact
    counts, reachability, the invariant of memory, and the contract \<open>field_visitor\<close> of the
    scan loops, a locale that is interpreted for the marking scan, the releasing scan and the
    scan of lost cycles.

  What the lemma groups show.
  \<^item> Words: accessors invert constructors; counts and flags of a meta word are independent
    (the locale \<open>meta_bit\<close>, interpreted for each flag and the mark); tags are exclusive; \<open>decr_n\<close>
    is \<open>decr\<close> iterated.
  \<^item> Containers: the vector operations and the worklist helpers built on them refine list
    operations, also across growth (\<open>worklists_refined\<close>); what is left when \<open>malloc\<close> or \<open>realloc\<close>
    fails; the registry keeps position, stored index and flag in step.
  \<^item> Stack maps: the record table decodes the encoded section; on a sorted table the binary
    search is the linear search.
  \<^item> \<open>rel_inv\<close>, \<open>marking_inv\<close>, \<open>reclaim_inv\<close>: the invariants of memory inside each phase. Each
    step of each phase succeeds and keeps its invariant, so no assertion fails and no freed
    block is touched; a measure of each phase decreases, so each call returns. Safety:
    everything reachable stays, with exact counts; \<open>reclaim_inv\<close> says that no unmarked candidate
    references itself, without which reclaiming fails. Completeness: with budget left, everything
    unreachable is gone, when each cycle of garbage runs through a registered candidate
    (\<open>cycles_registered\<close>, which also excludes candidates that reference themselves).
  \<^item> The write barrier: \<open>marking_survives_store\<close> starts from a state in which the stored reference may
    be to a white object; the barrier restores the invariant of marking.
  \<^item> \<open>ready\<close>, kept by a call of the collector (\<open>gc_cycle_reclaims\<close>) and by every operation of
    \<open>syli.c\<close> (the properties of \<open>Runtime\<close>) under the conditions of \<open>program_step\<close>; a collection
    that its budget has paused ends after finitely many calls when nothing is queued for release
    (\<open>collection_completes\<close>).
  \<^item> \<open>program_step\<close>, \<open>program_run\<close>: what the program does between two calls (allocate, share, own,
    incr, release, decr, store, take a reference out of a field, write data, collect) keeps
    \<open>ready\<close>; hence
    the properties below, of every run from \<open>main\<close> made of such steps: exact counts (\<open>program_from_start\<close>),
    references only to allocated blocks (\<open>program_no_dangling\<close>), and a memory that looks like a
    store nobody collects (\<open>runtime_refines_store\<close>).
  \<^item> \<open>heap_shrinks\<close>: what every step of the collectors does to memory; the objects that are left
    have their \<open>contents\<close>, that is every cell but the registry index behind the payload.
  \<^item> Counterexamples, computed in the model: a candidate that references itself is freed twice
    (\<open>gc_reclaiming_self_loop\<close>); a block without references is freed while the tracing
    worklist holds it or a mutation notes it (\<open>release_of_queued_block\<close>); the collectors free
    any object that is only noted, or noted and grey (\<open>noted_object_freed\<close>); a reference taken out
    of an object before it is scanned is lost (\<open>taken_reference_lost\<close>); an object left in the
    releasing queue by the budget is freed by the tracer as well (\<open>backlog_candidate_freed\<close>);
    the barrier is skipped for a borrowed container (\<open>barrier_ignores_borrow\<close>); the search of
    the stack map needs a sorted table that nothing sorts (\<open>lookup_misses_unsorted\<close>).

  Loops and bounds. The C loops \<open>while (1)\<close> are \<open>run_loop\<close>, a \<open>partial_function (option)\<close>:
  \<open>None\<close> is a loop that does not return, and the theorems about calls conclude \<open>Some (Inr s')\<close>.
  No fuel is used. How many calls complete a paused collection is not bounded in advance: each
  call with a positive tracing budget lowers \<open>collection_measure\<close> in a well-founded order. Counts
  are bounded by 56 bits: sharing assumes that there is room for one more. Allocation assumes
  8-byte cells, which is what the compiler emits for objects with references.

  Hypotheses about the rest of the system, named in the statements: the stack map locates every
  reference the program holds (\<open>stack_values\<close>; references in globals or registers that the
  map does not describe are not roots for this code); objects are laid out as the compiler
  does it (\<open>obj_ok\<close>, \<open>plain_imm\<close>, \<open>cycles_registered\<close>); \<open>malloc\<close> returns fresh aligned blocks
  (\<open>alloc_ok\<close>); the threshold of the releasing bucket is its default, zero, where completeness
  is claimed.

  Not modelled. The compiler, which is another program in another language. The atomic
  operations on shared objects are sequential (the runtime is single-threaded). The Apple
  variant of the section bounds and libunwind itself: frames, registers and stack words are
  arguments. Floating-point formatting and conversion: \<open>double\<close> thresholds are rationals.
  Steps of the program outside the discipline of \<open>program_step\<close>: sharing, taking or overwriting a
  reference to an object that a paused tracer has not seen (\<open>tracer_sees\<close>), letting go of a block that it has
  on a worklist (\<open>releasable\<close>, \<open>noted_reachable\<close>), a cycle without a registered candidate or a candidate that
  references itself (\<open>cycles_registered\<close>), a positive threshold of the releasing bucket, and a call in which the
  tracer works although the releasing budget is used up; \<open>Interleavings\<close> and \<open>gc_reclaiming_self_loop\<close> show where the code fails there.
\<close>

section \<open>From the start of a program\<close>

lemma init_state:
  assumes "syli_state_init sec getenv strtod s0 = Inr s" and "gc_heap s0 = Map.empty"
  shows "program_ok (\<lambda>_. 0, s)"
    and "THRESHOLD_RELEASING_BUCKET s = syli_gc_release_threshold (syli_load_env getenv strtod)"
    and "0 < sint (ucast (BUDGET_GC_TRACING s) :: u32)"
proof -
  have s: "s = (zero_state Map.empty)
       \<lparr>THRESHOLD_MEM_CYCLIC_OBJ := syli_gc_mem_cyclic_obj_threshold (syli_load_env getenv strtod),
        THRESHOLD_CANDIDATES_RATIO := syli_gc_candidates_ratio_threshold (syli_load_env getenv strtod),
        THRESHOLD_RELEASING_BUCKET := syli_gc_release_threshold (syli_load_env getenv strtod),
        BUDGET_GC_TRACING := 2 * BUDGET_BATCH_SIZE,
        BUDGET_GC_RELEASING := 5 * BUDGET_BATCH_SIZE,
        BUDGET_GC_CHECKING := 3 * BUDGET_BATCH_SIZE\<rparr>"
    using assms by (auto simp: syli_state_init_def and_then_eq_Inr Let_def)
  have "holders {} Map.empty = {}" by (simp add: holders_def)
  then have "rel_inv (\<lambda>_. 0) {} s"
    by (simp add: s rel_inv_def heap_inv_def zero_state_def heap_ok_def counts_ok_def incoming_def rc_at_def
        registry_inv_def traced_def rel_queue_def dead_def)
  then have "between (\<lambda>_. 0) s"
    by (simp add: between_def) (simp add: s zero_state_def releasing_sm_ok_def torn_def)
  then show "program_ok (\<lambda>_. 0, s)" by (simp add: program_ok_def ready_def plain_imm_def s zero_state_def)
  show "THRESHOLD_RELEASING_BUCKET s = syli_gc_release_threshold (syli_load_env getenv strtod)"
    "0 < sint (ucast (BUDGET_GC_TRACING s) :: u32)"
    by (simp_all add: s BUDGET_BATCH_SIZE_def)
qed

lemma main_ok:
  assumes "main sec getenv strtod (\<lambda>s. Some (Inr s)) s0 = Some (Inr s)" and "gc_heap s0 = Map.empty"
  shows "program_ok (\<lambda>_. 0, s)"
proof -
  have "syli_state_init sec getenv strtod s0 = Inr s"
    using assms(1) by (auto simp: main_def split: sum.splits)
  then show ?thesis using assms(2) by (rule init_state(1))
qed

text \<open>C1: a program started by \<open>main\<close> on an empty heap that keeps the discipline of
  \<open>program_step\<close>: after any run of such steps, also with a collection paused between two of them,
  everything it can reach is allocated with a count of exactly its references, and nothing of it waits to be
  released. The discipline: it allocates, in fresh blocks, objects with headers
  of local objects of 8-byte cells; it shares and owns only what it can reach, that the tracer has seen when a collection is paused
  and whose count has room; it gives up only references it holds, and no last one to a block without references
  that the tracer has queued or noted; it stores own references through fields with the barrier after
  the store and takes or clears fields, the overwritten reference being to an object the tracer has seen; it calls
  the collector with threshold zero, a positive tracing budget, everything noted still reachable, its references
  located by the stack map, and every cycle through a registered candidate, none of which
  references itself, and only if releasing leaves budget or the tracer has nothing to do. Outside of it the code can
  fail: \<open>taken_reference_lost\<close>, \<open>release_of_queued_block\<close>, \<open>noted_object_freed\<close>,
  \<open>backlog_candidate_freed\<close>, \<open>gc_reclaiming_self_loop\<close>.\<close>

theorem program_from_start:
  assumes "gc_heap s0 = Map.empty"
    and "main sec getenv strtod (\<lambda>s. Some (Inr s)) s0 = Some (Inr s)"
    and "program_run envs (\<lambda>_. 0, s) (ext, s')"
  shows "ready ext s' \<and> (\<forall>p. reachable ext (gc_heap s') p \<longrightarrow>
     (\<exists>x. gc_heap s' p = Some x \<and> 0 < obj_rc x \<and> obj_rc x = ext p + incoming {} (gc_heap s') p
        \<and> p \<notin> syli_ownership_untag ` set (rel_queue s')))"
proof -
  from program_run_ok [OF assms(3) main_ok [OF assms(2,1)]]
  have "ready ext s'" by (simp add: program_ok_def)
  with ready_live show ?thesis by blast
qed

text \<open>C2: what a program started by \<open>main\<close> sees of its memory, as long as it keeps the discipline of
  \<open>program_step\<close> (as in \<open>program_from_start\<close>), is a store without counts, marks, queues or a collector:
  every such run is a run of that store, with the same references held, the same headers
  and the same words in all cells that can be reached, and there are no dangling references in
  it. Allocation adds a cell, stores change one word, and nothing else changes what is reachable:
  no call of the collector, no count, no barrier.\<close>

theorem runtime_refines_store:
  assumes "gc_heap s0 = Map.empty"
    and "main sec getenv strtod (\<lambda>s. Some (Inr s)) s0 = Some (Inr s)"
    and "program_run envs (\<lambda>_. 0, s) (ext, s')"
  shows "store_step\<^sup>*\<^sup>* (\<lambda>_. 0, Map.empty) (view (ext, s')) \<and> store_closed (view (ext, s'))"
proof -
  note run = program_run_steps [OF assms(3)] main_ok [OF assms(2,1)]
  from view_start program.runs_simulated [OF run] program.abstract_invariant [OF run, of store_closed]
  show ?thesis using store_step_closed by (simp add: store_closed_start)
qed

lemma start_sample:
  obtains s where "syli_state_init None Map.empty (\<lambda>_. (0, 0)) (zero_state Map.empty) = Inr s" and "gc_heap s = Map.empty"
    and "cyclic_candidates s = []"
  by (auto simp: syli_state_init_def syli_rt_stackmap_check_version_def syli_rt_stackmap_supported_def
      no_section_def Let_def zero_state_def)

text \<open>A run: \<open>main\<close> starts the program, which allocates a cell.\<close>

lemma sample_run:
  obtains s s' x where "main None Map.empty (\<lambda>_. (0, 0)) (\<lambda>s. Some (Inr s)) (zero_state Map.empty) = Some (Inr s)"
    and "program_run {roots_env_null} (\<lambda>_. 0, s) ((\<lambda>_. 0)(24 := 1), s')" and "gc_heap s' 24 = Some x"
proof -
  obtain s where s: "syli_state_init None Map.empty (\<lambda>_. (0, 0)) (zero_state Map.empty) = Inr s" "gc_heap s = Map.empty"
    "cyclic_candidates s = []"
    by (rule start_sample)
  have ok: "alloc_ok 24 cons_header 1 2 s"
    using cons_header_fields by (simp add: alloc_ok_def s untagged_def tag_defs)
  have rd: "ready (\<lambda>_. 0) s" using init_state(1) [OF s(1)] by (simp add: program_ok_def zero_state_def)
  obtain s' where a: "syli_rt_ownership_alloc_object 24 (\<lambda>_. 0) cons_header 1 2 s = Inr (syli_ownership_set_own 24, s')"
    using alloc_runs [OF readyD(3) [OF rd] ok] by blast
  have "\<not> syli_object_is_mono_imm cons_header" using cons_header_fields(7) by (simp add: type_predicates)
  with program_step.alloc [OF ok _ a, of "{roots_env_null}" "\<lambda>_. 0"]
  have "program_step {roots_env_null} (\<lambda>_. 0, s) ((\<lambda>_. 0)(24 := 1), s')" by simp
  then have run: "program_run {roots_env_null} (\<lambda>_. 0, s) ((\<lambda>_. 0)(24 := 1), s')"
    by (blast intro: program_run.intros)
  have m: "main None Map.empty (\<lambda>_. (0, 0)) (\<lambda>s. Some (Inr s)) (zero_state Map.empty) = Some (Inr s)"
    by (simp add: main_def s(1))
  obtain x where "gc_heap s' = (gc_heap s)(24 \<mapsto> x)" using ready_alloc [OF rd ok a] by blast
  with m run that show thesis by simp
qed

theorem program_from_start_witness:
  "\<exists>s s' x. main None Map.empty (\<lambda>_. (0, 0)) (\<lambda>s. Some (Inr s)) (zero_state Map.empty) = Some (Inr s)
     \<and> program_run {roots_env_null} (\<lambda>_. 0, s) ((\<lambda>_. 0)(24 := 1), s') \<and> gc_heap s' 24 = Some x \<and> 0 < obj_rc x"
proof -
  obtain s s' x where m: "main None Map.empty (\<lambda>_. (0, 0)) (\<lambda>s. Some (Inr s)) (zero_state Map.empty) = Some (Inr s)"
    and run: "program_run {roots_env_null} (\<lambda>_. 0, s) ((\<lambda>_. 0)(24 := 1), s')"
    by (rule sample_run)
  have "reachable ((\<lambda>_. 0)(24 := 1)) (gc_heap s') 24" by (rule reachable.root) simp
  with program_from_start [OF _ m run] obtain x where x: "gc_heap s' 24 = Some x" "0 < obj_rc x"
    by (fastforce simp: zero_state_def)
  with m run show ?thesis by blast
qed

theorem runtime_refines_store_witness:
  "\<exists>s s'. main None Map.empty (\<lambda>_. (0, 0)) (\<lambda>s. Some (Inr s)) (zero_state Map.empty) = Some (Inr s)
     \<and> program_run {roots_env_null} (\<lambda>_. 0, s) ((\<lambda>_. 0)(24 := 1), s')
     \<and> store_step\<^sup>*\<^sup>* (\<lambda>_. 0, Map.empty) (view ((\<lambda>_. 0)(24 := 1), s')) \<and> 24 \<in> dom (snd (view ((\<lambda>_. 0)(24 := 1), s')))"
proof -
  obtain s s' x where m: "main None Map.empty (\<lambda>_. (0, 0)) (\<lambda>s. Some (Inr s)) (zero_state Map.empty) = Some (Inr s)"
    and run: "program_run {roots_env_null} (\<lambda>_. 0, s) ((\<lambda>_. 0)(24 := 1), s')"
    by (rule sample_run)
  have r: "store_step\<^sup>*\<^sup>* (\<lambda>_. 0, Map.empty) (view ((\<lambda>_. 0)(24 := 1), s')) \<and> store_closed (view ((\<lambda>_. 0)(24 := 1), s'))"
    by (rule runtime_refines_store [OF _ m run]) (simp add: zero_state_def)
  have "linked ((\<lambda>_. 0)(24 := 1)) (snd (view ((\<lambda>_. 0)(24 := 1), s'))) 24" by (rule linked.root) simp
  moreover have "fst (view ((\<lambda>_. 0)(24 := 1), s')) = (\<lambda>_. 0)(24 := 1)" by (simp add: view_def)
  ultimately have "24 \<in> dom (snd (view ((\<lambda>_. 0)(24 := 1), s')))" using r unfolding store_closed_def by simp
  with m run r show ?thesis by blast
qed

text \<open>C40: no dangling references: after a run from \<open>main\<close> of a program that keeps the discipline of
  \<open>program_step\<close> (as in \<open>program_from_start\<close>), also with a collection paused, every block
  is laid out as its header says, and every own reference in an object that is not already torn
  down, and every entry of the queues, the worklists and the registry of candidates, refers to
  an allocated block.\<close>

theorem program_no_dangling:
  assumes "gc_heap s0 = Map.empty"
    and "main sec getenv strtod (\<lambda>s. Some (Inr s)) s0 = Some (Inr s)"
    and "program_run envs (\<lambda>_. 0, s) (ext, s')"
  shows "well_typed s'"
proof -
  from program_run_ok [OF assms(3) main_ok [OF assms(2,1)]]
  have "ready ext s'" by (simp add: program_ok_def)
  then show ?thesis by (rule ready_typed)
qed

theorem program_no_dangling_witness:
  "\<exists>s s' x. main None Map.empty (\<lambda>_. (0, 0)) (\<lambda>s. Some (Inr s)) (zero_state Map.empty) = Some (Inr s)
     \<and> program_run {roots_env_null} (\<lambda>_. 0, s) ((\<lambda>_. 0)(24 := 1), s') \<and> gc_heap s' 24 = Some x \<and> obj_ok x"
proof -
  obtain s s' x where m: "main None Map.empty (\<lambda>_. (0, 0)) (\<lambda>s. Some (Inr s)) (zero_state Map.empty) = Some (Inr s)"
    and run: "program_run {roots_env_null} (\<lambda>_. 0, s) ((\<lambda>_. 0)(24 := 1), s')" and x: "gc_heap s' 24 = Some x"
    by (rule sample_run)
  from program_no_dangling [OF _ m run] x have "obj_ok x" by (auto simp: well_typed_def zero_state_def)
  with m run x show ?thesis by blast
qed

text \<open>C4: no garbage survives a collection: between two collections, when the program has given up every
  reference, with threshold zero, a positive tracing budget and every cycle through a registered candidate, none of which
  references itself, and when the releasing of the next call leaves budget and a collection is then due, calling the
  collector often enough returns every time and leaves nothing allocated.\<close>

theorem no_garbage_left:
  assumes "program_ok (\<lambda>_. 0, s)" and "tracing_state s = Tracing_Idle" and "THRESHOLD_RELEASING_BUCKET s = 0"
    and "0 < sint (ucast (BUDGET_GC_TRACING s) :: u32)"
    and "stack_values env s vs" and "\<forall>v \<in> set vs. \<not> is_own_field v"
    and "cycles_registered rank (gc_heap s)"
    and "syli_state_gc_releasing (cycle_budgets s) = Some (Inr s1)" and "0 < sint (releasing_budget s1)"
    and "tracing_triggered s1"
  shows "\<exists>n s'. gc_calls n env s = Some (Inr s') \<and> gc_heap s' = Map.empty"
proof -
  have rd: "ready (\<lambda>_. 0) s" using assms(1) by (simp add: program_ok_def)
  then have b: "between (\<lambda>_. 0) s" using assms(2) by (simp add: ready_between)
  have n: "noted_reachable (\<lambda>_. 0) s" using betweenD(5) [OF b] by (simp add: noted_reachable_def)
  have r: "{p. 0 < (\<lambda>_. 0 :: nat) p} = syli_ownership_untag ` {v \<in> set vs. is_own_field v}" using assms(6) by auto
  have none: "\<not> reachable (\<lambda>_. 0) h p" for h p
  proof
    assume "reachable (\<lambda>_. 0) h p"
    then show False by induction simp_all
  qed
  obtain t where t: "syli_state_gc_cycle env s = Some (Inr t)" "cycles_registered rank (gc_heap t)"
    "BUDGET_GC_TRACING t = BUDGET_GC_TRACING s" "stack_values env t vs" "rel_queue t = []"
    and fin: "between (\<lambda>_. 0) s \<longrightarrow> \<not> tracing_triggered s1 \<and> t = s1 \<or> stopped (\<lambda>_. 0) t \<and> exact (\<lambda>_. 0) t
       \<or> quiet (\<lambda>_. 0) t \<and> dom (gc_heap t) = {p. reachable (\<lambda>_. 0) (gc_heap s) p}"
    by (rule cycle_call [OF rd n assms(3-5) r assms(7-9)]) blast
  from fin b assms(10) consider "stopped (\<lambda>_. 0) t" "exact (\<lambda>_. 0) t"
    | "dom (gc_heap t) = {p. reachable (\<lambda>_. 0) (gc_heap s) p}" by blast
  then show ?thesis
  proof cases
    case 1
    have bt: "0 < sint (ucast (BUDGET_GC_TRACING t) :: u32)" using assms(4) t(3) by simp
    obtain m s' where s': "gc_calls m env t = Some (Inr s')" "dom (gc_heap s') = {p. reachable (\<lambda>_. 0) (gc_heap t) p}"
      using calls_complete [OF _ t(5) bt t(4,2) r] stopped_paused [OF 1(1)] 1(2) by blast
    have "gc_calls (Suc m) env s = Some (Inr s')" using t(1) s'(1) by simp
    moreover have "gc_heap s' = Map.empty" using s'(2) none by simp
    ultimately show ?thesis by blast
  next
    case 2
    then have "gc_heap t = Map.empty" using none by simp
    moreover have "gc_calls (Suc 0) env s = Some (Inr t)" using t(1) by simp
    ultimately show ?thesis by blast
  qed
qed

text \<open>The ring of two registered cells between two collections, with nobody holding it.\<close>

definition idle_ring :: Syli_state where
  "idle_ring = ring_state\<lparr>tracing_state := Tracing_Idle, tracing_current_bit_mark := 0,
     cyclic_mem_alloc := 1, cyclic_obj_alloc := 1, THRESHOLD_CANDIDATES_RATIO := - 1,
     BUDGET_GC_TRACING := BUDGET_BATCH_SIZE, BUDGET_GC_RELEASING := BUDGET_BATCH_SIZE\<rparr>"

lemma idle_ring_ok: "program_ok (\<lambda>_. 0, idle_ring)" "cycles_registered (\<lambda>_. 0) (gc_heap idle_ring)"
proof -
  have h: "gc_heap idle_ring = [8 \<mapsto> ring_object 17 0, 16 \<mapsto> ring_object 9 1]"
    by (simp add: idle_ring_def ring_state_def zero_state_def)
  have L: "lost_inv (\<lambda>_. 0) {} ring_state" using ring_state_inv(1) by (simp add: reclaim_inv_def)
  then have H: "heap_inv (\<lambda>_. 0) {} idle_ring" and t: "torn (gc_heap idle_ring) = {}"
    using ring_facts(8) by (auto simp: lost_inv_def heap_inv_def idle_ring_def) (auto simp: torn_def h idle_ring_def ring_state_def zero_state_def split: if_splits)
  have d: "dead {} (gc_heap idle_ring) = {}" using ring_facts(4) by (auto simp: dead_def h holders_def rc_at_def split: if_splits)
  have m: "obj_marked 0 (ring_object v i)" for v i by (simp add: ring_object_def obj_bit_defs)
  have q: "rel_queue idle_ring = []" by (simp add: idle_ring_def ring_state_def zero_state_def rel_queue_def)
  have "between (\<lambda>_. 0) idle_ring"
    using H t d q m
    by (simp add: between_def rel_inv_def) (auto simp: idle_ring_def ring_state_def zero_state_def releasing_sm_ok_def split: if_splits)
  moreover have "\<not> syli_object_is_mono_imm cons_header" using cons_header_fields(7) by (simp add: type_predicates)
  then have "plain_imm (gc_heap idle_ring)" using ring_facts(10) by (auto simp: plain_imm_def h split: if_splits)
  ultimately show "program_ok (\<lambda>_. 0, idle_ring)" by (simp add: program_ok_def ready_def)
  show "cycles_registered (\<lambda>_. 0) (gc_heap idle_ring)"
    using ring_facts ring_refs sample_untag by (auto simp: cycles_registered_def h split: if_splits)
qed

theorem no_garbage_left_witness:
  "\<exists>n s'. gc_calls n roots_env_null idle_ring = Some (Inr s') \<and> gc_heap s' = Map.empty"
proof -
  let ?s0 = "cycle_budgets idle_ring"
  have b: "0 < sint (ucast (BUDGET_GC_TRACING idle_ring) :: u32)" "0 < sint (releasing_budget ?s0)"
    "THRESHOLD_RELEASING_BUCKET idle_ring = 0" "tracing_triggered ?s0"
    by (simp_all add: cycle_budgets_def idle_ring_def ring_state_def zero_state_def BUDGET_BATCH_SIZE_def
        tracing_triggered_def gc_current_cyclic_mem_def candidates_ratio_def gc_current_cyclic_obj_def
        gc_cyclic_candidate_count_def)
  have "releasing_round ?s0 = Inr (Return ?s0)"
    using b(2) by (simp add: releasing_round_def cycle_budgets_def idle_ring_def ring_state_def zero_state_def)
  then have r: "syli_state_gc_releasing ?s0 = Some (Inr ?s0)" by (simp add: syli_state_gc_releasing_def run_loop_Return)
  have sv: "stack_values roots_env_null idle_ring []"
    by (simp add: stack_values_def stack_roots_ready_def roots_env_null_def no_section_def exI [of _ False])
  have "tracing_state idle_ring = Tracing_Idle" by (simp add: idle_ring_def)
  from no_garbage_left [OF idle_ring_ok(1) this b(3,1) sv _ idle_ring_ok(2) r b(2,4)] show ?thesis by simp
qed

end
